(* ===== verification/Anbox_Prelude.thy ===== *)
theory Anbox_Prelude
  imports Main "HOL-Library.Word" "HOL-Library.List_Lexorder" "HOL-Library.Char_ord"
begin

text \<open>
  Shared vocabulary of the development: bytes and fixed-width integers, the C++
  exceptions and undefined behaviour as values, the errno constants the sources
  return, the printf conversions the sources use, and the generic list, map and word
  lemmas of the component theories.

  Conventions. An \<open>uint8_t\<close> is an \<open>8 word\<close>; unsigned values whose wrap-around can be
  observed are words of their width; an \<open>int32_t\<close> is an \<open>int\<close> whose arithmetic results
  go through \<open>s32\<close>, the two's complement reading of the low 32 bits (C++ leaves signed
  overflow undefined, and this is what the supported compilers produce); sizes and
  positions of in-memory containers are \<open>nat\<close>. An exception is an \<open>Inl\<close>; an access the
  language leaves undefined (a read past the end of a buffer) is the exception
  \<open>Undefined\<close>, so that no theorem can silently rely on it.
\<close>

section \<open>Types\<close>

type_synonym byte = "8 word"
type_synonym bytes = "8 word list"
type_synonym u16 = "16 word"
type_synonym u32 = "32 word"
type_synonym u64 = "64 word"

datatype exn =
    Runtime_error string
  | Logic_error string
  | Out_of_range string
  | Invalid_argument string
  | System_error string
  | Undefined string

type_synonym 'a res = "exn + 'a"

named_theorems wf_intros \<open>preservation of the components' invariants\<close>
named_theorems step_simps \<open>equations that run one operation of a component\<close>

section \<open>Results\<close>

definition rbind :: "'a res \<Rightarrow> ('a \<Rightarrow> 'b res) \<Rightarrow> 'b res" where
  "rbind r f = (case r of Inl e \<Rightarrow> Inl e | Inr x \<Rightarrow> f x)"

lemma rbind_simps [simp]:
  "rbind (Inl e) f = Inl e" "rbind (Inr x) f = f x"
  by (simp_all add: rbind_def)

lemma rbind_eq_Inr:
  "rbind r f = Inr y \<longleftrightarrow> (\<exists>x. r = Inr x \<and> f x = Inr y)"
  by (cases r) auto

lemma rbind_eq_Inl:
  "rbind r f = Inl e \<longleftrightarrow> r = Inl e \<or> (\<exists>x. r = Inr x \<and> f x = Inl e)"
  by (cases r) auto

lemma rbind_assoc: "rbind (rbind r f) g = rbind r (\<lambda>x. rbind (f x) g)"
  by (cases r) auto

section \<open>Errno values\<close>

definition EINTR :: int where "EINTR = 4"
definition EIO :: int where "EIO = 5"
definition EAGAIN :: int where "EAGAIN = 11"
definition EPIPE :: int where "EPIPE = 32"
definition ENOSPC :: int where "ENOSPC = 28"
definition EINVAL :: int where "EINVAL = 22"

lemmas errno_defs = EINTR_def EIO_def EAGAIN_def EPIPE_def ENOSPC_def EINVAL_def

section \<open>Bytes and characters\<close>

definition byte_of_char :: "char \<Rightarrow> byte" where
  "byte_of_char c = of_char c"

definition char_of_byte :: "byte \<Rightarrow> char" where
  "char_of_byte b = char_of (unat b)"

definition bytes_of :: "string \<Rightarrow> bytes" where
  "bytes_of s = map byte_of_char s"

definition string_of_bytes :: "bytes \<Rightarrow> string" where
  "string_of_bytes bs = map char_of_byte bs"

lemma of_char_nat_less [simp]: "(of_char c :: nat) < 256"
  by (rule nat_of_char_less_256)

lemma unat_byte_of_char [simp]: "unat (byte_of_char c) = of_char c"
proof -
  have "(of_char c :: 8 word) = of_nat (of_char c :: nat)"
    by (simp only: of_nat_of_char)
  then show ?thesis
    by (simp add: byte_of_char_def unat_of_nat del: of_nat_of_char)
qed

lemma char_of_byte_of_char [simp]: "char_of_byte (byte_of_char c) = c"
  by (simp add: char_of_byte_def)

lemma unat_byte_less [simp]: "unat (b :: byte) < 256"
  using unsigned_less [of b, where ?'a = nat] by simp

lemma byte_of_char_of_byte [simp]: "byte_of_char (char_of_byte b) = b"
proof -
  have "unat (byte_of_char (char_of_byte b)) = unat b"
    by (simp add: char_of_byte_def)
  then show ?thesis
    by (simp only: word_unat_eq_iff)
qed

lemma string_of_bytes_of [simp]: "string_of_bytes (bytes_of s) = s"
  by (induction s) (simp_all add: string_of_bytes_def bytes_of_def)

lemma bytes_of_string_of [simp]: "bytes_of (string_of_bytes bs) = bs"
  by (induction bs) (simp_all add: string_of_bytes_def bytes_of_def)

lemma string_of_bytes_Nil [simp]: "string_of_bytes [] = []"
  by (simp add: string_of_bytes_def)

lemma bytes_of_Nil [simp]: "bytes_of [] = []"
  by (simp add: bytes_of_def)

lemma length_bytes_of [simp]: "length (bytes_of s) = length s"
  by (simp add: bytes_of_def)

lemma length_string_of_bytes [simp]: "length (string_of_bytes bs) = length bs"
  by (simp add: string_of_bytes_def)

lemma bytes_of_append [simp]: "bytes_of (s @ t) = bytes_of s @ bytes_of t"
  by (simp add: bytes_of_def)

lemma string_of_bytes_append [simp]:
  "string_of_bytes (bs @ cs) = string_of_bytes bs @ string_of_bytes cs"
  by (simp add: string_of_bytes_def)

section \<open>Two's complement 32-bit integers\<close>

definition s32 :: "int \<Rightarrow> int" where
  "s32 x = signed_take_bit 31 x"

definition in_s32 :: "int \<Rightarrow> bool" where
  "in_s32 x \<longleftrightarrow> - (2 ^ 31) \<le> x \<and> x < 2 ^ 31"

lemma s32_id [simp]: "in_s32 x \<Longrightarrow> s32 x = x"
  by (simp add: s32_def in_s32_def signed_take_bit_int_eq_self)

lemma in_s32_s32 [simp]: "in_s32 (s32 x)"
  using signed_take_bit_int_greater_eq_minus_exp [of 31 x] signed_take_bit_int_less_exp [of 31 x]
  by (simp add: s32_def in_s32_def)

lemma s32_s32 [simp]: "s32 (s32 x) = s32 x"
  by simp

lemma unat_of_nat_eq_u64: "m < 2 ^ 64 \<Longrightarrow> unat (of_nat m :: u64) = m"
  by (simp add: unat_of_nat)

lemma of_nat_inverse_u64:
  "m < 2 ^ 64 \<Longrightarrow> n < 2 ^ 64 \<Longrightarrow> (of_nat m :: u64) = of_nat n \<longleftrightarrow> m = n"
  by (metis unat_of_nat_eq_u64)

lemma unatSuc_u32: "unat (w :: u32) + 1 < 2 ^ 32 \<Longrightarrow> unat (w + 1) = unat w + 1"
  by (simp add: unat_word_ariths)

text \<open>A small unsigned number negated and read back as signed.\<close>

lemma sint_minus_unat: "unat (w :: u32) < 2 ^ 31 \<Longrightarrow> sint (- w) = - int (unat w)"
proof -
  assume a: "unat w < 2 ^ 31"
  have "- w = word_of_int (- int (unat w))" by simp
  then have "sint (- w) = signed_take_bit 31 (- int (unat w))"
    by (simp only: sint_sbintrunc') (simp add: signed_take_bit_eq)
  also have "\<dots> = - int (unat w)"
  proof -
    have "signed_take_bit 31 (- n) = - n" if "0 \<le> n" "n < 2 ^ 31" for n :: int
      using that by (intro signed_take_bit_int_eq_self) simp_all
    moreover have "int (unat w) < 2 ^ 31" using a by (metis of_nat_less_iff of_nat_numeral of_nat_power)
    ultimately show ?thesis by (metis of_nat_0_le_iff)
  qed
  finally show ?thesis .
qed

section \<open>The printf conversions of the sources\<close>

definition digit_char :: "nat \<Rightarrow> char" where
  "digit_char d = (if d < 10 then char_of (48 + d) else char_of (87 + d))"

fun digits_of :: "nat \<Rightarrow> nat \<Rightarrow> nat list" where
  "digits_of b n = (if b \<le> 1 \<or> n < b then [n] else digits_of b (n div b) @ [n mod b])"

declare digits_of.simps [simp del]

definition pad_left :: "nat \<Rightarrow> char \<Rightarrow> string \<Rightarrow> string" where
  "pad_left w c s = replicate (w - length s) c @ s"

definition show_nat :: "nat \<Rightarrow> string" where
  "show_nat n = map digit_char (digits_of 10 n)"

definition show_int :: "int \<Rightarrow> string" where
  "show_int i = (if i < 0 then CHR ''-'' # show_nat (nat (- i)) else show_nat (nat i))"

definition show_hex :: "nat \<Rightarrow> string" where
  "show_hex n = map digit_char (digits_of 16 n)"

definition show_hex_pad :: "nat \<Rightarrow> nat \<Rightarrow> string" where
  "show_hex_pad w n = pad_left w CHR ''0'' (show_hex n)"

lemma length_pad_left: "length (pad_left w c s) = max w (length s)"
  by (simp add: pad_left_def max_def)

lemma digits_of_small: "1 < b \<Longrightarrow> n < b \<Longrightarrow> digits_of b n = [n]"
  by (simp add: digits_of.simps)

lemma digits_of_step:
  "1 < b \<Longrightarrow> b \<le> n \<Longrightarrow> digits_of b n = digits_of b (n div b) @ [n mod b]"
  by (subst digits_of.simps) simp

lemma digits_of_less: "1 < b \<Longrightarrow> d \<in> set (digits_of b n) \<Longrightarrow> d < b"
proof (induction b n rule: digits_of.induct)
  case (1 b n)
  show ?case
  proof (cases "n < b")
    case True
    with "1.prems" show ?thesis by (simp add: digits_of_small)
  next
    case False
    with "1.prems" have "d \<in> set (digits_of b (n div b)) \<or> d = n mod b"
      by (auto simp: digits_of_step)
    with "1.IH" "1.prems"(1) False show ?thesis by auto
  qed
qed

lemma digits_of_value:
  "1 < b \<Longrightarrow> foldl (\<lambda>a d. a * b + d) 0 (digits_of b n) = n"
proof (induction b n rule: digits_of.induct)
  case (1 b n)
  show ?case
  proof (cases "n < b")
    case True
    with "1.prems" show ?thesis by (simp add: digits_of_small)
  next
    case False
    with "1" show ?thesis by (simp add: digits_of_step)
  qed
qed

lemma digits_of_length:
  "1 < b \<Longrightarrow> n < b ^ k \<Longrightarrow> 0 < k \<Longrightarrow> length (digits_of b n) \<le> k"
proof (induction k arbitrary: n)
  case 0
  then show ?case by simp
next
  case (Suc k)
  show ?case
  proof (cases "n < b")
    case True
    with Suc.prems show ?thesis by (simp add: digits_of_small)
  next
    case False
    with Suc.prems have "k \<noteq> 0" by (cases k) auto
    moreover from Suc.prems have "n div b < b ^ k"
      by (simp add: less_mult_imp_div_less mult.commute)
    ultimately have "length (digits_of b (n div b)) \<le> k"
      using Suc.IH Suc.prems(1) by simp
    with False Suc.prems(1) show ?thesis by (simp add: digits_of_step)
  qed
qed

lemma digits_of_not_Nil [simp]: "digits_of b n \<noteq> []"
  by (subst digits_of.simps) simp

section \<open>Ordered maps (std::map)\<close>

text \<open>
  A \<open>std::map\<close> that is iterated is an association list in increasing key order;
  \<open>om_insert\<close> is \<open>insert\<close> (an existing key keeps its value), \<open>om_put\<close> is assignment
  through \<open>operator[]\<close>, \<open>om_erase\<close> is \<open>erase\<close> by key, and lookup is \<open>map_of\<close>.
\<close>

type_synonym ('k, 'v) omap = "('k \<times> 'v) list"

fun om_insert :: "'k::linorder \<Rightarrow> 'v \<Rightarrow> ('k, 'v) omap \<Rightarrow> ('k, 'v) omap" where
  "om_insert k v [] = [(k, v)]"
| "om_insert k v ((a, b) # m) =
     (if k < a then (k, v) # (a, b) # m
      else if k = a then (a, b) # m
      else (a, b) # om_insert k v m)"

fun om_put :: "'k::linorder \<Rightarrow> 'v \<Rightarrow> ('k, 'v) omap \<Rightarrow> ('k, 'v) omap" where
  "om_put k v [] = [(k, v)]"
| "om_put k v ((a, b) # m) =
     (if k < a then (k, v) # (a, b) # m
      else if k = a then (k, v) # m
      else (a, b) # om_put k v m)"

definition om_erase :: "'k \<Rightarrow> ('k, 'v) omap \<Rightarrow> ('k, 'v) omap" where
  "om_erase k m = filter (\<lambda>e. fst e \<noteq> k) m"

definition om_wf :: "('k::linorder, 'v) omap \<Rightarrow> bool" where
  "om_wf m \<longleftrightarrow> sorted_wrt (<) (map fst m)"

lemma om_wf_Nil [simp]: "om_wf []"
  by (simp add: om_wf_def)

lemma om_wf_Cons [simp]: "om_wf (e # m) \<longleftrightarrow> (\<forall>x \<in> set m. fst e < fst x) \<and> om_wf m"
  by (simp add: om_wf_def)

lemma om_keys_insert: "fst ` set (om_insert k v m) = insert k (fst ` set m)"
  by (induction k v m rule: om_insert.induct) auto

lemma om_keys_put: "fst ` set (om_put k v m) = insert k (fst ` set m)"
  by (induction k v m rule: om_put.induct) auto

lemma om_keys_erase: "fst ` set (om_erase k m) = fst ` set m - {k}"
  by (auto simp: om_erase_def)

lemma om_wf_insert [simp, wf_intros]: "om_wf m \<Longrightarrow> om_wf (om_insert k v m)"
proof (induction k v m rule: om_insert.induct)
  case (2 k v a b m)
  have "\<forall>x \<in> set (om_insert k v m). fst x \<in> insert k (fst ` set m)"
    using om_keys_insert [of k v m] by auto
  with 2 show ?case by fastforce
qed simp

lemma om_wf_put [simp, wf_intros]: "om_wf m \<Longrightarrow> om_wf (om_put k v m)"
proof (induction k v m rule: om_put.induct)
  case (2 k v a b m)
  have "\<forall>x \<in> set (om_put k v m). fst x \<in> insert k (fst ` set m)"
    using om_keys_put [of k v m] by auto
  with 2 show ?case by fastforce
qed simp

lemma om_wf_filter [simp]: "om_wf m \<Longrightarrow> om_wf (filter P m)"
  by (induction m) auto

lemma om_wf_erase [simp, wf_intros]: "om_wf m \<Longrightarrow> om_wf (om_erase k m)"
  by (simp add: om_erase_def)

lemma om_lookup_put [simp]: "map_of (om_put k v m) = (map_of m)(k \<mapsto> v)"
  by (induction k v m rule: om_put.induct) auto

lemma om_lookup_erase [simp]: "map_of (om_erase k m) = (map_of m)(k := None)"
  by (induction m) (auto simp: om_erase_def)

lemma om_lookup_below:
  fixes k :: "'k::linorder"
  shows "\<forall>x \<in> set m. k < fst x \<Longrightarrow> map_of m k = None"
  by (induction m) auto

lemma om_lookup_insert:
  "om_wf m \<Longrightarrow> map_of (om_insert k v m) =
     (if map_of m k = None then (map_of m)(k \<mapsto> v) else map_of m)"
proof (induction k v m rule: om_insert.induct)
  case (2 k v a b m)
  show ?case
  proof (cases "k < a")
    case True
    with "2.prems" have "\<forall>x \<in> set m. k < fst x" by force
    with True show ?thesis by (auto simp: om_lookup_below)
  next
    case False
    with 2 show ?thesis by (auto simp: fun_eq_iff)
  qed
qed simp

lemma om_wf_distinct: "om_wf m \<Longrightarrow> distinct (map fst m)"
  by (induction m) force+

lemma om_erase_absent: "map_of m k = None \<Longrightarrow> om_erase k m = m"
  by (induction m) (auto simp: om_erase_def split: if_splits)

lemma om_length_insert_absent:
  "map_of m k = None \<Longrightarrow> length (om_insert k v m) = Suc (length m)"
  by (induction k v m rule: om_insert.induct) (auto split: if_splits)

lemma om_set_insert: "set (om_insert k v m) \<subseteq> insert (k, v) (set m)"
  by (induction k v m rule: om_insert.induct) auto

lemma om_set_put: "set (om_put k v m) \<subseteq> insert (k, v) (set m)"
  by (induction k v m rule: om_put.induct) auto

lemma om_erase_put:
  "om_wf m \<Longrightarrow> map_of m k = None \<Longrightarrow> om_erase k (om_put k v m) = m"
  by (induction k v m rule: om_put.induct)
    (auto simp: om_erase_def om_erase_absent [unfolded om_erase_def] split: if_splits)

section \<open>Answers of the kernel\<close>

text \<open>
  What a read or write on a descriptor answers is the environment's choice. A run is given
  the list of answers in the order the calls consume them: \<open>Io_ok n\<close>, the kernel is ready
  to transfer \<open>n\<close> bytes (and transfers no more than the caller asked for), or \<open>Io_err e\<close>,
  the call fails with errno \<open>e\<close>. A loop that outlives the list has not returned: its result
  is \<open>None\<close>.
\<close>

datatype io_answer = Io_ok nat | Io_err int

fun io_progress :: "io_answer list \<Rightarrow> nat" where
  "io_progress [] = 0"
| "io_progress (Io_ok n # as) = n + io_progress as"
| "io_progress (Io_err e # as) = io_progress as"

end
