(* ===== verification/Ring_Queue.thy ===== *)
theory Ring_Queue
  imports Anbox_Prelude
begin

text \<open>
  The two bounded ring buffers of the daemon: \<open>graphics::BufferQueue\<close>
  (\<open>graphics/buffer_queue.cpp\<close>), the closable queue between the socket thread and a
  render thread, and \<open>common::MessageChannel\<close> (\<open>common/message_channel.cpp\<close>), the
  blocking channel between two threads. Both are shown to implement one interface, the
  locale \<open>bounded_fifo\<close>, whose abstract state is the list of queued items; a step
  relation then runs one producer and one consumer against a queue and shows that no
  wake-up is lost.
\<close>

section \<open>The abstract bounded queue\<close>

fun push_all :: "('a \<Rightarrow> 'q \<Rightarrow> 'q option) \<Rightarrow> 'a list \<Rightarrow> 'q \<Rightarrow> 'q option" where
  "push_all push [] q = Some q"
| "push_all push (x # xs) q =
     (case push x q of None \<Rightarrow> None | Some q' \<Rightarrow> push_all push xs q')"

fun pop_n :: "('q \<Rightarrow> ('a \<times> 'q) option) \<Rightarrow> nat \<Rightarrow> 'q \<Rightarrow> ('a list \<times> 'q) option" where
  "pop_n pop 0 q = Some ([], q)"
| "pop_n pop (Suc n) q =
     (case pop q of None \<Rightarrow> None
      | Some (x, q') \<Rightarrow> map_option (\<lambda>(xs, q''). (x # xs, q'')) (pop_n pop n q'))"

locale bounded_fifo =
  fixes inv :: "'q \<Rightarrow> bool"
    and contents :: "'q \<Rightarrow> 'a list"
    and room :: "'q \<Rightarrow> nat"
    and push :: "'a \<Rightarrow> 'q \<Rightarrow> 'q option"
    and pop :: "'q \<Rightarrow> ('a \<times> 'q) option"
  assumes push_room:
      "inv q \<Longrightarrow> 0 < room q \<Longrightarrow>
        \<exists>q'. push x q = Some q' \<and> inv q' \<and> contents q' = contents q @ [x] \<and>
          room q' = room q - 1"
    and push_full: "inv q \<Longrightarrow> room q = 0 \<Longrightarrow> push x q = None"
    and pop_cons:
      "inv q \<Longrightarrow> contents q = x # xs \<Longrightarrow>
        \<exists>q'. pop q = Some (x, q') \<and> inv q' \<and> contents q' = xs"
    and pop_nil: "inv q \<Longrightarrow> contents q = [] \<Longrightarrow> pop q = None"
begin

lemma push_all_room:
  "inv q \<Longrightarrow> length xs \<le> room q \<Longrightarrow>
    \<exists>q'. push_all push xs q = Some q' \<and> inv q' \<and> contents q' = contents q @ xs"
proof (induction xs arbitrary: q)
  case Nil
  then show ?case by simp
next
  case (Cons x xs)
  then obtain q1 where q1: "push x q = Some q1" "inv q1" "contents q1 = contents q @ [x]"
      "room q1 = room q - 1"
    using push_room [of q x] by auto
  with Cons.prems have "length xs \<le> room q1" by simp
  with Cons.IH [of q1] q1 obtain q2 where
    "push_all push xs q1 = Some q2" "inv q2" "contents q2 = contents q1 @ xs"
    by auto
  with q1 show ?case by simp
qed

lemma pop_n_prefix:
  "inv q \<Longrightarrow> contents q = xs @ ys \<Longrightarrow>
    \<exists>q'. pop_n pop (length xs) q = Some (xs, q') \<and> inv q' \<and> contents q' = ys"
proof (induction xs arbitrary: q)
  case Nil
  then show ?case by simp
next
  case (Cons x xs)
  then obtain q1 where q1: "pop q = Some (x, q1)" "inv q1" "contents q1 = xs @ ys"
    using pop_cons [of q x "xs @ ys"] by auto
  with Cons.IH [of q1] obtain q2 where
    "pop_n pop (length xs) q1 = Some (xs, q2)" "inv q2" "contents q2 = ys"
    by auto
  with q1 show ?case by simp
qed

lemma fifo:
  assumes "inv q" "length xs \<le> room q"
  shows "\<exists>q1 q2. push_all push xs q = Some q1 \<and>
    pop_n pop (length (contents q) + length xs) q1 = Some (contents q @ xs, q2) \<and>
    contents q2 = [] \<and> pop q2 = None"
proof -
  obtain q1 where q1: "push_all push xs q = Some q1" "inv q1" "contents q1 = contents q @ xs"
    using push_all_room [OF assms] by auto
  obtain q2 where q2: "pop_n pop (length (contents q @ xs)) q1 = Some (contents q @ xs, q2)"
      "inv q2" "contents q2 = []"
    using pop_n_prefix [of q1 "contents q @ xs" "[]"] q1 by auto
  with pop_nil [of q2] q1 show ?thesis by auto
qed

end

section \<open>graphics::BufferQueue\<close>

datatype cond_var = Can_push | Can_pop

datatype notification = Notify_one cond_var | Notify_all cond_var

text \<open>A call that may block either returns or waits on a condition variable.\<close>

datatype 'r blocking = Return 'r | Wait cond_var

record 'a buffer_queue =
  bq_capacity :: nat
  bq_pos :: nat
  bq_count :: nat
  bq_closed :: bool
  bq_buffers :: "'a list"

definition new_buffer_queue :: "'a \<Rightarrow> nat \<Rightarrow> 'a buffer_queue" where
  "new_buffer_queue dflt capacity =
     \<lparr>bq_capacity = capacity, bq_pos = 0, bq_count = 0, bq_closed = False,
      bq_buffers = replicate capacity dflt\<rparr>"

definition can_push_locked :: "'a buffer_queue \<Rightarrow> bool" where
  "can_push_locked q \<longleftrightarrow> \<not> bq_closed q \<and> bq_count q < bq_capacity q"

definition can_pop_locked :: "'a buffer_queue \<Rightarrow> bool" where
  "can_pop_locked q \<longleftrightarrow> 0 < bq_count q"

definition is_closed_locked :: "'a buffer_queue \<Rightarrow> bool" where
  "is_closed_locked q = bq_closed q"

definition try_push_locked ::
  "'a \<Rightarrow> 'a buffer_queue \<Rightarrow> int \<times> 'a buffer_queue \<times> notification list" where
  "try_push_locked b q =
     (if bq_closed q then (- EIO, q, [])
      else if bq_count q \<ge> bq_capacity q then (- EAGAIN, q, [])
      else
        (let pos = bq_pos q + bq_count q;
             pos = (if pos \<ge> bq_capacity q then pos - bq_capacity q else pos)
         in (0,
             q\<lparr>bq_buffers := (bq_buffers q)[pos := b], bq_count := bq_count q + 1\<rparr>,
             if bq_count q = 0 then [Notify_one Can_pop] else [])))"

definition push_locked ::
  "'a \<Rightarrow> 'a buffer_queue \<Rightarrow> (int \<times> 'a buffer_queue \<times> notification list) blocking" where
  "push_locked b q =
     (if bq_count q = bq_capacity q
      then if bq_closed q then Return (- EIO, q, []) else Wait Can_push
      else Return (try_push_locked b q))"

text \<open>
  A pop moves the item out of its slot. What \<open>std::move\<close> leaves in the slot depends on
  the item type and is the parameter \<open>mv\<close>; no caller can observe it, which the
  refinement below shows by holding for every \<open>mv\<close>.
\<close>

definition try_pop_locked ::
  "('a \<Rightarrow> 'a) \<Rightarrow> 'a buffer_queue \<Rightarrow>
     int \<times> 'a option \<times> 'a buffer_queue \<times> notification list" where
  "try_pop_locked mv q =
     (if bq_count q = 0 then (if bq_closed q then - EIO else - EAGAIN, None, q, [])
      else
        (let item = bq_buffers q ! bq_pos q;
             pos = bq_pos q + 1;
             pos = (if pos \<ge> bq_capacity q then pos - bq_capacity q else pos)
         in (0, Some item,
             q\<lparr>bq_buffers := (bq_buffers q)[bq_pos q := mv item], bq_pos := pos,
               bq_count := bq_count q - 1\<rparr>,
             if bq_count q = bq_capacity q then [Notify_one Can_push] else [])))"

definition pop_locked ::
  "('a \<Rightarrow> 'a) \<Rightarrow> 'a buffer_queue \<Rightarrow>
     (int \<times> 'a option \<times> 'a buffer_queue \<times> notification list) blocking" where
  "pop_locked mv q =
     (if bq_count q = 0
      then if bq_closed q then Return (- EIO, None, q, []) else Wait Can_pop
      else Return (try_pop_locked mv q))"

definition close_locked :: "'a buffer_queue \<Rightarrow> 'a buffer_queue \<times> notification list" where
  "close_locked q =
     (q\<lparr>bq_closed := True\<rparr>,
      (if bq_count q = bq_capacity q then [Notify_all Can_push] else []) @
      (if bq_count q = 0 then [Notify_all Can_pop] else []))"

section \<open>common::MessageChannel\<close>

record 'a message_channel =
  mc_pos :: nat
  mc_count :: nat
  mc_capacity :: nat
  mc_items :: "'a list"

definition new_message_channel :: "'a \<Rightarrow> nat \<Rightarrow> 'a message_channel" where
  "new_message_channel dflt capacity =
     \<lparr>mc_pos = 0, mc_count = 0, mc_capacity = capacity, mc_items = replicate capacity dflt\<rparr>"

definition before_write :: "'a message_channel \<Rightarrow> nat option" where
  \<comment> \<open>\<open>None\<close>: the call reaches \<open>can_write_.wait\<close>, with a lock object that owns no mutex\<close>
  "before_write c =
     (if mc_count c \<ge> mc_capacity c then None
      else
        (let result = mc_pos c + mc_count c
         in Some (if result \<ge> mc_capacity c then result - mc_capacity c else result)))"

definition after_write :: "'a message_channel \<Rightarrow> 'a message_channel" where
  "after_write c = c\<lparr>mc_count := mc_count c + 1\<rparr>"

definition before_read :: "'a message_channel \<Rightarrow> nat option" where
  \<comment> \<open>\<open>None\<close>: the call reaches \<open>can_read_.wait\<close>, with a lock object that owns no mutex\<close>
  "before_read c = (if mc_count c = 0 then None else Some (mc_pos c))"

definition after_read :: "'a message_channel \<Rightarrow> 'a message_channel" where
  "after_read c =
     (let pos = mc_pos c + 1
      in c\<lparr>mc_pos := (if pos = mc_capacity c then 0 else pos), mc_count := mc_count c - 1\<rparr>)"

definition channel_send :: "'a \<Rightarrow> 'a message_channel \<Rightarrow> 'a message_channel option" where
  "channel_send msg c =
     (case before_write c of None \<Rightarrow> None
      | Some pos \<Rightarrow> Some (after_write (c\<lparr>mc_items := (mc_items c)[pos := msg]\<rparr>)))"

definition channel_receive :: "'a message_channel \<Rightarrow> ('a \<times> 'a message_channel) option" where
  "channel_receive c =
     (case before_read c of None \<Rightarrow> None
      | Some pos \<Rightarrow> Some (mc_items c ! pos, after_read c))"

section \<open>The ring arithmetic\<close>

text \<open>
  The live window of a ring of size \<open>n\<close> that starts at \<open>p\<close> and holds \<open>k\<close> items.
\<close>

definition window :: "'a list \<Rightarrow> nat \<Rightarrow> nat \<Rightarrow> 'a list" where
  "window xs p k = map (\<lambda>i. xs ! ((p + i) mod length xs)) [0..<k]"

lemma window_0 [simp]: "window xs p 0 = []"
  by (simp add: window_def)

lemma length_window [simp]: "length (window xs p k) = k"
  by (simp add: window_def)

lemma ring_index:
  assumes "p < n" "k \<le> n"
  shows "(if p + k \<ge> n then p + k - n else p + k) = (p + k) mod (n::nat)"
  using assms by (auto simp: mod_if)

lemma mod_eq_ring: "p < n \<Longrightarrow> i < n \<Longrightarrow> k < n \<Longrightarrow> (p + i) mod n = (p + k) mod n \<Longrightarrow> i = (k::nat)"
  by (auto simp: mod_if split: if_splits)

lemma window_push:
  assumes "p < length xs" "k < length xs"
  shows "window (xs[(p + k) mod length xs := b]) p (Suc k) = window xs p k @ [b]"
proof -
  have "(xs[(p + k) mod length xs := b]) ! ((p + i) mod length xs) = xs ! ((p + i) mod length xs)"
    if "i < k" for i
  proof -
    have "(p + i) mod length xs \<noteq> (p + k) mod length xs"
      using that assms mod_eq_ring [of p "length xs" i k] by auto
    then show ?thesis by simp
  qed
  moreover have "(xs[(p + k) mod length xs := b]) ! ((p + k) mod length xs) = b"
    using assms by (intro nth_list_update_eq) (metis assms(1) gr_implies_not0 mod_less_divisor neq0_conv)
  ultimately show ?thesis by (simp add: window_def)
qed

lemma window_pop:
  assumes "p < length xs" "k < length xs"
  shows "window xs p (Suc k) = xs ! p # window (xs[p := c]) ((p + 1) mod length xs) k"
proof -
  have "(xs[p := c]) ! (((p + 1) mod length xs + i) mod length xs) = xs ! ((p + Suc i) mod length xs)"
    if "i < k" for i
  proof -
    have e: "((p + 1) mod length xs + i) mod length xs = (p + Suc i) mod length xs"
      by (simp add: mod_add_left_eq)
    have "(p + Suc i) mod length xs \<noteq> p"
    proof
      assume "(p + Suc i) mod length xs = p"
      with assms have "(p + Suc i) mod length xs = (p + 0) mod length xs" by simp
      from mod_eq_ring [OF assms(1) _ _ this] that assms have "Suc i = 0" by linarith
      then show False by simp
    qed
    with e show ?thesis by simp
  qed
  then have "map (\<lambda>i. xs ! ((p + Suc i) mod length xs)) [0..<k] =
      window (xs[p := c]) ((p + 1) mod length xs) k"
    by (simp add: window_def)
  moreover have "window xs p (Suc k) = xs ! p # map (\<lambda>i. xs ! ((p + Suc i) mod length xs)) [0..<k]"
    using assms by (simp add: window_def upt_rec [of 0 "Suc k"] map_Suc_upt [symmetric] comp_def
        del: upt_Suc map_Suc_upt)
  ultimately show ?thesis by simp
qed

section \<open>BufferQueue refines the abstract queue\<close>

definition bq_wf :: "'a buffer_queue \<Rightarrow> bool" where
  "bq_wf q \<longleftrightarrow>
     length (bq_buffers q) = bq_capacity q \<and> bq_count q \<le> bq_capacity q \<and>
     bq_pos q < bq_capacity q"

definition bq_contents :: "'a buffer_queue \<Rightarrow> 'a list" where
  "bq_contents q = window (bq_buffers q) (bq_pos q) (bq_count q)"

definition bq_room :: "'a buffer_queue \<Rightarrow> nat" where
  "bq_room q = (if bq_closed q then 0 else bq_capacity q - bq_count q)"

definition bq_push :: "'a \<Rightarrow> 'a buffer_queue \<Rightarrow> 'a buffer_queue option" where
  "bq_push b q = (case try_push_locked b q of (r, q', ns) \<Rightarrow> if r = 0 then Some q' else None)"

definition bq_pop :: "('a \<Rightarrow> 'a) \<Rightarrow> 'a buffer_queue \<Rightarrow> ('a \<times> 'a buffer_queue) option" where
  "bq_pop mv q =
     (case try_pop_locked mv q of (r, item, q', ns) \<Rightarrow> map_option (\<lambda>x. (x, q')) item)"

lemma length_bq_contents [simp]: "length (bq_contents q) = bq_count q"
  by (simp add: bq_contents_def)

lemma bq_contents_Nil [simp]: "bq_contents q = [] \<longleftrightarrow> bq_count q = 0"
  by (metis length_0_conv length_bq_contents)

lemma new_buffer_queue_wf: "0 < n \<Longrightarrow> bq_wf (new_buffer_queue d n)"
  by (simp add: bq_wf_def new_buffer_queue_def)

lemma new_buffer_queue_contents: "bq_contents (new_buffer_queue d n) = []"
  by (simp add: new_buffer_queue_def)

lemma try_push_locked_ok:
  assumes "bq_wf q" "\<not> bq_closed q" "bq_count q < bq_capacity q"
  shows "\<exists>q'. try_push_locked b q =
      (0, q', if bq_count q = 0 then [Notify_one Can_pop] else []) \<and>
    bq_wf q' \<and> bq_contents q' = bq_contents q @ [b] \<and>
    bq_count q' = Suc (bq_count q) \<and> bq_capacity q' = bq_capacity q \<and> \<not> bq_closed q'"
proof -
  define pos where "pos = (bq_pos q + bq_count q) mod bq_capacity q"
  have "try_push_locked b q =
      (0, q\<lparr>bq_buffers := (bq_buffers q)[pos := b], bq_count := bq_count q + 1\<rparr>,
       if bq_count q = 0 then [Notify_one Can_pop] else [])"
    using assms ring_index [of "bq_pos q" "bq_capacity q" "bq_count q"]
    by (simp add: try_push_locked_def bq_wf_def pos_def Let_def)
  with assms show ?thesis
    using window_push [of "bq_pos q" "bq_buffers q" "bq_count q" b]
    by (simp add: bq_wf_def bq_contents_def pos_def)
qed

lemma try_push_locked_fail:
  "bq_closed q \<Longrightarrow> try_push_locked b q = (- EIO, q, [])"
  "\<not> bq_closed q \<Longrightarrow> bq_count q \<ge> bq_capacity q \<Longrightarrow> try_push_locked b q = (- EAGAIN, q, [])"
  by (simp_all add: try_push_locked_def)

lemma try_pop_locked_ok:
  assumes "bq_wf q" "bq_contents q = x # xs"
  shows "\<exists>q'. try_pop_locked mv q =
      (0, Some x, q', if bq_count q = bq_capacity q then [Notify_one Can_push] else []) \<and>
    bq_wf q' \<and> bq_contents q' = xs \<and> bq_count q' = bq_count q - 1 \<and>
    bq_capacity q' = bq_capacity q \<and> bq_closed q' = bq_closed q"
proof -
  from assms(2) have c: "bq_count q = Suc (length xs)"
    using length_bq_contents [of q] by simp
  define pos where "pos = (bq_pos q + 1) mod bq_capacity q"
  let ?x = "bq_buffers q ! bq_pos q"
  have "?x # window ((bq_buffers q)[bq_pos q := mv ?x]) pos (length xs) = x # xs"
    unfolding assms(2) [symmetric] bq_contents_def c pos_def
    using assms(1) c window_pop [of "bq_pos q" "bq_buffers q" "length xs" "mv ?x"]
    by (simp add: bq_wf_def)
  then have item: "?x = x"
    and rest: "window ((bq_buffers q)[bq_pos q := mv ?x]) pos (length xs) = xs"
    by (blast elim: list.inject [THEN iffD1, elim_format])+
  have "try_pop_locked mv q =
      (0, Some ?x, q\<lparr>bq_buffers := (bq_buffers q)[bq_pos q := mv ?x], bq_pos := pos,
         bq_count := length xs\<rparr>,
       if bq_count q = bq_capacity q then [Notify_one Can_push] else [])"
    using assms c
    by (cases "Suc (bq_pos q) = bq_capacity q")
      (auto simp: try_pop_locked_def bq_wf_def pos_def Let_def)
  moreover have "pos < bq_capacity q"
    using assms(1) by (simp add: pos_def bq_wf_def)
  ultimately show ?thesis
    using assms(1) c rest by (simp add: item [symmetric] bq_wf_def bq_contents_def)
qed

lemma try_pop_locked_empty:
  "bq_count q = 0 \<Longrightarrow>
    try_pop_locked mv q = (if bq_closed q then - EIO else - EAGAIN, None, q, [])"
  by (simp add: try_pop_locked_def)

lemma close_locked_simps [simp]:
  "bq_contents (fst (close_locked q)) = bq_contents q"
  "bq_closed (fst (close_locked q))"
  "bq_count (fst (close_locked q)) = bq_count q"
  "bq_capacity (fst (close_locked q)) = bq_capacity q"
  "bq_wf (fst (close_locked q)) = bq_wf q"
  by (simp_all add: close_locked_def bq_contents_def bq_wf_def)

lemma close_locked_wakes:
  "bq_count q = bq_capacity q \<Longrightarrow> Notify_all Can_push \<in> set (snd (close_locked q))"
  "bq_count q = 0 \<Longrightarrow> Notify_all Can_pop \<in> set (snd (close_locked q))"
  by (simp_all add: close_locked_def)

interpretation bq: bounded_fifo bq_wf bq_contents bq_room bq_push "bq_pop mv"
proof unfold_locales
  fix q :: "'a buffer_queue" and x
  assume w: "bq_wf q" and "0 < bq_room q"
  then have "\<not> bq_closed q" "bq_count q < bq_capacity q"
    by (auto simp: bq_room_def split: if_splits)
  from try_push_locked_ok [OF w this, of x]
  show "\<exists>q'. bq_push x q = Some q' \<and> bq_wf q' \<and> bq_contents q' = bq_contents q @ [x] \<and>
      bq_room q' = bq_room q - 1"
    using \<open>\<not> bq_closed q\<close> by (elim exE conjE) (simp add: bq_push_def bq_room_def)
next
  fix q :: "'a buffer_queue" and x
  assume "bq_wf q" "bq_room q = 0"
  then have "bq_closed q \<or> bq_count q \<ge> bq_capacity q"
    by (cases "bq_closed q") (simp_all add: bq_room_def)
  then show "bq_push x q = None"
    by (cases "bq_closed q") (simp_all add: bq_push_def try_push_locked_fail errno_defs)
next
  fix q :: "'a buffer_queue" and x xs
  assume "bq_wf q" "bq_contents q = x # xs"
  from try_pop_locked_ok [OF this, of mv]
  show "\<exists>q'. bq_pop mv q = Some (x, q') \<and> bq_wf q' \<and> bq_contents q' = xs"
    by (elim exE conjE) (simp add: bq_pop_def)
next
  fix q :: "'a buffer_queue"
  assume "bq_wf q" "bq_contents q = []"
  then show "bq_pop mv q = None"
    by (simp add: bq_pop_def try_pop_locked_empty)
qed

section \<open>MessageChannel refines the abstract queue\<close>

definition mc_wf :: "'a message_channel \<Rightarrow> bool" where
  "mc_wf c \<longleftrightarrow>
     length (mc_items c) = mc_capacity c \<and> mc_count c \<le> mc_capacity c \<and>
     mc_pos c < mc_capacity c"

definition mc_contents :: "'a message_channel \<Rightarrow> 'a list" where
  "mc_contents c = window (mc_items c) (mc_pos c) (mc_count c)"

definition mc_room :: "'a message_channel \<Rightarrow> nat" where
  "mc_room c = mc_capacity c - mc_count c"

lemma length_mc_contents [simp]: "length (mc_contents c) = mc_count c"
  by (simp add: mc_contents_def)

lemma channel_send_ok:
  assumes "mc_wf c" "mc_count c < mc_capacity c"
  shows "\<exists>c'. channel_send m c = Some c' \<and> mc_wf c' \<and> mc_contents c' = mc_contents c @ [m] \<and>
    mc_room c' = mc_room c - 1"
proof -
  have "channel_send m c =
      Some (after_write (c\<lparr>mc_items := (mc_items c)[(mc_pos c + mc_count c) mod mc_capacity c := m]\<rparr>))"
    using assms ring_index [of "mc_pos c" "mc_capacity c" "mc_count c"]
    by (simp add: channel_send_def before_write_def mc_wf_def Let_def)
  with assms show ?thesis
    using window_push [of "mc_pos c" "mc_items c" "mc_count c" m]
    by (simp add: after_write_def mc_wf_def mc_contents_def mc_room_def)
qed

lemma channel_receive_ok:
  assumes "mc_wf c" "mc_contents c = x # xs"
  shows "\<exists>c'. channel_receive c = Some (x, c') \<and> mc_wf c' \<and> mc_contents c' = xs"
proof -
  from assms(2) have k: "mc_count c = Suc (length xs)"
    using length_mc_contents [of c] by simp
  let ?x = "mc_items c ! mc_pos c"
  have pos: "(if mc_pos c + 1 = mc_capacity c then 0 else mc_pos c + 1) = (mc_pos c + 1) mod mc_capacity c"
    using assms(1) by (auto simp: mc_wf_def mod_if)
  have "window (mc_items c) (mc_pos c) (Suc (length xs)) =
      ?x # window ((mc_items c)[mc_pos c := ?x]) ((mc_pos c + 1) mod length (mc_items c)) (length xs)"
    using assms k by (intro window_pop) (simp_all add: mc_wf_def)
  with assms k have "x = ?x" "xs = window (mc_items c) ((mc_pos c + 1) mod mc_capacity c) (length xs)"
    by (simp_all add: mc_contents_def mc_wf_def)
  moreover have "(mc_pos c + 1) mod mc_capacity c < mc_capacity c"
    using assms(1) by (simp add: mc_wf_def)
  moreover have "channel_receive c = Some (?x,
      c\<lparr>mc_pos := (mc_pos c + 1) mod mc_capacity c, mc_count := length xs\<rparr>)"
    unfolding channel_receive_def before_read_def after_read_def Let_def pos
    using k by simp
  ultimately show ?thesis
    using assms(1) k by (simp add: mc_wf_def mc_contents_def)
qed

interpretation mc: bounded_fifo mc_wf mc_contents mc_room channel_send channel_receive
proof unfold_locales
  fix c :: "'a message_channel" and x
  assume "mc_wf c" "0 < mc_room c"
  then show "\<exists>c'. channel_send x c = Some c' \<and> mc_wf c' \<and> mc_contents c' = mc_contents c @ [x] \<and>
      mc_room c' = mc_room c - 1"
    using channel_send_ok [of c x] by (simp add: mc_room_def)
next
  fix c :: "'a message_channel" and x
  assume "mc_wf c" "mc_room c = 0"
  then show "channel_send x c = None"
    by (simp add: mc_room_def channel_send_def before_write_def)
next
  fix c :: "'a message_channel" and x xs
  assume "mc_wf c" "mc_contents c = x # xs"
  then show "\<exists>c'. channel_receive c = Some (x, c') \<and> mc_wf c' \<and> mc_contents c' = xs"
    by (rule channel_receive_ok)
next
  fix c :: "'a message_channel"
  assume "mc_wf c" "mc_contents c = []"
  then have "mc_count c = 0"
    by (metis length_mc_contents list.size(3))
  then show "channel_receive c = None"
    by (simp add: channel_receive_def before_read_def)
qed

section \<open>One producer and one consumer\<close>

text \<open>
  \<open>BufferedIOStream\<close> runs each of its queues with one pushing and one popping thread and
  lets any thread close it. A state of that system holds the queue, the items still to
  be pushed, those pushed with result 0, those popped, and whether each thread sleeps on
  its condition variable. A wake-up (a notification, or a spurious one) makes the
  thread run its loop again, which is another call of \<open>push_locked\<close> or \<open>pop_locked\<close>.
\<close>

record 'a spsc =
  sp_queue :: "'a buffer_queue"
  sp_todo :: "'a list"
  sp_sent :: "'a list"
  sp_received :: "'a list"
  sp_prod_blocked :: bool
  sp_cons_blocked :: bool

definition wakes :: "cond_var \<Rightarrow> notification list \<Rightarrow> bool" where
  "wakes cv ns \<longleftrightarrow> Notify_one cv \<in> set ns \<or> Notify_all cv \<in> set ns"

definition deliver :: "notification list \<Rightarrow> 'a spsc \<Rightarrow> 'a spsc" where
  "deliver ns s =
     s\<lparr>sp_prod_blocked := sp_prod_blocked s \<and> \<not> wakes Can_push ns,
       sp_cons_blocked := sp_cons_blocked s \<and> \<not> wakes Can_pop ns\<rparr>"

inductive spsc_step :: "('a \<Rightarrow> 'a) \<Rightarrow> 'a spsc \<Rightarrow> 'a spsc \<Rightarrow> bool" for mv where
  push_ok:
    "\<not> sp_prod_blocked s \<Longrightarrow> sp_todo s = x # xs \<Longrightarrow>
     push_locked x (sp_queue s) = Return (0, q, ns) \<Longrightarrow>
     spsc_step mv s (deliver ns (s\<lparr>sp_queue := q, sp_todo := xs, sp_sent := sp_sent s @ [x]\<rparr>))"
| push_error:
    "\<not> sp_prod_blocked s \<Longrightarrow> sp_todo s = x # xs \<Longrightarrow>
     push_locked x (sp_queue s) = Return (r, q, ns) \<Longrightarrow> r \<noteq> 0 \<Longrightarrow>
     spsc_step mv s (deliver ns (s\<lparr>sp_queue := q, sp_todo := xs\<rparr>))"
| push_wait:
    "\<not> sp_prod_blocked s \<Longrightarrow> sp_todo s = x # xs \<Longrightarrow>
     push_locked x (sp_queue s) = Wait cv \<Longrightarrow>
     spsc_step mv s (s\<lparr>sp_prod_blocked := True\<rparr>)"
| pop_ok:
    "\<not> sp_cons_blocked s \<Longrightarrow>
     pop_locked mv (sp_queue s) = Return (r, Some x, q, ns) \<Longrightarrow>
     spsc_step mv s (deliver ns (s\<lparr>sp_queue := q, sp_received := sp_received s @ [x]\<rparr>))"
| pop_wait:
    "\<not> sp_cons_blocked s \<Longrightarrow> pop_locked mv (sp_queue s) = Wait cv \<Longrightarrow>
     spsc_step mv s (s\<lparr>sp_cons_blocked := True\<rparr>)"
| close:
    "close_locked (sp_queue s) = (q, ns) \<Longrightarrow>
     spsc_step mv s (deliver ns (s\<lparr>sp_queue := q\<rparr>))"
| spurious_push: "spsc_step mv s (s\<lparr>sp_prod_blocked := False\<rparr>)"
| spurious_pop: "spsc_step mv s (s\<lparr>sp_cons_blocked := False\<rparr>)"

definition spsc_init :: "'a \<Rightarrow> nat \<Rightarrow> 'a list \<Rightarrow> 'a spsc" where
  "spsc_init d n items =
     \<lparr>sp_queue = new_buffer_queue d n, sp_todo = items, sp_sent = [], sp_received = [],
      sp_prod_blocked = False, sp_cons_blocked = False\<rparr>"

definition spsc_reachable :: "('a \<Rightarrow> 'a) \<Rightarrow> 'a spsc \<Rightarrow> 'a spsc \<Rightarrow> bool" where
  "spsc_reachable mv = (spsc_step mv)\<^sup>*\<^sup>*"

definition spsc_inv :: "'a list \<Rightarrow> nat \<Rightarrow> 'a spsc \<Rightarrow> bool" where
  "spsc_inv items n s \<longleftrightarrow>
     bq_wf (sp_queue s) \<and> bq_capacity (sp_queue s) = n \<and>
     (\<not> bq_closed (sp_queue s) \<longrightarrow> sp_sent s @ sp_todo s = items) \<and>
     sp_sent s = sp_received s @ bq_contents (sp_queue s) \<and>
     (sp_prod_blocked s \<longrightarrow>
        bq_count (sp_queue s) = bq_capacity (sp_queue s) \<and> \<not> bq_closed (sp_queue s)) \<and>
     (sp_cons_blocked s \<longrightarrow> bq_count (sp_queue s) = 0 \<and> \<not> bq_closed (sp_queue s))"

lemma push_locked_Return:
  assumes "bq_wf q" "push_locked x q = Return (r, q', ns)"
  shows "if r = 0
    then bq_wf q' \<and> bq_contents q' = bq_contents q @ [x] \<and> \<not> bq_closed q \<and>
      (bq_count q = 0 \<longrightarrow> wakes Can_pop ns) \<and> bq_count q \<noteq> bq_capacity q \<and>
      bq_capacity q' = bq_capacity q
    else q' = q \<and> ns = [] \<and> bq_closed q \<and> r = - EIO"
proof (cases "bq_closed q \<or> bq_count q = bq_capacity q")
  case True
  with assms show ?thesis
    by (auto simp: push_locked_def try_push_locked_fail errno_defs split: if_splits)
next
  case False
  with assms(1) have "\<not> bq_closed q" "bq_count q < bq_capacity q"
    by (auto simp: bq_wf_def)
  from try_push_locked_ok [OF assms(1) this, of x] assms(2) False show ?thesis
    by (auto simp: push_locked_def wakes_def)
qed

lemma pop_locked_Return:
  assumes "bq_wf q" "pop_locked mv q = Return (r, Some x, q', ns)"
  shows "bq_wf q' \<and> bq_contents q = x # bq_contents q' \<and> bq_closed q' = bq_closed q \<and>
    (bq_count q = bq_capacity q \<longrightarrow> wakes Can_push ns) \<and> bq_count q \<noteq> 0 \<and> r = 0 \<and>
    bq_capacity q' = bq_capacity q"
proof (cases "bq_contents q")
  case Nil
  with assms show ?thesis by (simp add: pop_locked_def split: if_splits)
next
  case (Cons y ys)
  then have "bq_count q \<noteq> 0" by (metis bq_contents_Nil list.distinct(1))
  with try_pop_locked_ok [OF assms(1) Cons, of mv] assms(2) Cons show ?thesis
    by (auto simp: pop_locked_def wakes_def)
qed

lemma deliver_simps [simp]:
  "sp_queue (deliver ns s) = sp_queue s" "sp_sent (deliver ns s) = sp_sent s"
  "sp_received (deliver ns s) = sp_received s" "sp_todo (deliver ns s) = sp_todo s"
  "sp_prod_blocked (deliver ns s) \<longleftrightarrow> sp_prod_blocked s \<and> \<not> wakes Can_push ns"
  "sp_cons_blocked (deliver ns s) \<longleftrightarrow> sp_cons_blocked s \<and> \<not> wakes Can_pop ns"
  by (simp_all add: deliver_def)

lemma spsc_step_inv [wf_intros]: "spsc_step mv s s' \<Longrightarrow> spsc_inv items n s \<Longrightarrow> spsc_inv items n s'"
proof (induction rule: spsc_step.induct)
  case (push_ok s x xs q ns)
  then show ?case
    using push_locked_Return [of "sp_queue s" x 0 q ns] by (auto simp: spsc_inv_def)
next
  case (push_error s x xs r q ns)
  then show ?case
    using push_locked_Return [of "sp_queue s" x r q ns] by (auto simp: spsc_inv_def)
next
  case (push_wait s x xs cv)
  then show ?case by (auto simp: spsc_inv_def push_locked_def split: if_splits)
next
  case (pop_ok s r x q ns)
  then show ?case
    using pop_locked_Return [of "sp_queue s" mv r x q ns] by (auto simp: spsc_inv_def)
next
  case (pop_wait s cv)
  then show ?case by (auto simp: spsc_inv_def pop_locked_def split: if_splits)
next
  case (close s q ns)
  then have "q = fst (close_locked (sp_queue s))" "ns = snd (close_locked (sp_queue s))"
    by simp_all
  with close.prems show ?case
    using close_locked_wakes [of "sp_queue s"] by (simp add: spsc_inv_def wakes_def)
qed (auto simp: spsc_inv_def)

lemma spsc_init_inv: "0 < n \<Longrightarrow> spsc_inv items n (spsc_init d n items)"
  by (simp add: spsc_inv_def spsc_init_def new_buffer_queue_wf new_buffer_queue_contents)
    (simp add: new_buffer_queue_def)

lemma spsc_reachable_inv:
  assumes "spsc_reachable mv (spsc_init d n items) s" "0 < n"
  shows "spsc_inv items n s"
  using assms(1) unfolding spsc_reachable_def
  by (induction rule: rtranclp_induct) (auto intro: spsc_step_inv spsc_init_inv assms(2))

section \<open>Properties\<close>

text \<open>
  C1. Take a queue of positive capacity shared by one pushing and one popping thread,
  closed at any moment by any thread, with spurious wake-ups. In every reachable state
  the items popped so far followed by the queued ones are exactly the items pushed, in
  order; as long as the queue is open no item offered has been lost; the number of queued
  items never exceeds the capacity; a thread sleeps only while the queue is open and full
  (the pusher) or open and empty (the popper), so no wake-up is lost and the two threads
  are never asleep together.
\<close>

theorem spsc_no_lost_wakeup:
  assumes "0 < n" and "spsc_reachable mv (spsc_init d n items) s"
  shows "sp_received s @ bq_contents (sp_queue s) = sp_sent s \<and>
    (\<not> bq_closed (sp_queue s) \<longrightarrow> sp_sent s @ sp_todo s = items) \<and>
    length (bq_contents (sp_queue s)) \<le> n \<and>
    (sp_prod_blocked s \<longrightarrow> \<not> bq_closed (sp_queue s) \<and> length (bq_contents (sp_queue s)) = n) \<and>
    (sp_cons_blocked s \<longrightarrow> \<not> bq_closed (sp_queue s) \<and> bq_contents (sp_queue s) = []) \<and>
    \<not> (sp_prod_blocked s \<and> sp_cons_blocked s)"
  using spsc_reachable_inv [OF assms(2) assms(1)] assms(1)
  by (auto simp: spsc_inv_def bq_wf_def)

theorem spsc_no_lost_wakeup_witness:
  "sp_received (spsc_init (0::nat) 2 [7, 8] \<lparr>sp_cons_blocked := True\<rparr>) = [] \<and>
   \<not> sp_prod_blocked (spsc_init (0::nat) 2 [7, 8] \<lparr>sp_cons_blocked := True\<rparr>)"
proof -
  have "spsc_step id (spsc_init (0::nat) 2 [7, 8])
      (spsc_init 0 2 [7, 8] \<lparr>sp_cons_blocked := True\<rparr>)"
    by (rule spsc_step.pop_wait [where cv = Can_pop])
      (simp_all add: spsc_init_def pop_locked_def new_buffer_queue_def)
  then have "spsc_reachable id (spsc_init (0::nat) 2 [7, 8])
      (spsc_init 0 2 [7, 8] \<lparr>sp_cons_blocked := True\<rparr>)"
    by (simp add: spsc_reachable_def)
  from spsc_no_lost_wakeup [OF _ this] show ?thesis
    by (simp add: spsc_init_def)
qed

text \<open>
  C2. A well-formed queue is first-in first-out whatever the position of its window in the
  ring: as many pushes as there is room all succeed, and popping then returns the old
  contents followed by the pushed items and leaves a queue from which a further pop
  fails.
\<close>

theorem buffer_queue_fifo:
  assumes "bq_wf q" and "length xs \<le> bq_room q"
  shows "\<exists>q1 q2. push_all bq_push xs q = Some q1 \<and>
    pop_n (bq_pop mv) (bq_count q + length xs) q1 = Some (bq_contents q @ xs, q2) \<and>
    bq_contents q2 = [] \<and> bq_pop mv q2 = None"
  using bq.fifo [OF assms, of mv] by simp

theorem buffer_queue_fifo_witness:
  "\<exists>q1 q2. push_all bq_push [5, 6] \<lparr>bq_capacity = 3, bq_pos = 2, bq_count = 1,
      bq_closed = False, bq_buffers = [0, 0, 4 :: nat]\<rparr> = Some q1 \<and>
    pop_n (bq_pop id) (Suc (Suc (Suc 0))) q1 = Some ([4, 5, 6], q2) \<and> bq_contents q2 = [] \<and> bq_pop id q2 = None"
  using buffer_queue_fifo [of "\<lparr>bq_capacity = 3, bq_pos = 2, bq_count = 1,
      bq_closed = False, bq_buffers = [0, 0, 4 :: nat]\<rparr>" "[5, 6]" id]
  by (simp add: bq_wf_def bq_room_def bq_contents_def window_def
      del: push_all.simps pop_n.simps)

text \<open>
  C3. \<open>MessageChannel\<close> is first-in first-out: as many sends as there is room all proceed
  without reaching the wait, and the receives that follow deliver the queued and then the
  sent messages, in order, without reaching the wait either.
\<close>

theorem message_channel_fifo:
  assumes "mc_wf c" and "length xs \<le> mc_room c"
  shows "\<exists>c1 c2. push_all channel_send xs c = Some c1 \<and>
    pop_n channel_receive (mc_count c + length xs) c1 = Some (mc_contents c @ xs, c2) \<and>
    mc_contents c2 = [] \<and> channel_receive c2 = None"
  using mc.fifo [OF assms] by simp

theorem message_channel_fifo_witness:
  "\<exists>c1 c2. push_all channel_send [''b''] \<lparr>mc_pos = 1, mc_count = 1, mc_capacity = 2,
      mc_items = [[], ''a'']\<rparr> = Some c1 \<and>
    pop_n channel_receive (Suc (Suc 0)) c1 = Some ([''a'', ''b''], c2) \<and> mc_contents c2 = [] \<and>
    channel_receive c2 = None"
  using message_channel_fifo [of "\<lparr>mc_pos = 1, mc_count = 1, mc_capacity = 2,
      mc_items = [[], ''a'']\<rparr>" "[''b'']"]
  by (simp add: mc_wf_def mc_room_def mc_contents_def window_def
      del: push_all.simps pop_n.simps)

end
