(* ===== verification/Text_Utils.thy ===== *)
theory Text_Utils
  imports Anbox_Prelude
begin

text \<open>
  The helpers of \<open>utils.cpp\<close> and the \<open>EnvironmentFile\<close> reader
  (\<open>utils/environment_file.cpp\<close>). The file system, the process environment, the mount
  table and Boost's \<open>split\<close> and \<open>format\<close> are parameters; the descriptor written to is
  driven by the kernel's answers (theory \<open>Anbox_Prelude\<close>).
\<close>

section \<open>Files, descriptors and the environment\<close>

definition collect_arguments :: "string list \<Rightarrow> string list" where
  "collect_arguments argv = drop 1 argv"

definition read_file_if_exists_or_throw ::
  "(string \<Rightarrow> bool) \<Rightarrow> (string \<Rightarrow> string) \<Rightarrow> string \<Rightarrow> string res" where
  "read_file_if_exists_or_throw is_regular contents file_path =
     (if \<not> is_regular file_path then Inl (Runtime_error ''File does not exist'')
      else Inr (contents file_path))"

text \<open>\<open>write_to_fd\<close>: the result, the errno it leaves, the bytes accepted, the answers left.\<close>

fun write_to_fd ::
  "io_answer list \<Rightarrow> int \<Rightarrow> bytes \<Rightarrow> (int \<times> int \<times> bytes \<times> io_answer list) option" where
  "write_to_fd as errno [] = Some (0, errno, [], as)"
| "write_to_fd [] errno (b # bs) = None"
| "write_to_fd (Io_err e # as) errno (b # bs) =
     (if e = EINTR then write_to_fd as e (b # bs) else Some (- 1, e, [], as))"
| "write_to_fd (Io_ok n # as) errno (b # bs) =
     (let content = b # bs; res = min n (length content)
      in if res = 0 then Some (- 1, ENOSPC, [], as)
         else (case write_to_fd as errno (drop res content) of
                 None \<Rightarrow> None
               | Some (r, e, w, as') \<Rightarrow> Some (r, e, take res content @ w, as')))"

text \<open>
  \<open>write_file_at\<close>: \<open>opened\<close> is what \<open>openat\<close> answers (\<open>-1\<close> on failure). The result
  carries the descriptors closed on the way, so that a leak would be visible.
\<close>

definition write_file_at ::
  "int \<Rightarrow> io_answer list \<Rightarrow> int \<Rightarrow> bytes option \<Rightarrow> (int \<times> int \<times> bytes \<times> int list) option" where
  "write_file_at opened as errno content =
     (if opened = - 1 then Some (- 1, errno, [], [])
      else (case content of
              None \<Rightarrow> Some (0, errno, [], [opened])
            | Some c \<Rightarrow>
                (case write_to_fd as errno c of
                   None \<Rightarrow> None
                 | Some (res, errsv, w, as') \<Rightarrow> Some (res, errsv, w, [opened]))))"

definition string_starts_with :: "string \<Rightarrow> string \<Rightarrow> bool" where
  "string_starts_with text prefix \<longleftrightarrow> take (length prefix) text = prefix"

text \<open>
  \<open>substr(1, length - 2)\<close> with the unsigned length: for a text that is one quote the count
  wraps to the largest \<open>size_t\<close> and the result is empty.
\<close>

definition strip_surrounding_quotes :: "string \<Rightarrow> string" where
  "strip_surrounding_quotes text =
     (if text \<noteq> [] \<and> text ! 0 = CHR 0x22 \<and> text ! (length text - 1) = CHR 0x22
      then take (unat (of_nat (length text) - 2 :: u64)) (drop 1 text)
      else text)"

definition get_env_value :: "(string \<rightharpoonup> string) \<Rightarrow> string \<Rightarrow> string \<Rightarrow> string" where
  "get_env_value getenv name default_value =
     (case getenv name of None \<Rightarrow> default_value | Some value \<Rightarrow> value)"

definition is_env_set :: "(string \<rightharpoonup> string) \<Rightarrow> string \<Rightarrow> bool" where
  "is_env_set getenv name \<longleftrightarrow> getenv name \<noteq> None"

text \<open>\<open>ensure_paths\<close> over the state \<open>'f\<close> of the file system.\<close>

fun ensure_paths ::
  "('f \<Rightarrow> string \<Rightarrow> bool) \<Rightarrow> (string \<Rightarrow> 'f \<Rightarrow> 'f) \<Rightarrow> string list \<Rightarrow> 'f \<Rightarrow> 'f" where
  "ensure_paths is_directory create_directories [] fs = fs"
| "ensure_paths is_directory create_directories (path # paths) fs =
     ensure_paths is_directory create_directories paths
       (if is_directory fs path then fs else create_directories path fs)"

text \<open>
  \<open>prefix_dir_from_env\<close> keeps the variable's value in a function-local static, set by the
  first call: the state is that static, and later calls ignore their \<open>env_var\<close>.
\<close>

definition prefix_dir_from_env ::
  "(string \<rightharpoonup> string) \<Rightarrow> string option \<Rightarrow> string \<Rightarrow> string \<Rightarrow> string \<times> string option" where
  "prefix_dir_from_env getenv snap_data_path path env_var =
     (let v = (case snap_data_path of None \<Rightarrow> get_env_value getenv env_var [] | Some v \<Rightarrow> v)
      in (if v \<noteq> [] then v @ path else path, Some v))"

text \<open>\<open>is_mounted\<close> over the entries of the mount table (\<open>None\<close>: it cannot be opened).\<close>

definition is_mounted :: "string option list option \<Rightarrow> string \<Rightarrow> bool" where
  "is_mounted mtab path =
     (case mtab of None \<Rightarrow> False | Some fsnames \<Rightarrow> Some path \<in> set fsnames)"

section \<open>find\_program\_on\_path\<close>

text \<open>
  The loop runs while a further colon is found from \<open>start_pos\<close> on, that is in the text
  not yet consumed; \<open>is_exec\<close> is the \<open>stat\<close> test of the candidate.
\<close>

fun find_loop :: "(string \<Rightarrow> bool) \<Rightarrow> string \<Rightarrow> string \<Rightarrow> string \<Rightarrow> string" where
  "find_loop is_exec name segment [] = []"
| "find_loop is_exec name segment (c # rest) =
     (if c = CHR '':''
      then (let current_path = segment @ ''/'' @ name
            in if is_exec current_path then current_path else find_loop is_exec name [] rest)
      else find_loop is_exec name (segment @ [c]) rest)"

definition find_program_on_path ::
  "(string \<rightharpoonup> string) \<Rightarrow> (string \<Rightarrow> bool) \<Rightarrow> string \<Rightarrow> string res" where
  "find_program_on_path getenv is_exec name =
     (case getenv ''PATH'' of
        None \<Rightarrow> Inl (Logic_error ''null string'')
      | Some path \<Rightarrow> Inr (find_loop is_exec name [] path))"

section \<open>EnvironmentFile\<close>

text \<open>The lines \<open>std::getline\<close> yields: a final newline does not start another line.\<close>

fun getlines_from :: "string \<Rightarrow> string \<Rightarrow> string list" where
  "getlines_from acc [] = (if acc = [] then [] else [acc])"
| "getlines_from acc (c # cs) =
     (if c = CHR 0x0A then acc # getlines_from [] cs else getlines_from (acc @ [c]) cs)"

definition getlines :: "string \<Rightarrow> string list" where
  "getlines text = getlines_from [] text"

fun environment_file_lines ::
  "(string \<Rightarrow> char \<Rightarrow> string list) \<Rightarrow> string list \<Rightarrow> (string, string) omap \<Rightarrow>
     (string, string) omap" where
  "environment_file_lines split [] data = data"
| "environment_file_lines split (line # rest) data =
     (case split line CHR ''='' of
        [key, val] \<Rightarrow>
          environment_file_lines split rest (om_put key (strip_surrounding_quotes val) data)
      | _ \<Rightarrow> environment_file_lines split rest data)"

definition environment_file ::
  "(string \<Rightarrow> char \<Rightarrow> string list) \<Rightarrow> string \<Rightarrow> (string, string) omap" where
  "environment_file split contents = environment_file_lines split (getlines contents) []"

definition environment_file_value :: "(string, string) omap \<Rightarrow> string \<Rightarrow> string \<Rightarrow> string" where
  "environment_file_value data key default_value =
     (case map_of data key of None \<Rightarrow> default_value | Some v \<Rightarrow> v)"

section \<open>Lemmas\<close>

lemma write_to_fd_Cons_err:
  "bs \<noteq> [] \<Longrightarrow> write_to_fd (Io_err e # as) errno bs =
    (if e = EINTR then write_to_fd as e bs else Some (- 1, e, [], as))"
  by (cases bs) auto

lemma write_to_fd_Cons_ok:
  "bs \<noteq> [] \<Longrightarrow> write_to_fd (Io_ok n # as) errno bs =
    (if n = 0 then Some (- 1, ENOSPC, [], as)
     else map_option (\<lambda>(r, e, w, as'). (r, e, take n bs @ w, as'))
            (write_to_fd as errno (drop n bs)))"
  by (cases bs)
    (auto simp: Let_def min_def split: option.splits)

lemma write_to_fd_result:
  "write_to_fd as errno bs = Some (r, e, w, as') \<Longrightarrow>
    (\<exists>us. bs = w @ us \<and> (r = 0 \<longleftrightarrow> us = [])) \<and> (r = 0 \<or> r = - 1 \<and> e \<noteq> EINTR)"
proof (induction as errno bs arbitrary: r e w as' rule: write_to_fd.induct)
  case (4 n as errno b bs)
  then show ?case
  proof (cases "n = 0")
    case True
    with 4 show ?thesis by (auto simp: errno_defs)
  next
    case False
    with "4.prems" obtain w' where w': "write_to_fd as errno (drop n (b # bs)) = Some (r, e, w', as')"
        "w = take n (b # bs) @ w'"
      by (auto simp: write_to_fd_Cons_ok simp del: write_to_fd.simps drop.simps drop_Cons take_Cons)
    have m: "drop (min n (length (b # bs))) (b # bs) = drop n (b # bs)"
        "min n (length (b # bs)) \<noteq> 0"
      using False by (auto simp: min_def)
    from "4.IH" [OF refl refl m(2), unfolded m(1), OF w'(1)] obtain us where
      "drop n (b # bs) = w' @ us" "r = 0 \<longleftrightarrow> us = []" "r = 0 \<or> r = - 1 \<and> e \<noteq> EINTR"
      by blast
    moreover have "b # bs = take n (b # bs) @ drop n (b # bs)" by (rule append_take_drop_id [symmetric])
    ultimately show ?thesis using w'(2) by (metis append_assoc)
  qed
qed (auto split: if_splits)

lemma write_to_fd_completes:
  "\<forall>a \<in> set as. (\<exists>n > 0. a = Io_ok n) \<or> a = Io_err EINTR \<Longrightarrow> length bs \<le> io_progress as \<Longrightarrow>
    \<exists>e as'. write_to_fd as errno bs = Some (0, e, bs, as')"
proof (induction as arbitrary: errno bs)
  case Nil
  then show ?case by simp
next
  case (Cons a as)
  show ?case
  proof (cases "bs = []")
    case True
    then show ?thesis by simp
  next
    case False
    show ?thesis
    proof (cases a)
      case (Io_ok n)
      with Cons.prems have "length (drop n bs) \<le> io_progress as" "n \<noteq> 0" by auto
      with Cons.IH [of "drop n bs" errno] Cons.prems(1) False Io_ok show ?thesis
        by (auto simp: write_to_fd_Cons_ok)
    next
      case (Io_err e)
      with Cons False show ?thesis by (auto simp: write_to_fd_Cons_err)
    qed
  qed
qed

text \<open>The entries of a search path, as a shell reads it: the text between the colons.\<close>

fun path_entries_from :: "string \<Rightarrow> string \<Rightarrow> string list" where
  "path_entries_from acc [] = [acc]"
| "path_entries_from acc (c # cs) =
     (if c = CHR '':'' then acc # path_entries_from [] cs else path_entries_from (acc @ [c]) cs)"

definition path_entries :: "string \<Rightarrow> string list" where
  "path_entries path = path_entries_from [] path"

lemma path_entries_from_not_Nil [simp]: "path_entries_from acc cs \<noteq> []"
  by (induction acc cs rule: path_entries_from.induct) auto

lemma find_loop_entries:
  "find_loop is_exec name acc cs =
    (case find is_exec (map (\<lambda>d. d @ ''/'' @ name) (butlast (path_entries_from acc cs))) of
       None \<Rightarrow> [] | Some p \<Rightarrow> p)"
  by (induction acc cs rule: path_entries_from.induct) (simp_all add: Let_def)

lemma environment_file_lines_wf [wf_intros]:
  "om_wf data \<Longrightarrow> om_wf (environment_file_lines split lines data)"
  by (induction split lines data rule: environment_file_lines.induct)
    (auto split: list.splits)

text \<open>What a line says about a key, and what the last line that speaks about it says.\<close>

definition line_binding :: "(string \<Rightarrow> char \<Rightarrow> string list) \<Rightarrow> string \<Rightarrow> (string \<times> string) option" where
  "line_binding split line =
     (case split line CHR ''='' of [key, val] \<Rightarrow> Some (key, strip_surrounding_quotes val) | _ \<Rightarrow> None)"

lemma environment_file_lines_lookup:
  "map_of (environment_file_lines split lines data) key =
    (case map_of (rev (List.map_filter (line_binding split) lines)) key of
       None \<Rightarrow> map_of data key | Some v \<Rightarrow> Some v)"
  by (induction split lines data rule: environment_file_lines.induct)
    (auto simp: List.map_filter_simps line_binding_def map_add_def split: list.splits option.splits)

section \<open>Properties\<close>

text \<open>
  Whatever the kernel answers, a \<open>write_to_fd\<close> that returns has handed the kernel a
  prefix of the content: all of it exactly when it returns 0, and otherwise it returns
  -1 with an errno other than EINTR. It does return, with 0 and everything written, when the
  kernel's answers are interruptions and positive transfers that add up to the content,
  however short each of them is.
\<close>

theorem write_to_fd_correct:
  "(write_to_fd as errno bs = Some (r, e, w, as') \<longrightarrow>
      (\<exists>us. bs = w @ us \<and> (r = 0 \<longleftrightarrow> us = [])) \<and> (r = 0 \<or> r = - 1 \<and> e \<noteq> EINTR)) \<and>
   ((\<forall>a \<in> set as. (\<exists>n > 0. a = Io_ok n) \<or> a = Io_err EINTR) \<and> length bs \<le> io_progress as \<longrightarrow>
      (\<exists>e as'. write_to_fd as errno bs = Some (0, e, bs, as')))"
  using write_to_fd_result [of as errno bs r e w as'] write_to_fd_completes [of as bs errno] by blast

theorem write_to_fd_correct_witness:
  "\<exists>e as'. write_to_fd [Io_ok 2, Io_err EINTR, Io_ok 5] 0 [1, 2, 3, 4] = Some (0, e, [1, 2, 3, 4], as')"
  using write_to_fd_correct [of "[Io_ok 2, Io_err EINTR, Io_ok 5]" 0 "[1, 2, 3, 4]"]
  by (simp del: write_to_fd.simps)

text \<open>
  \<open>find_program_on_path\<close> returns the candidate in the first directory of PATH that holds
  an executable of that name, but it never looks into the last directory: the search runs over
  all entries of PATH except the last one, and the result is empty when none of those
  matches. Without PATH it throws.
\<close>

theorem find_program_skips_last_entry:
  "find_program_on_path getenv is_exec name =
     (case getenv ''PATH'' of
        None \<Rightarrow> Inl (Logic_error ''null string'')
      | Some path \<Rightarrow>
          Inr (case find is_exec (map (\<lambda>d. d @ ''/'' @ name) (butlast (path_entries path))) of
                 None \<Rightarrow> [] | Some p \<Rightarrow> p))"
  by (simp add: find_program_on_path_def find_loop_entries path_entries_def split: option.splits)

text \<open>
  A key looked up in an environment file has the value of the last line that splits into
  exactly that key and a value, with one pair of surrounding quotes removed, and the
  default when there is no such line; the map stays ordered without duplicate keys.
\<close>

theorem environment_file_lookup:
  "om_wf (environment_file split contents) \<and>
   environment_file_value (environment_file split contents) key dflt =
     (case map_of (rev (List.map_filter (line_binding split) (getlines contents))) key of
        None \<Rightarrow> dflt | Some v \<Rightarrow> v)"
  by (simp add: environment_file_def environment_file_value_def environment_file_lines_lookup
      environment_file_lines_wf split: option.splits)

end
