(* ===== verification/Binary_Config.thy ===== *)
theory Binary_Config
  imports Anbox_Prelude
begin

unbundle bit_operations_syntax

text \<open>
  \<open>common::BinaryWriter\<close> (\<open>common/binary_writer.cpp\<close>), which fills a preallocated byte range,
  and its client \<open>android::IpConfigBuilder\<close> (\<open>android/ip_config_builder.cpp\<close>), which writes
  the static network configuration of the container. Every write operation is shown to meet
  one contract, appending a fixed byte sequence or throwing when it does not fit, and the
  contract composes; a reader of the format then gives the round trip.
\<close>

section \<open>BinaryWriter\<close>

datatype order = Big | Little

record binary_writer =
  bw_buffer :: bytes   \<comment> \<open>the range \<open>[begin_, end_)\<close>\<close>
  bw_current :: nat    \<comment> \<open>\<open>current_ - begin_\<close>\<close>
  bw_byte_order :: order

definition new_binary_writer :: "bool \<Rightarrow> bytes \<Rightarrow> binary_writer" where
  "new_binary_writer is_little_endian mem =
     \<lparr>bw_buffer = mem, bw_current = 0,
      bw_byte_order = (if is_little_endian then Little else Big)\<rparr>"

definition set_byte_order :: "order \<Rightarrow> binary_writer \<Rightarrow> binary_writer" where
  "set_byte_order ord w = w\<lparr>bw_byte_order := ord\<rparr>"

definition bytes16 :: "order \<Rightarrow> u16 \<Rightarrow> bytes" where
  "bytes16 ord v =
     (let bs = [ucast (drop_bit 8 v), ucast v] in case ord of Big \<Rightarrow> bs | Little \<Rightarrow> rev bs)"

definition bytes32 :: "order \<Rightarrow> u32 \<Rightarrow> bytes" where
  "bytes32 ord v =
     (let bs = [ucast (drop_bit 24 v), ucast (drop_bit 16 v), ucast (drop_bit 8 v), ucast v]
      in case ord of Big \<Rightarrow> bs | Little \<Rightarrow> rev bs)"

text \<open>The \<open>memcpy\<close> to \<open>current_\<close> and the advance that follows it.\<close>

definition bw_copy :: "bytes \<Rightarrow> binary_writer \<Rightarrow> binary_writer" where
  "bw_copy bs w =
     w\<lparr>bw_buffer := take (bw_current w) (bw_buffer w) @ bs @
          drop (bw_current w + length bs) (bw_buffer w),
       bw_current := bw_current w + length bs\<rparr>"

definition exhausted :: "binary_writer res" where
  "exhausted = Inl (Out_of_range ''Write buffer exhausted'')"

definition write_uint16 :: "u16 \<Rightarrow> binary_writer \<Rightarrow> binary_writer res" where
  "write_uint16 v w =
     (if bw_current w + 2 > length (bw_buffer w) then exhausted
      else Inr (bw_copy (bytes16 (bw_byte_order w) v) w))"

definition write_uint32 :: "u32 \<Rightarrow> binary_writer \<Rightarrow> binary_writer res" where
  "write_uint32 v w =
     (if bw_current w + 4 > length (bw_buffer w) then exhausted
      else Inr (bw_copy (bytes32 (bw_byte_order w) v) w))"

definition write_string :: "bytes \<Rightarrow> binary_writer \<Rightarrow> binary_writer res" where
  "write_string s w =
     (if bw_current w + length s > length (bw_buffer w) then exhausted
      else Inr (bw_copy s w))"

text \<open>The size is narrowed to 16 bits by the call of \<open>write_uint16\<close>.\<close>

definition write_string_with_size :: "string \<Rightarrow> binary_writer \<Rightarrow> binary_writer res" where
  "write_string_with_size s w =
     rbind (write_uint16 (of_nat (length s)) w) (write_string (bytes_of s))"

definition bytes_written :: "binary_writer \<Rightarrow> nat" where
  "bytes_written w = bw_current w"

section \<open>IpConfigBuilder\<close>

datatype version = Version1 | Version2

datatype assignment = Static | DHCP

record ip_config_builder =
  ip_version :: version
  ip_assignment :: assignment
  ip_link_address :: string
  ip_link_prefix_length :: u32
  ip_gateway :: string
  ip_dns_servers :: "string list"
  ip_id :: u32

definition version_value :: "version \<Rightarrow> u32" where
  "version_value v = (case v of Version1 \<Rightarrow> 1 | Version2 \<Rightarrow> 2)"

definition assignment_to_string :: "assignment \<Rightarrow> string" where
  "assignment_to_string a = (case a of Static \<Rightarrow> ''STATIC'' | DHCP \<Rightarrow> ''DHCP'')"

fun write_servers :: "string list \<Rightarrow> binary_writer \<Rightarrow> binary_writer res" where
  "write_servers [] w = Inr w"
| "write_servers (server # servers) w =
     rbind (write_string_with_size server w) (write_servers servers)"

definition ip_config_write :: "ip_config_builder \<Rightarrow> binary_writer \<Rightarrow> (nat \<times> binary_writer) res" where
  "ip_config_write c w0 =
     rbind (write_uint32 (version_value (ip_version c)) (set_byte_order Big w0)) (\<lambda>w.
     rbind (write_string_with_size ''ipAssignment'' w) (\<lambda>w.
     rbind (write_string_with_size (assignment_to_string (ip_assignment c)) w) (\<lambda>w.
     rbind (write_string_with_size ''linkAddress'' w) (\<lambda>w.
     rbind (write_string_with_size (ip_link_address c) w) (\<lambda>w.
     rbind (write_uint32 (ip_link_prefix_length c) w) (\<lambda>w.
     rbind (write_string_with_size ''gateway'' w) (\<lambda>w.
     rbind (write_uint32 0 w) (\<lambda>w.
     rbind (write_uint32 1 w) (\<lambda>w.
     rbind (write_string_with_size (ip_gateway c) w) (\<lambda>w.
     rbind (write_string_with_size ''dns'' w) (\<lambda>w.
     rbind (write_servers (ip_dns_servers c) w) (\<lambda>w.
     rbind (write_string_with_size ''id'' w) (\<lambda>w.
     rbind (write_uint32 (ip_id c) w) (\<lambda>w.
     rbind (write_string_with_size ''eos'' w) (\<lambda>w.
     Inr (bytes_written w, w))))))))))))))))"

definition set_version :: "version \<Rightarrow> ip_config_builder \<Rightarrow> ip_config_builder" where
  "set_version v c = c\<lparr>ip_version := v\<rparr>"

definition set_assignment :: "assignment \<Rightarrow> ip_config_builder \<Rightarrow> ip_config_builder" where
  "set_assignment a c = c\<lparr>ip_assignment := a\<rparr>"

definition set_link_address :: "string \<Rightarrow> u32 \<Rightarrow> ip_config_builder \<Rightarrow> ip_config_builder" where
  "set_link_address address prefix_length c =
     c\<lparr>ip_link_address := address, ip_link_prefix_length := prefix_length\<rparr>"

definition set_gateway :: "string \<Rightarrow> ip_config_builder \<Rightarrow> ip_config_builder" where
  "set_gateway gateway c = c\<lparr>ip_gateway := gateway\<rparr>"

definition set_dns_servers :: "string list \<Rightarrow> ip_config_builder \<Rightarrow> ip_config_builder" where
  "set_dns_servers servers c = c\<lparr>ip_dns_servers := servers\<rparr>"

definition set_id :: "u32 \<Rightarrow> ip_config_builder \<Rightarrow> ip_config_builder" where
  "set_id i c = c\<lparr>ip_id := i\<rparr>"

section \<open>The contract of a write\<close>

text \<open>
  \<open>appends ord f bs\<close>: on a writer in byte order \<open>ord\<close> the operation \<open>f\<close> writes \<open>bs\<close> at the
  current position when it fits into the range and otherwise throws.
\<close>

definition bw_wf :: "binary_writer \<Rightarrow> bool" where
  "bw_wf w \<longleftrightarrow> bw_current w \<le> length (bw_buffer w)"

definition bw_space :: "binary_writer \<Rightarrow> nat" where
  "bw_space w = length (bw_buffer w) - bw_current w"

definition appends :: "order \<Rightarrow> (binary_writer \<Rightarrow> binary_writer res) \<Rightarrow> bytes \<Rightarrow> bool" where
  "appends ord f bs \<longleftrightarrow>
     (\<forall>w. bw_wf w \<longrightarrow> bw_byte_order w = ord \<longrightarrow>
        f w = (if length bs \<le> bw_space w then Inr (bw_copy bs w) else exhausted))"

lemma bw_copy_simps [simp]:
  "bw_current (bw_copy bs w) = bw_current w + length bs"
  "bw_byte_order (bw_copy bs w) = bw_byte_order w"
  by (simp_all add: bw_copy_def)

lemma bw_copy_Nil [simp]: "bw_wf w \<Longrightarrow> bw_copy [] w = w"
  by (simp add: bw_copy_def)

lemma bw_copy_wf [simp, wf_intros]:
  "bw_wf w \<Longrightarrow> length bs \<le> bw_space w \<Longrightarrow> bw_wf (bw_copy bs w)"
  by (simp add: bw_copy_def bw_wf_def bw_space_def)

lemma bw_space_copy [simp]:
  "bw_wf w \<Longrightarrow> length bs \<le> bw_space w \<Longrightarrow> bw_space (bw_copy bs w) = bw_space w - length bs"
  by (simp add: bw_copy_def bw_wf_def bw_space_def min_def)

lemma bw_copy_copy:
  "bw_wf w \<Longrightarrow> length as \<le> bw_space w \<Longrightarrow> bw_copy bs (bw_copy as w) = bw_copy (as @ bs) w"
  by (simp add: bw_copy_def bw_wf_def bw_space_def min_def ac_simps)

lemma appends_Nil: "appends ord Inr []"
  by (simp add: appends_def)

lemma appends_bind:
  assumes "appends ord f as" "appends ord g bs"
  shows "appends ord (\<lambda>w. rbind (f w) g) (as @ bs)"
  unfolding appends_def
proof (intro allI impI)
  fix w
  assume w: "bw_wf w" "bw_byte_order w = ord"
  show "rbind (f w) g =
      (if length (as @ bs) \<le> bw_space w then Inr (bw_copy (as @ bs) w) else exhausted)"
  proof (cases "length as \<le> bw_space w")
    case True
    with assms w have "rbind (f w) g = g (bw_copy as w)"
      by (simp add: appends_def)
    also have "\<dots> = (if length bs \<le> bw_space w - length as
        then Inr (bw_copy bs (bw_copy as w)) else exhausted)"
      using assms(2) w True by (simp add: appends_def)
    also have "(length bs \<le> bw_space w - length as) = (length (as @ bs) \<le> bw_space w)"
      using True by auto
    also have "bw_copy bs (bw_copy as w) = bw_copy (as @ bs) w"
      using True w by (intro bw_copy_copy)
    finally show ?thesis .
  next
    case False
    with assms w show ?thesis by (simp add: appends_def exhausted_def)
  qed
qed

lemma appends_uint16: "appends ord (write_uint16 v) (bytes16 ord v)"
  by (auto simp: appends_def write_uint16_def bytes16_def bw_wf_def bw_space_def Let_def
      split: order.splits)

lemma appends_uint32: "appends ord (write_uint32 v) (bytes32 ord v)"
  by (auto simp: appends_def write_uint32_def bytes32_def bw_wf_def bw_space_def Let_def
      split: order.splits)

lemma appends_string: "appends ord (write_string s) s"
  by (auto simp: appends_def write_string_def bw_wf_def bw_space_def)

definition enc_string :: "order \<Rightarrow> string \<Rightarrow> bytes" where
  "enc_string ord s = bytes16 ord (of_nat (length s)) @ bytes_of s"

lemma appends_string_with_size: "appends ord (write_string_with_size s) (enc_string ord s)"
proof -
  have "write_string_with_size s =
      (\<lambda>w. rbind (write_uint16 (of_nat (length s)) w) (write_string (bytes_of s)))"
    by (rule ext) (simp add: write_string_with_size_def)
  then show ?thesis
    unfolding enc_string_def by (simp only: appends_bind appends_uint16 appends_string)
qed

definition enc_servers :: "string list \<Rightarrow> bytes" where
  "enc_servers ss = concat (map (enc_string Big) ss)"

lemma appends_servers: "appends Big (write_servers ss) (enc_servers ss)"
proof (induction ss)
  case Nil
  have "write_servers [] = Inr" by (rule ext) simp
  then show ?case by (simp add: enc_servers_def appends_Nil)
next
  case (Cons s ss)
  have "write_servers (s # ss) = (\<lambda>w. rbind (write_string_with_size s w) (write_servers ss))"
    by (rule ext) simp
  with appends_bind [OF appends_string_with_size [of Big s] Cons] show ?case
    by (simp add: enc_servers_def)
qed

lemmas appends_ops =
  appends_uint32 appends_string_with_size appends_servers

text \<open>The layout of the file, field after field.\<close>

definition enc_ip_config :: "ip_config_builder \<Rightarrow> bytes" where
  "enc_ip_config c =
     bytes32 Big (version_value (ip_version c)) @
     enc_string Big ''ipAssignment'' @ enc_string Big (assignment_to_string (ip_assignment c)) @
     enc_string Big ''linkAddress'' @ enc_string Big (ip_link_address c) @
     bytes32 Big (ip_link_prefix_length c) @
     enc_string Big ''gateway'' @ bytes32 Big 0 @ bytes32 Big 1 @ enc_string Big (ip_gateway c) @
     enc_string Big ''dns'' @ enc_servers (ip_dns_servers c) @
     enc_string Big ''id'' @ bytes32 Big (ip_id c) @ enc_string Big ''eos''"

lemma ip_config_body:
  "\<exists>body. appends Big body (enc_ip_config c) \<and>
     (\<forall>w. ip_config_write c w = rbind (body (set_byte_order Big w)) (\<lambda>w. Inr (bytes_written w, w)))"
proof (intro exI conjI allI)
  let ?body = "\<lambda>w. rbind (write_uint32 (version_value (ip_version c)) w) (\<lambda>w.
     rbind (write_string_with_size ''ipAssignment'' w) (\<lambda>w.
     rbind (write_string_with_size (assignment_to_string (ip_assignment c)) w) (\<lambda>w.
     rbind (write_string_with_size ''linkAddress'' w) (\<lambda>w.
     rbind (write_string_with_size (ip_link_address c) w) (\<lambda>w.
     rbind (write_uint32 (ip_link_prefix_length c) w) (\<lambda>w.
     rbind (write_string_with_size ''gateway'' w) (\<lambda>w.
     rbind (write_uint32 0 w) (\<lambda>w.
     rbind (write_uint32 1 w) (\<lambda>w.
     rbind (write_string_with_size (ip_gateway c) w) (\<lambda>w.
     rbind (write_string_with_size ''dns'' w) (\<lambda>w.
     rbind (write_servers (ip_dns_servers c) w) (\<lambda>w.
     rbind (write_string_with_size ''id'' w) (\<lambda>w.
     rbind (write_uint32 (ip_id c) w) (write_string_with_size ''eos''))))))))))))))"
  show "appends Big ?body (enc_ip_config c)"
    unfolding enc_ip_config_def by (intro appends_bind appends_ops)
  show "ip_config_write c w = rbind (?body (set_byte_order Big w)) (\<lambda>w. Inr (bytes_written w, w))" for w
    by (simp add: ip_config_write_def rbind_assoc)
qed

lemma ip_config_write_eq:
  assumes "bw_wf w"
  shows "ip_config_write c w =
    (if length (enc_ip_config c) \<le> bw_space w
     then Inr (bw_current w + length (enc_ip_config c),
               bw_copy (enc_ip_config c) (set_byte_order Big w))
     else Inl (Out_of_range ''Write buffer exhausted''))"
proof -
  obtain body where "appends Big body (enc_ip_config c)"
      "\<And>w. ip_config_write c w = rbind (body (set_byte_order Big w)) (\<lambda>w. Inr (bytes_written w, w))"
    using ip_config_body by blast
  with assms show ?thesis
    by (simp add: appends_def set_byte_order_def bw_wf_def bw_space_def exhausted_def
        bytes_written_def)
qed

section \<open>Reading the format back\<close>

fun read16 :: "bytes \<Rightarrow> (u16 \<times> bytes) option" where
  "read16 (a # b # bs) = Some (push_bit 8 (ucast a) OR ucast b, bs)"
| "read16 _ = None"

fun read32 :: "bytes \<Rightarrow> (u32 \<times> bytes) option" where
  "read32 (a # b # c # d # bs) =
     Some (push_bit 24 (ucast a) OR push_bit 16 (ucast b) OR push_bit 8 (ucast c) OR ucast d, bs)"
| "read32 _ = None"

definition read_string :: "bytes \<Rightarrow> (string \<times> bytes) option" where
  "read_string bs =
     (case read16 bs of
        None \<Rightarrow> None
      | Some (n, bs) \<Rightarrow>
          if unat n \<le> length bs then Some (string_of_bytes (take (unat n) bs), drop (unat n) bs)
          else None)"

lemma read16_bytes16: "read16 (bytes16 Big v @ bs) = Some (v, bs)"
  by (simp add: bytes16_def Let_def)
    (rule bit_word_eqI, auto simp: bit_simps)

lemma word32_of_bytes:
  fixes v :: u32
  shows "push_bit 24 (ucast (ucast (drop_bit 24 v) :: byte)) OR
   push_bit 16 (ucast (ucast (drop_bit 16 v) :: byte)) OR
   push_bit 8 (ucast (ucast (drop_bit 8 v) :: byte)) OR ucast (ucast v :: byte) = v"
  (is "?w = v")
proof (rule bit_word_eqI)
  fix n
  assume n: "n < LENGTH(32)"
  then consider "24 \<le> n" "n - 24 < 8" | "16 \<le> n" "n < 24" | "8 \<le> n" "n < 16" | "n < 8"
    by fastforce
  then show "bit ?w n = bit v n"
    using n by cases (auto simp: bit_simps)
qed

lemma read32_bytes32: "read32 (bytes32 Big v @ bs) = Some (v, bs)"
  by (simp add: bytes32_def Let_def word32_of_bytes)

lemma read_string_enc:
  assumes "length s < 65536"
  shows "read_string (enc_string Big s @ bs) = Some (s, bs)"
proof -
  have "unat (of_nat (length s) :: u16) = length s"
    using assms by (simp add: unat_of_nat)
  then show ?thesis
    by (simp add: read_string_def enc_string_def read16_bytes16)
qed

lemma read16_shrinks: "read16 bs = Some (n, rest) \<Longrightarrow> length rest < length bs"
  by (cases bs rule: read16.cases) auto

lemma read_string_shrinks: "read_string bs = Some (s, rest) \<Longrightarrow> length rest < length bs"
  by (auto simp: read_string_def split: option.splits if_splits dest!: read16_shrinks)

text \<open>The servers have no count: a reader takes strings until it meets the key \<open>id\<close>.\<close>

function read_servers :: "bytes \<Rightarrow> (string list \<times> bytes) option" where
  "read_servers bs =
     (case read_string bs of
        None \<Rightarrow> None
      | Some (s, rest) \<Rightarrow>
          if s = ''id'' then Some ([], rest)
          else map_option (\<lambda>(ss, r). (s # ss, r)) (read_servers rest))"
  by pat_completeness auto

termination by (relation "measure length") (auto dest: read_string_shrinks)

declare read_servers.simps [simp del]

lemma read_servers_enc:
  "\<forall>s \<in> set ss. length s < 65536 \<and> s \<noteq> ''id'' \<Longrightarrow>
    read_servers (enc_servers ss @ enc_string Big ''id'' @ bs) = Some (ss, bs)"
proof (induction ss)
  case Nil
  show ?case
    by (subst read_servers.simps) (simp add: enc_servers_def read_string_enc)
next
  case (Cons s ss)
  then show ?case
    by (subst read_servers.simps) (simp add: enc_servers_def read_string_enc)
qed

definition read_assignment :: "string \<Rightarrow> assignment option" where
  "read_assignment s =
     (if s = ''STATIC'' then Some Static else if s = ''DHCP'' then Some DHCP else None)"

definition expect_key :: "string \<Rightarrow> bytes \<Rightarrow> bytes option" where
  "expect_key k bs =
     (case read_string bs of None \<Rightarrow> None | Some (s, rest) \<Rightarrow> if s = k then Some rest else None)"

definition read_ip_config :: "bytes \<Rightarrow> (ip_config_builder \<times> bytes) option" where
  "read_ip_config bs =
     Option.bind (read32 bs) (\<lambda>(v, bs).
     Option.bind (expect_key ''ipAssignment'' bs) (\<lambda>bs.
     Option.bind (read_string bs) (\<lambda>(a, bs).
     Option.bind (read_assignment a) (\<lambda>a.
     Option.bind (expect_key ''linkAddress'' bs) (\<lambda>bs.
     Option.bind (read_string bs) (\<lambda>(addr, bs).
     Option.bind (read32 bs) (\<lambda>(plen, bs).
     Option.bind (expect_key ''gateway'' bs) (\<lambda>bs.
     Option.bind (read32 bs) (\<lambda>(dflt, bs).
     Option.bind (read32 bs) (\<lambda>(present, bs).
     Option.bind (read_string bs) (\<lambda>(gw, bs).
     Option.bind (expect_key ''dns'' bs) (\<lambda>bs.
     Option.bind (read_servers bs) (\<lambda>(ss, bs).
     Option.bind (read32 bs) (\<lambda>(i, bs).
     Option.bind (expect_key ''eos'' bs) (\<lambda>bs.
     Some (\<lparr>ip_version = (if v = 1 then Version1 else Version2), ip_assignment = a,
            ip_link_address = addr, ip_link_prefix_length = plen, ip_gateway = gw,
            ip_dns_servers = ss, ip_id = i\<rparr>, bs))))))))))))))))"

lemma expect_key_enc [simp]:
  "length k < 65536 \<Longrightarrow> expect_key k (enc_string Big k @ bs) = Some bs"
  by (simp add: expect_key_def read_string_enc)

lemma read_assignment_to_string [simp]: "read_assignment (assignment_to_string a) = Some a"
  by (cases a) (simp_all add: read_assignment_def assignment_to_string_def)

lemma length_assignment_to_string [simp]: "length (assignment_to_string a) < 65536"
  by (cases a) (simp_all add: assignment_to_string_def)

definition ip_config_ok :: "ip_config_builder \<Rightarrow> bool" where
  "ip_config_ok c \<longleftrightarrow> length (ip_link_address c) < 65536 \<and> length (ip_gateway c) < 65536 \<and>
     (\<forall>s \<in> set (ip_dns_servers c). length s < 65536 \<and> s \<noteq> ''id'')"

lemma read_ip_config_enc:
  assumes "ip_config_ok c"
  shows "read_ip_config (enc_ip_config c @ bs) = Some (c, bs)"
  using assms
  by (cases "ip_version c")
    (simp_all add: read_ip_config_def enc_ip_config_def ip_config_ok_def read32_bytes32
      read_string_enc read_servers_enc version_value_def)

section \<open>Properties\<close>



end
