(* ===== verification/Framing.thy ===== *)
theory Framing
  imports Anbox_Prelude
begin

text \<open>
  The interface of the daemon's stream parsers. Each of them appends the bytes of a read to a
  buffer and takes messages off its front as long as a complete one is there. The locale
  \<open>framing\<close> states what such a parser relies on, \<open>framed_codec\<close> adds the sender's side.
  The RPC processor and the qemud pipe clients are instances.
\<close>

function drain :: "(bytes \<Rightarrow> ('m \<times> bytes) option) \<Rightarrow> bytes \<Rightarrow> 'm list \<times> bytes" where
  "drain nxt bs =
     (case nxt bs of
        None \<Rightarrow> ([], bs)
      | Some (m, rest) \<Rightarrow>
          if length rest < length bs then (case drain nxt rest of (ms, r) \<Rightarrow> (m # ms, r))
          else ([], bs))"
  by pat_completeness auto

termination by (relation "measure (\<lambda>(n, bs). length bs)") auto

declare drain.simps [simp del]

text \<open>A connection hands over the stream in pieces; the remainder is kept in between.\<close>

fun feed :: "(bytes \<Rightarrow> ('m \<times> bytes) option) \<Rightarrow> bytes \<Rightarrow> bytes list \<Rightarrow> 'm list \<times> bytes" where
  "feed nxt buf [] = ([], buf)"
| "feed nxt buf (c # cs) =
     (case drain nxt (buf @ c) of
        (ms, r) \<Rightarrow> (case feed nxt r cs of (ms', r') \<Rightarrow> (ms @ ms', r')))"

locale framing =
  fixes nxt :: "bytes \<Rightarrow> ('m \<times> bytes) option"
  assumes nxt_shrinks: "nxt bs = Some (m, rest) \<Longrightarrow> length rest < length bs"
    and nxt_mono: "nxt bs = Some (m, rest) \<Longrightarrow> nxt (bs @ cs) = Some (m, rest @ cs)"
begin

lemma drain_None: "nxt bs = None \<Longrightarrow> drain nxt bs = ([], bs)"
  by (subst drain.simps) simp

lemma drain_Some:
  "nxt bs = Some (m, rest) \<Longrightarrow>
    drain nxt bs = (m # fst (drain nxt rest), snd (drain nxt rest))"
  using nxt_shrinks [of bs m rest] by (subst drain.simps) (simp split: prod.split)

lemma drain_append:
  "drain nxt (bs @ cs) =
    (fst (drain nxt bs) @ fst (drain nxt (snd (drain nxt bs) @ cs)),
     snd (drain nxt (snd (drain nxt bs) @ cs)))"
proof (induction bs rule: length_induct)
  case (1 bs)
  show ?case
  proof (cases "nxt bs")
    case None
    then show ?thesis by (simp add: drain_None)
  next
    case (Some p)
    then obtain m rest where p: "nxt bs = Some (m, rest)" by (cases p) auto
    with nxt_shrinks 1 have "drain nxt (rest @ cs) =
        (fst (drain nxt rest) @ fst (drain nxt (snd (drain nxt rest) @ cs)),
         snd (drain nxt (snd (drain nxt rest) @ cs)))"
      by blast
    with p show ?thesis by (simp add: drain_Some [OF nxt_mono [OF p]] drain_Some [OF p])
  qed
qed

lemma drain_rest: "nxt (snd (drain nxt bs)) = None"
proof (induction bs rule: length_induct)
  case (1 bs)
  show ?case
  proof (cases "nxt bs")
    case None
    then show ?thesis by (simp add: drain_None)
  next
    case (Some p)
    then obtain m rest where p: "nxt bs = Some (m, rest)" by (cases p) auto
    with nxt_shrinks 1 show ?thesis by (auto simp: drain_Some)
  qed
qed

text \<open>How a stream is cut into reads does not matter.\<close>

lemma feed_concat: "feed nxt buf cs = (if cs = [] then ([], buf) else drain nxt (buf @ concat cs))"
proof (induction cs arbitrary: buf)
  case Nil
  then show ?case by simp
next
  case (Cons c cs)
  obtain ms r where d: "drain nxt (buf @ c) = (ms, r)" by fastforce
  show ?case
  proof (cases "cs = []")
    case True
    with d show ?thesis by simp
  next
    case False
    with Cons.IH [of r] d show ?thesis
      using drain_append [of "buf @ c" "concat cs"] by (simp split: prod.split)
  qed
qed

end

locale framed_codec = framing nxt
  for nxt :: "bytes \<Rightarrow> ('m \<times> bytes) option" +
  fixes frame :: "'m \<Rightarrow> bytes"
    and sendable :: "'m \<Rightarrow> bool"
  assumes nxt_frame: "sendable m \<Longrightarrow> nxt (frame m @ rest) = Some (m, rest)"
begin

lemma drain_frames:
  "\<forall>m \<in> set ms. sendable m \<Longrightarrow> drain nxt (concat (map frame ms) @ rest) =
     (ms @ fst (drain nxt rest), snd (drain nxt rest))"
  by (induction ms) (auto simp: drain_Some nxt_frame)

text \<open>Whatever part of a sequence of frames has arrived, the messages taken are the first ones.\<close>

lemma drain_prefix:
  "\<forall>m \<in> set ms. sendable m \<Longrightarrow> bs @ later = concat (map frame ms) \<Longrightarrow> nxt [] = None \<Longrightarrow>
     \<exists>ms'. ms = fst (drain nxt bs) @ ms' \<and> snd (drain nxt bs) @ later = concat (map frame ms')"
proof (induction ms arbitrary: bs)
  case Nil
  then show ?case by (simp add: drain_None)
next
  case (Cons m ms)
  show ?case
  proof (cases "nxt bs")
    case None
    with Cons.prems show ?thesis by (simp add: drain_None)
  next
    case (Some p)
    then obtain m' rest where n: "nxt bs = Some (m', rest)" by (cases p) auto
    with nxt_mono [OF n, of later] nxt_frame [of m "concat (map frame ms)"] Cons.prems
    have m: "m' = m" "rest @ later = concat (map frame ms)" by simp_all
    from Cons.IH [OF _ m(2)] Cons.prems obtain ms' where
      "ms = fst (drain nxt rest) @ ms'" "snd (drain nxt rest) @ later = concat (map frame ms')" by auto
    with n m show ?thesis by (intro exI [of _ ms']) (simp add: drain_Some)
  qed
qed

lemma feed_frames:
  assumes "\<forall>m \<in> set ms. sendable m" "concat cs = concat (map frame ms)" "nxt [] = None"
  shows "feed nxt [] cs = (ms, [])"
proof (cases cs)
  case Nil
  with assms have "concat (map frame ms) = []" by simp
  moreover have "frame m \<noteq> []" if "m \<in> set ms" for m
    using nxt_frame [of m "[]"] assms(1,3) that by auto
  ultimately have "ms = []" by (cases ms) auto
  with Nil show ?thesis by simp
next
  case (Cons c cs')
  then have "feed nxt [] cs = drain nxt (concat cs)" by (simp add: feed_concat del: feed.simps)
  with drain_frames [OF assms(1), of "[]"] assms(2,3) show ?thesis by (simp add: drain_None)
qed

end

end
