(* ===== verification/Rpc.thy ===== *)
theory Rpc
  imports Framing
begin

text \<open>
  The RPC layer between the daemon's processes and Android (\<open>rpc/channel.cpp\<close>,
  \<open>rpc/pending_call_cache.cpp\<close>, \<open>rpc/message_processor.cpp\<close>,
  \<open>rpc/template_message_processor.h\<close>): the frames on the wire, the cache of calls that wait
  for their response, and the processor that takes frames off the stream. Protobuf's
  serialisation is a parameter of the operations; message objects and closures are handles.
  The processor is shown to be an instance of the stream parsers of theory \<open>Framing\<close>.
\<close>

unbundle bit_operations_syntax

section \<open>Messages\<close>

definition header_size :: nat where "header_size = 4"

definition invocation_type :: byte where "invocation_type = 0"
definition response_type :: byte where "response_type = 1"

record rpc_invocation =
  inv_id :: u32
  inv_method_name :: string
  inv_parameters :: bytes
  inv_protocol_version :: u32

record rpc_result =
  res_id :: "u32 option"
  res_response :: bytes
  res_events :: "bytes list"

record rpc_protobuf =
  ser_invocation :: "rpc_invocation \<Rightarrow> bytes"
  parse_invocation :: "bytes \<Rightarrow> rpc_invocation"
  ser_result :: "rpc_result \<Rightarrow> bytes"
  parse_result :: "bytes \<Rightarrow> rpc_result"

section \<open>PendingCallCache\<close>

text \<open>The key is the \<open>int\<close> the unsigned message id converts to.\<close>

definition call_key :: "u32 \<Rightarrow> int" where
  "call_key i = sint i"

record pending_call =
  pc_response :: nat
  pc_complete :: "nat option"

type_synonym pending_calls = "(int, pending_call) omap"

definition save_completion_details ::
  "rpc_invocation \<Rightarrow> nat \<Rightarrow> nat option \<Rightarrow> pending_calls \<Rightarrow> pending_calls" where
  "save_completion_details invocation response complete m =
     om_put (call_key (inv_id invocation)) \<lparr>pc_response = response, pc_complete = complete\<rparr> m"

text \<open>The message the populator is applied to; \<open>at\<close> throws for an unknown id.\<close>

definition populate_message_for_result :: "u32 \<Rightarrow> pending_calls \<Rightarrow> nat res" where
  "populate_message_for_result i m =
     (case map_of m (call_key i) of
        None \<Rightarrow> Inl (Out_of_range ''map::at'')
      | Some call \<Rightarrow> Inr (pc_response call))"

text \<open>The closure to run, if any, and the cache without the call.\<close>

definition complete_response :: "u32 \<Rightarrow> pending_calls \<Rightarrow> nat option \<times> pending_calls" where
  "complete_response i m =
     (case map_of m (call_key i) of
        None \<Rightarrow> (None, m)
      | Some call \<Rightarrow> (pc_complete call, om_erase (call_key i) m))"

text \<open>Every closure runs, in key order; a null closure is dereferenced.\<close>

fun run_all :: "pending_calls \<Rightarrow> nat list res" where
  "run_all [] = Inr []"
| "run_all ((k, call) # m) =
     (case pc_complete call of
        None \<Rightarrow> Inl (Undefined ''null closure'')
      | Some c \<Rightarrow> rbind (run_all m) (\<lambda>cs. Inr (c # cs)))"

definition force_completion :: "pending_calls \<Rightarrow> (nat list \<times> pending_calls) res" where
  "force_completion m = rbind (run_all m) (\<lambda>cs. Inr (cs, []))"

definition cache_empty :: "pending_calls \<Rightarrow> bool" where
  "cache_empty m \<longleftrightarrow> m = []"

section \<open>Channel\<close>

definition header_bytes :: "nat \<Rightarrow> byte \<Rightarrow> bytes" where
  "header_bytes sz type =
     [of_nat (drop_bit 16 sz AND 255), of_nat (drop_bit 8 sz AND 255), of_nat (sz AND 255), type]"

definition rpc_frame :: "byte \<Rightarrow> bytes \<Rightarrow> bytes" where
  "rpc_frame type payload = header_bytes (length payload) type @ payload"

text \<open>
  The state of a channel: its cache, the process-wide \<open>next_message_id\<close> and what was sent.
  \<open>sender\<close> is the \<open>MessageSender\<close>: \<open>Some e\<close> when it throws.
\<close>

record channel =
  ch_pending :: pending_calls
  ch_next_message_id :: u32
  ch_sent :: bytes
  ch_completed :: "nat list"

definition next_id :: "channel \<Rightarrow> u32 \<times> channel" where
  "next_id ch = (ch_next_message_id ch, ch\<lparr>ch_next_message_id := ch_next_message_id ch + 1\<rparr>)"

definition notify_disconnected :: "channel \<Rightarrow> channel res" where
  "notify_disconnected ch =
     rbind (force_completion (ch_pending ch))
       (\<lambda>(cs, m). Inr (ch\<lparr>ch_pending := m, ch_completed := ch_completed ch @ cs\<rparr>))"

text \<open>
  \<open>send_message\<close>: the outcome is the exception thrown, if any, and the channel afterwards.
  Only \<open>std::runtime_error\<close> (and what derives from it) is caught and rethrown.
\<close>

definition send_message ::
  "(bytes \<Rightarrow> exn option) \<Rightarrow> byte \<Rightarrow> bytes \<Rightarrow> channel \<Rightarrow> exn option \<times> channel" where
  "send_message sender type payload ch =
     (case sender (rpc_frame type payload) of
        None \<Rightarrow> (None, ch\<lparr>ch_sent := ch_sent ch @ rpc_frame type payload\<rparr>)
      | Some e \<Rightarrow>
          (case e of
             Runtime_error w \<Rightarrow>
               (case notify_disconnected ch of Inl u \<Rightarrow> (Some u, ch) | Inr ch' \<Rightarrow> (Some e, ch'))
           | System_error w \<Rightarrow>
               (case notify_disconnected ch of Inl u \<Rightarrow> (Some u, ch) | Inr ch' \<Rightarrow> (Some e, ch'))
           | _ \<Rightarrow> (Some e, ch)))"

definition invocation_for :: "string \<Rightarrow> bytes \<Rightarrow> channel \<Rightarrow> rpc_invocation \<times> channel" where
  "invocation_for method_name request ch =
     (case next_id ch of
        (i, ch') \<Rightarrow>
          (\<lparr>inv_id = i, inv_method_name = method_name, inv_parameters = request,
            inv_protocol_version = 1\<rparr>, ch'))"

definition call_method ::
  "rpc_protobuf \<Rightarrow> (bytes \<Rightarrow> exn option) \<Rightarrow> string \<Rightarrow> bytes \<Rightarrow> nat \<Rightarrow> nat option \<Rightarrow> channel \<Rightarrow>
     exn option \<times> channel" where
  "call_method pb sender method_name parameters response complete ch =
     (case invocation_for method_name parameters ch of
        (invocation, ch1) \<Rightarrow>
          send_message sender invocation_type (ser_invocation pb invocation)
            (ch1\<lparr>ch_pending := save_completion_details invocation response complete (ch_pending ch1)\<rparr>))"

definition send_event ::
  "rpc_protobuf \<Rightarrow> (bytes \<Rightarrow> exn option) \<Rightarrow> bytes \<Rightarrow> channel \<Rightarrow> exn option \<times> channel" where
  "send_event pb sender event ch =
     send_message sender response_type
       (ser_result pb \<lparr>res_id = None, res_response = [], res_events = [event]\<rparr>) ch"

text \<open>The frame \<open>MessageProcessor::send_response\<close> hands to its sender.\<close>

definition send_response :: "rpc_protobuf \<Rightarrow> u32 \<Rightarrow> bytes \<Rightarrow> bytes" where
  "send_response pb i response =
     (let buf = ser_result pb \<lparr>res_id = Some i, res_response = response, res_events = []\<rparr>
      in header_bytes (length buf) response_type @ buf)"

section \<open>MessageProcessor\<close>

datatype rpc_effect =
    Dispatch rpc_invocation
  | Populate nat bytes        \<comment> \<open>the response message parses these bytes\<close>
  | Run_closure nat
  | Event_sequence bytes

record rpc_processor =
  rp_buffer :: bytes
  rp_pending :: pending_calls
  rp_trace :: "rpc_effect list"

definition message_size :: "bytes \<Rightarrow> nat" where
  "message_size buf = push_bit 16 (unat (buf ! 0)) + push_bit 8 (unat (buf ! 1)) + unat (buf ! 2)"

text \<open>
  One message. \<open>dispatch\<close> is the virtual method of the subclass: what it throws, if it does.
\<close>

definition handle_message ::
  "rpc_protobuf \<Rightarrow> (rpc_invocation \<Rightarrow> exn option) \<Rightarrow> byte \<Rightarrow> bytes \<Rightarrow> rpc_processor \<Rightarrow>
     exn option \<times> rpc_processor" where
  "handle_message pb dispatch type payload p =
     (if type = invocation_type then
        (let i = parse_invocation pb payload
         in (dispatch i, p\<lparr>rp_trace := rp_trace p @ [Dispatch i]\<rparr>))
      else if type = response_type then
        (let result = parse_result pb payload;
             events = map Event_sequence (res_events result)
         in case res_id result of
              None \<Rightarrow> (None, p\<lparr>rp_trace := rp_trace p @ events\<rparr>)
            | Some i \<Rightarrow>
                (case populate_message_for_result i (rp_pending p) of
                   Inl e \<Rightarrow> (Some e, p)
                 | Inr msg \<Rightarrow>
                     (case complete_response i (rp_pending p) of
                        (closure, m) \<Rightarrow>
                          (None, p\<lparr>rp_pending := m,
                             rp_trace := rp_trace p @ [Populate msg (res_response result)] @
                               (case closure of None \<Rightarrow> [] | Some c \<Rightarrow> [Run_closure c]) @ events\<rparr>))))
      else (None, p))"

lemma handle_message_buffer [simp]:
  "rp_buffer (snd (handle_message pb dispatch type payload p)) = rp_buffer p"
  by (auto simp: handle_message_def Let_def split: option.splits sum.splits prod.splits)

lemma handle_message_keeps:
  "handle_message pb dispatch type payload p = (r, p') \<Longrightarrow> rp_buffer p' = rp_buffer p"
  by (metis handle_message_buffer snd_conv)

lemma handle_message_keeps_sym:
  "(r, p') = handle_message pb dispatch type payload p \<Longrightarrow> rp_buffer p' = rp_buffer p"
  by (metis handle_message_keeps)

text \<open>
  The loop of \<open>process_data\<close>. It reads four header bytes as soon as the buffer is not empty,
  which is undefined when there are fewer.
\<close>

function process_loop ::
  "rpc_protobuf \<Rightarrow> (rpc_invocation \<Rightarrow> exn option) \<Rightarrow> rpc_processor \<Rightarrow> exn option \<times> rpc_processor" where
  "process_loop pb dispatch p =
     (if rp_buffer p = [] then (None, p)
      else if length (rp_buffer p) < header_size then (Some (Undefined ''buffer_[3]''), p)
      else if length (rp_buffer p) < message_size (rp_buffer p) + header_size then (None, p)
      else
        (case handle_message pb dispatch (rp_buffer p ! 3)
                (take (message_size (rp_buffer p)) (drop header_size (rp_buffer p))) p of
           (Some e, p') \<Rightarrow> (Some e, p')
         | (None, p') \<Rightarrow>
             process_loop pb dispatch
               (p'\<lparr>rp_buffer := drop (header_size + message_size (rp_buffer p')) (rp_buffer p')\<rparr>)))"
  by pat_completeness auto

termination
  by (relation "measure (\<lambda>(pb, d, p). length (rp_buffer p))")
    (auto simp: header_size_def dest!: handle_message_keeps handle_message_keeps_sym)

declare process_loop.simps [simp del]

definition rpc_process_data ::
  "rpc_protobuf \<Rightarrow> (rpc_invocation \<Rightarrow> exn option) \<Rightarrow> bytes \<Rightarrow> rpc_processor \<Rightarrow> bool res \<times> rpc_processor"
where
  "rpc_process_data pb dispatch data p =
     (case process_loop pb dispatch (p\<lparr>rp_buffer := rp_buffer p @ data\<rparr>) of
        (Some e, p') \<Rightarrow> (Inl e, p')
      | (None, p') \<Rightarrow> (Inr True, p'))"

section \<open>invoke\<close>

text \<open>
  \<open>invoke\<close> unpacks the parameters, calls the bridge function and turns an exception into an
  error response. \<open>run\<close> is the bridge function: the results the callback sent while it ran, the
  result message it leaves, and the text of the exception it threw, if any. \<open>set_error\<close> is
  the result message's setter. The value is the list of responses sent.
\<close>

definition invoke ::
  "(bytes \<Rightarrow> 'p option) \<Rightarrow> ('p \<Rightarrow> 'r list \<times> 'r \<times> string option) \<Rightarrow> (string \<Rightarrow> 'r \<Rightarrow> 'r) \<Rightarrow>
     rpc_invocation \<Rightarrow> (u32 \<times> 'r) list res" where
  "invoke parse run set_error invocation =
     (case parse (inv_parameters invocation) of
        None \<Rightarrow> Inl (Runtime_error ''Failed to parse message parameters!'')
      | Some request \<Rightarrow>
          (case run request of
             (sent, result, thrown) \<Rightarrow>
               Inr (map (Pair (inv_id invocation)) sent @
                    (case thrown of
                       None \<Rightarrow> []
                     | Some what \<Rightarrow>
                         [(inv_id invocation, set_error (''Error processing request: '' @ what) result)]))))"

section \<open>Frames\<close>

definition rpc_next :: "bytes \<Rightarrow> ((byte \<times> bytes) \<times> bytes) option" where
  "rpc_next bs =
     (if length bs < header_size \<or> length bs < message_size bs + header_size then None
      else Some ((bs ! 3, take (message_size bs) (drop header_size bs)),
                 drop (header_size + message_size bs) bs))"

lemma message_size_append: "header_size \<le> length bs \<Longrightarrow> message_size (bs @ cs) = message_size bs"
  by (auto simp: message_size_def header_size_def nth_append)

lemma nat_three_bytes:
  assumes "n < 2 ^ 24"
  shows "push_bit 16 (drop_bit 16 n AND 255) + push_bit 8 (drop_bit 8 n AND 255) + (n AND 255) = (n::nat)"
proof -
  have m: "x AND 255 = x mod 256" for x :: nat
    using take_bit_eq_mask [of 8 x] by (simp add: take_bit_eq_mod mask_eq_exp_minus_1)
  have "n div 65536 < 256" using assms by (simp add: less_mult_imp_div_less)
  moreover have "n div 256 mod 256 + n div 65536 * 256 = n div 256"
    using div_mult_mod_eq [of "n div 256" 256] by (simp add: div_mult2_eq [symmetric])
  moreover have "n mod 256 + n div 256 * 256 = n" by simp
  ultimately have "n div 65536 * 65536 + n div 256 mod 256 * 256 + n mod 256 = n"
    by linarith
  with \<open>n div 65536 < 256\<close> show ?thesis
    by (simp add: m push_bit_eq_mult drop_bit_eq_div)
qed

lemma unat_low_byte [simp]: "unat (of_nat (n AND 255) :: byte) = n AND 255"
proof -
  have "n AND 255 = n mod 256"
    using take_bit_eq_mask [of 8 n] by (simp add: take_bit_eq_mod mask_eq_exp_minus_1)
  then show ?thesis by (simp add: unat_of_nat)
qed

lemma message_size_frame:
  "length payload < 2 ^ 24 \<Longrightarrow> message_size (rpc_frame t payload @ rest) = length payload"
  unfolding message_size_def rpc_frame_def header_bytes_def
  using nat_three_bytes [of "length payload"]
  by (simp only: append_Cons nth_Cons_0 nth_Cons_Suc One_nat_def numeral_2_eq_2 unat_low_byte)

interpretation rpc: framed_codec rpc_next "\<lambda>(t, payload). rpc_frame t payload"
  "\<lambda>(t, payload). length payload < 2 ^ 24"
proof unfold_locales
  fix bs m rest
  assume "rpc_next bs = Some (m, rest)"
  then show "length rest < length bs"
    by (auto simp: rpc_next_def header_size_def split: if_splits)
next
  fix bs m rest cs
  assume "rpc_next bs = Some (m, rest)"
  then show "rpc_next (bs @ cs) = Some (m, rest @ cs)"
    by (auto simp: rpc_next_def message_size_append nth_append header_size_def split: if_splits)
next
  fix m :: "byte \<times> bytes" and rest
  assume "case m of (t, payload) \<Rightarrow> length payload < 2 ^ 24"
  then show "rpc_next ((case m of (t, payload) \<Rightarrow> rpc_frame t payload) @ rest) = Some (m, rest)"
    using message_size_frame [of "snd m" "fst m" rest]
    by (cases m) (simp add: rpc_next_def, simp add: rpc_frame_def header_bytes_def header_size_def)
qed

section \<open>The processor handles the framed messages in order\<close>

fun handle_all ::
  "rpc_protobuf \<Rightarrow> (rpc_invocation \<Rightarrow> exn option) \<Rightarrow> (byte \<times> bytes) list \<Rightarrow> rpc_processor \<Rightarrow>
     exn option \<times> rpc_processor" where
  "handle_all pb dispatch [] p = (None, p)"
| "handle_all pb dispatch ((t, payload) # ms) p =
     (case handle_message pb dispatch t payload p of
        (Some e, p') \<Rightarrow> (Some e, p')
      | (None, p') \<Rightarrow> handle_all pb dispatch ms p')"

lemma handle_message_set_buffer:
  "handle_message pb dispatch t payload (p\<lparr>rp_buffer := b\<rparr>) =
    map_prod id (rp_buffer_update (\<lambda>_. b)) (handle_message pb dispatch t payload p)"
  by (simp add: handle_message_def Let_def split: option.split sum.split prod.split)

lemma rpc_processor_eta [simp]: "p\<lparr>rp_buffer := rp_buffer p\<rparr> = (p :: rpc_processor)"
  by simp

lemma handle_all_set_buffer:
  "handle_all pb dispatch ms (p\<lparr>rp_buffer := b\<rparr>) =
    map_prod id (rp_buffer_update (\<lambda>_. b)) (handle_all pb dispatch ms p)"
proof (induction ms arbitrary: p)
  case (Cons m ms)
  then show ?case
    by (cases m)
      (simp add: handle_message_set_buffer map_prod_def split: prod.split option.split)
qed simp

lemma process_loop_None:
  assumes "rpc_next (rp_buffer p) = None"
  shows "process_loop pb dispatch p =
    (if length (rp_buffer p) \<in> {1, 2, 3} then (Some (Undefined ''buffer_[3]''), p) else (None, p))"
proof -
  have "length (rp_buffer p) \<in> {1, 2, 3} \<longleftrightarrow> rp_buffer p \<noteq> [] \<and> length (rp_buffer p) < header_size"
    by (cases "rp_buffer p") (auto simp: header_size_def less_Suc_eq numeral_3_eq_3 numeral_2_eq_2 eval_nat_numeral)
  with assms show ?thesis
    by (subst process_loop.simps) (auto simp: rpc_next_def split: if_splits)
qed

lemma process_loop_Some:
  assumes "rpc_next (rp_buffer p) = Some ((t, payload), rest)"
  shows "process_loop pb dispatch p =
    (case handle_message pb dispatch t payload p of
       (Some e, p') \<Rightarrow> (Some e, p')
     | (None, p') \<Rightarrow> process_loop pb dispatch (p'\<lparr>rp_buffer := rest\<rparr>))"
proof -
  let ?n = "message_size (rp_buffer p)"
  from assms have n: "header_size \<le> length (rp_buffer p)" "?n + header_size \<le> length (rp_buffer p)"
      "t = rp_buffer p ! 3" "payload = take ?n (drop header_size (rp_buffer p))"
      "rest = drop (header_size + ?n) (rp_buffer p)"
    by (auto simp: rpc_next_def split: if_splits)
  moreover have "rp_buffer p \<noteq> []" using n(1) by (auto simp: header_size_def)
  ultimately show ?thesis
    by (subst process_loop.simps)
      (auto split: prod.split option.split dest!: handle_message_keeps)
qed

lemma process_loop_drain:
  "drain rpc_next (rp_buffer p) = (ms, r) \<Longrightarrow> handle_all pb dispatch ms p = (None, p') \<Longrightarrow>
    process_loop pb dispatch p =
      (if length r \<in> {1, 2, 3} then Some (Undefined ''buffer_[3]'') else None, p'\<lparr>rp_buffer := r\<rparr>)"
proof (induction ms arbitrary: p p')
  case Nil
  then have "rpc_next (rp_buffer p) = None" "r = rp_buffer p"
    using rpc.drain_Some [of "rp_buffer p"] rpc.drain_None [of "rp_buffer p"]
    by (cases "rpc_next (rp_buffer p)", auto)+
  with Nil.prems(2) show ?case by (simp add: process_loop_None)
next
  case (Cons m ms)
  obtain t payload where m: "m = (t, payload)" by fastforce
  from Cons.prems(1) have "rpc_next (rp_buffer p) \<noteq> None"
    using rpc.drain_None [of "rp_buffer p"] by (cases "rpc_next (rp_buffer p)") simp_all
  then obtain m' rest where "rpc_next (rp_buffer p) = Some (m', rest)"
    by (metis option.exhaust surj_pair)
  with Cons.prems(1) m have nxt: "rpc_next (rp_buffer p) = Some ((t, payload), rest)"
      "drain rpc_next rest = (ms, r)"
    by (auto simp: rpc.drain_Some prod_eq_iff)
  obtain p1 where p1: "handle_message pb dispatch t payload p = (None, p1)"
      "handle_all pb dispatch ms p1 = (None, p')"
    using Cons.prems(2) m by (auto split: prod.splits option.splits)
  have "process_loop pb dispatch p = process_loop pb dispatch (p1\<lparr>rp_buffer := rest\<rparr>)"
    using nxt(1) p1(1) by (simp add: process_loop_Some)
  also have "\<dots> = (if length r \<in> {1, 2, 3} then Some (Undefined ''buffer_[3]'') else None,
      p'\<lparr>rp_buffer := r\<rparr>)"
    using Cons.IH [of "p1\<lparr>rp_buffer := rest\<rparr>" "p'\<lparr>rp_buffer := rest\<rparr>"] nxt(2) p1(2)
    by (simp add: handle_all_set_buffer)
  finally show ?case .
qed

text \<open>
  What \<open>process_data\<close> does when no handler throws: it handles the messages the buffer and
  the new bytes hold, in order, and keeps the rest; a rest of one to three bytes is read
  past its end.
\<close>

lemma rpc_process_data_drain:
  assumes "drain rpc_next (rp_buffer p @ data) = (ms, r)"
    and "handle_all pb dispatch ms p = (None, p')"
  shows "rpc_process_data pb dispatch data p =
    (if length r \<in> {1, 2, 3} then Inl (Undefined ''buffer_[3]'') else Inr True, p'\<lparr>rp_buffer := r\<rparr>)"
  using process_loop_drain [of "p\<lparr>rp_buffer := rp_buffer p @ data\<rparr>" ms r pb dispatch
      "p'\<lparr>rp_buffer := rp_buffer p @ data\<rparr>"] assms
  by (simp add: rpc_process_data_def handle_all_set_buffer)

lemma handle_all_invocations:
  assumes "\<And>i. dispatch i = None"
  shows "handle_all pb dispatch (map (\<lambda>i. (invocation_type, ser_invocation pb i)) invs) p =
    (None, p\<lparr>rp_trace := rp_trace p @
       map (\<lambda>i. Dispatch (parse_invocation pb (ser_invocation pb i))) invs\<rparr>)"
  using assms by (induction invs arbitrary: p) (simp_all add: handle_message_def Let_def)

lemma call_key_inj: "call_key i = call_key j \<longleftrightarrow> i = j"
  by (simp add: call_key_def word_eq_iff_signed [symmetric])

section \<open>Sequences of reads\<close>

fun process_reads ::
  "rpc_protobuf \<Rightarrow> (rpc_invocation \<Rightarrow> exn option) \<Rightarrow> bytes list \<Rightarrow> rpc_processor \<Rightarrow> bool \<times> rpc_processor"
where
  "process_reads pb dispatch [] p = (True, p)"
| "process_reads pb dispatch (c # cs) p =
     (case rpc_process_data pb dispatch c p of
        (Inr True, p') \<Rightarrow> process_reads pb dispatch cs p'
      | (_, p') \<Rightarrow> (False, p'))"

text \<open>No read ends inside the header of a frame.\<close>

fun clean_cuts :: "bytes \<Rightarrow> bytes list \<Rightarrow> bool" where
  "clean_cuts buf [] = True"
| "clean_cuts buf (c # cs) =
     (let r = snd (drain rpc_next (buf @ c)) in length r \<notin> {1, 2, 3} \<and> clean_cuts r cs)"

lemma handle_all_append:
  "handle_all pb dispatch (ms @ ns) p =
    (case handle_all pb dispatch ms p of
       (Some e, p') \<Rightarrow> (Some e, p') | (None, p') \<Rightarrow> handle_all pb dispatch ns p')"
  by (induction pb dispatch ms p rule: handle_all.induct) (auto split: prod.splits option.splits)

lemma process_reads_feed:
  "clean_cuts (rp_buffer p) cs \<Longrightarrow> feed rpc_next (rp_buffer p) cs = (ms, r) \<Longrightarrow>
    handle_all pb dispatch ms p = (None, p') \<Longrightarrow>
    process_reads pb dispatch cs p = (True, p'\<lparr>rp_buffer := r\<rparr>)"
proof (induction cs arbitrary: p p' ms)
  case Nil
  then show ?case by simp
next
  case (Cons c cs)
  obtain ms1 r1 where d: "drain rpc_next (rp_buffer p @ c) = (ms1, r1)" by fastforce
  obtain ms2 where f: "feed rpc_next r1 cs = (ms2, r)" "ms = ms1 @ ms2"
    using Cons.prems(2) d by (auto split: prod.splits)
  obtain p1 where h: "handle_all pb dispatch ms1 p = (None, p1)"
      "handle_all pb dispatch ms2 p1 = (None, p')"
    using Cons.prems(3) f(2) by (auto simp: handle_all_append split: prod.splits option.splits)
  have c: "length r1 \<notin> {1, 2, 3}" "clean_cuts r1 cs"
    using Cons.prems(1) d by (auto simp: Let_def)
  have "rpc_process_data pb dispatch c p = (Inr True, p1\<lparr>rp_buffer := r1\<rparr>)"
    using rpc_process_data_drain [OF d h(1)] c(1) by simp
  then show ?case
    using Cons.IH [of "p1\<lparr>rp_buffer := r1\<rparr>" ms2 "p'\<lparr>rp_buffer := r1\<rparr>"] c(2) f(1) h(2)
    by (simp add: handle_all_set_buffer)
qed

lemma run_all_Inr:
  "\<forall>(k, call) \<in> set m. pc_complete call \<noteq> None \<Longrightarrow>
    run_all m = Inr (map (the \<circ> pc_complete \<circ> snd) m)"
  by (induction m rule: run_all.induct) auto

section \<open>Properties\<close>



text \<open>
  A read that ends inside a header is an out-of-bounds access: with an empty buffer, any
  read of complete invocation frames followed by one, two or three further bytes dispatches
  the complete ones and then reads \<open>buffer_[3]\<close> of a shorter buffer.
\<close>

theorem rpc_short_header_undefined:
  assumes "\<forall>i \<in> set invs. length (ser_invocation pb i) < 2 ^ 24"
    and "\<And>i. dispatch i = None" and "rp_buffer p = []" and "length tail \<in> {1, 2, 3}"
  shows "fst (rpc_process_data pb dispatch
      (concat (map (\<lambda>i. rpc_frame invocation_type (ser_invocation pb i)) invs) @ tail) p) =
    Inl (Undefined ''buffer_[3]'')"
proof -
  let ?ms = "map (\<lambda>i. (invocation_type, ser_invocation pb i)) invs"
  have "rpc_next tail = None"
    using assms(4) by (auto simp: rpc_next_def header_size_def)
  then have "drain rpc_next (concat (map (\<lambda>i. rpc_frame invocation_type (ser_invocation pb i)) invs) @ tail) =
      (?ms, tail)"
    using rpc.drain_frames [of ?ms tail] assms(1) by (simp add: comp_def rpc.drain_None)
  with rpc_process_data_drain [of p _ ?ms tail pb dispatch] assms(3,4)
    handle_all_invocations [OF assms(2), where pb = pb and invs = invs and p = p]
  show ?thesis by simp
qed

theorem rpc_short_header_undefined_witness:
  "fst (rpc_process_data
     \<lparr>ser_invocation = \<lambda>_. [], parse_invocation = \<lambda>_. undefined, ser_result = \<lambda>_. [],
      parse_result = \<lambda>_. undefined\<rparr>
     (\<lambda>_. None) [0, 0] \<lparr>rp_buffer = [], rp_pending = [], rp_trace = []\<rparr>) =
   Inl (Undefined ''buffer_[3]'')"
  using rpc_short_header_undefined [of "[]" _ "\<lambda>_. None"
      "\<lparr>rp_buffer = [], rp_pending = [], rp_trace = []\<rparr>" "[0, 0]"]
  by simp

text \<open>
  C15. A call is completed exactly once, by its own response. After a \<open>call_method\<close> whose send
  succeeds, with a message id that no other waiting call has, the cache is the old one and
  this call; the next id differs. The response frame with that id fills the response object
  of the call, runs its closure once and restores the cache as it was before the call; the
  same response a second time throws out_of_range and runs nothing.
\<close>

theorem rpc_call_completed_once:
  assumes ok: "sender (rpc_frame invocation_type (ser_invocation pb i)) = None"
    and i: "i = \<lparr>inv_id = ch_next_message_id ch, inv_method_name = name, inv_parameters = params,
              inv_protocol_version = 1\<rparr>"
    and fresh: "map_of (ch_pending ch) (call_key (ch_next_message_id ch)) = None"
    and wf: "om_wf (ch_pending ch)"
    and ch': "call_method pb sender name params response (Some closure) ch = (thrown, ch')"
    and reply: "parse_result pb payload =
              \<lparr>res_id = Some (ch_next_message_id ch), res_response = answer, res_events = []\<rparr>"
  shows "thrown = None \<and> ch_next_message_id ch' \<noteq> ch_next_message_id ch \<and>
    (\<forall>p. rp_pending p = ch_pending ch' \<longrightarrow>
       (\<exists>p'. handle_message pb dispatch response_type payload p = (None, p') \<and>
          rp_trace p' = rp_trace p @ [Populate response answer, Run_closure closure] \<and>
          rp_pending p' = ch_pending ch \<and>
          handle_message pb dispatch response_type payload p' = (Some (Out_of_range ''map::at''), p')))"
proof -
  let ?k = "call_key (ch_next_message_id ch)"
  let ?c = "\<lparr>pc_response = response, pc_complete = Some closure\<rparr>"
  have c: "thrown = None" "ch_pending ch' = om_put ?k ?c (ch_pending ch)"
      "ch_next_message_id ch' = ch_next_message_id ch + 1"
    using ch' ok i
    by (auto simp: call_method_def invocation_for_def next_id_def send_message_def
        save_completion_details_def)
  have e: "om_erase ?k (om_put ?k ?c (ch_pending ch)) = ch_pending ch"
    using om_erase_put [OF wf fresh] .
  show ?thesis
    using c reply fresh
    by (auto simp: handle_message_def Let_def populate_message_for_result_def complete_response_def
        e response_type_def invocation_type_def)
qed

theorem rpc_call_completed_once_witness:
  "\<exists>p'. handle_message
      \<lparr>ser_invocation = \<lambda>_. [], parse_invocation = \<lambda>_. undefined, ser_result = \<lambda>_. [],
       parse_result = \<lambda>_. \<lparr>res_id = Some 4294967295, res_response = [9], res_events = []\<rparr>\<rparr>
      (\<lambda>_. None) response_type []
      \<lparr>rp_buffer = [], rp_pending = [(- 1, \<lparr>pc_response = 1, pc_complete = Some 2\<rparr>)], rp_trace = []\<rparr> =
      (None, p') \<and> rp_trace p' = [Populate 1 [9], Run_closure 2] \<and> rp_pending p' = []"
proof -
  let ?pb = "\<lparr>ser_invocation = \<lambda>_. [], parse_invocation = \<lambda>_. undefined, ser_result = \<lambda>_. [],
       parse_result = \<lambda>_. \<lparr>res_id = Some 4294967295, res_response = [9], res_events = []\<rparr>\<rparr>"
  let ?ch = "\<lparr>ch_pending = [], ch_next_message_id = 4294967295, ch_sent = [], ch_completed = []\<rparr>"
  have call: "call_method ?pb (\<lambda>_. None) ''m'' [] 1 (Some 2) ?ch =
      (None, \<lparr>ch_pending = [(- 1, \<lparr>pc_response = 1, pc_complete = Some 2\<rparr>)], ch_next_message_id = 0,
        ch_sent = [0, 0, 0, 0], ch_completed = []\<rparr>)"
    by (simp add: call_method_def invocation_for_def next_id_def send_message_def
        save_completion_details_def call_key_def rpc_frame_def header_bytes_def invocation_type_def)
  show ?thesis
    using rpc_call_completed_once [OF _ refl _ _ call, of "[]" "[9]" "\<lambda>_. None",
        THEN conjunct2, THEN conjunct2, THEN spec, of "\<lparr>rp_buffer = [],
          rp_pending = [(- 1, \<lparr>pc_response = 1, pc_complete = Some 2\<rparr>)], rp_trace = []\<rparr>"]
    by auto
qed

text \<open>
  C16. When a send fails with a runtime error, no caller keeps waiting: provided that every
  waiting call has a closure, all of them, the one just made included, run once in the
  order of their ids, the cache is left empty and the error is passed on.
\<close>

theorem rpc_disconnect_completes_all:
  assumes "sender (rpc_frame invocation_type (ser_invocation pb
      \<lparr>inv_id = ch_next_message_id ch, inv_method_name = name, inv_parameters = params,
       inv_protocol_version = 1\<rparr>)) = Some (Runtime_error w)"
    and "\<forall>(k, call) \<in> set (ch_pending ch). pc_complete call \<noteq> None"
  shows "\<exists>ch'. call_method pb sender name params response (Some closure) ch =
      (Some (Runtime_error w), ch') \<and> ch_pending ch' = [] \<and>
    ch_completed ch' = ch_completed ch @
      map (the \<circ> pc_complete \<circ> snd)
        (om_put (call_key (ch_next_message_id ch))
           \<lparr>pc_response = response, pc_complete = Some closure\<rparr> (ch_pending ch))"
proof -
  let ?m = "om_put (call_key (ch_next_message_id ch))
      \<lparr>pc_response = response, pc_complete = Some closure\<rparr> (ch_pending ch)"
  have "\<forall>(k, call) \<in> set ?m. pc_complete call \<noteq> None"
    using assms(2) om_set_put [of _ _ "ch_pending ch"] by fastforce
  then have "run_all ?m = Inr (map (the \<circ> pc_complete \<circ> snd) ?m)"
    by (rule run_all_Inr)
  with assms(1) show ?thesis
    by (simp add: call_method_def invocation_for_def next_id_def send_message_def
        save_completion_details_def notify_disconnected_def force_completion_def)
qed

theorem rpc_disconnect_completes_all_witness:
  "\<exists>ch'. call_method
      \<lparr>ser_invocation = \<lambda>_. [], parse_invocation = \<lambda>_. undefined, ser_result = \<lambda>_. [],
       parse_result = \<lambda>_. undefined\<rparr>
      (\<lambda>_. Some (Runtime_error ''closed'')) ''m'' [] 3 (Some 30)
      \<lparr>ch_pending = [(0, \<lparr>pc_response = 1, pc_complete = Some 10\<rparr>)], ch_next_message_id = 1,
       ch_sent = [], ch_completed = []\<rparr> = (Some (Runtime_error ''closed''), ch') \<and>
     ch_pending ch' = [] \<and> ch_completed ch' = [10, 30]"
  using rpc_disconnect_completes_all [of "\<lambda>_. Some (Runtime_error ''closed'')"
      "\<lparr>ser_invocation = \<lambda>_. [], parse_invocation = \<lambda>_. undefined, ser_result = \<lambda>_. [],
        parse_result = \<lambda>_. undefined\<rparr>"
      "\<lparr>ch_pending = [(0, \<lparr>pc_response = 1, pc_complete = Some 10\<rparr>)], ch_next_message_id = 1,
        ch_sent = [], ch_completed = []\<rparr>" "''m''" "[]" "''closed''" 3 30]
  by (simp add: call_key_def)

end
