(* ===== verification/Network.thy ===== *)
theory Network
  imports Anbox_Prelude
begin

text \<open>
  The sockets layer (\<open>network/\<close>): the table of live connections and the read loop of a
  connection, the messenger's blocking send on a non-blocking socket, the acceptors, and the
  passing of file descriptors over a socket. Boost.Asio and the message processors are
  parameters, the kernel's side of \<open>recvmsg\<close> is a list of answers.
\<close>

section \<open>Connections\<close>

type_synonym 'c connections = "(int, 'c) omap"

definition conn_add :: "int \<Rightarrow> 'c \<Rightarrow> 'c connections \<Rightarrow> 'c connections" where
  "conn_add i c m = om_insert i c m"

definition conn_remove :: "int \<Rightarrow> 'c connections \<Rightarrow> 'c connections" where
  "conn_remove i m = om_erase i m"

definition conn_includes :: "int \<Rightarrow> 'c connections \<Rightarrow> bool" where
  "conn_includes i m \<longleftrightarrow> map_of m i \<noteq> None"

definition conn_clear :: "'c connections \<Rightarrow> 'c connections" where
  "conn_clear m = []"

definition conn_size :: "'c connections \<Rightarrow> nat" where
  "conn_size m = length m"

text \<open>\<open>at(n)\<close> looks up the connection whose id is \<open>n\<close>; it is not the \<open>n\<close>-th one.\<close>

definition conn_at :: "nat \<Rightarrow> 'c connections \<Rightarrow> 'c res" where
  "conn_at n m =
     (case map_of m (s32 (int n)) of None \<Rightarrow> Inl (Out_of_range ''map::at'') | Some c \<Rightarrow> Inr c)"

section \<open>SocketConnection\<close>

datatype read_outcome = Read_next | Connection_closed | Thrown exn

definition on_read_size ::
  "int \<Rightarrow> (bytes \<Rightarrow> 'p \<Rightarrow> bool res \<times> 'p) \<Rightarrow> bool \<Rightarrow> bytes \<Rightarrow> nat \<Rightarrow> 'p \<Rightarrow> 'c connections \<Rightarrow>
     read_outcome \<times> 'p \<times> 'c connections" where
  "on_read_size i process error buffer bytes_read p conns =
     (if error then (Connection_closed, p, conn_remove i conns)
      else
        (case process (take bytes_read buffer) p of
           (Inl e, p') \<Rightarrow> (Thrown e, p', conns)
         | (Inr True, p') \<Rightarrow> (Read_next, p', conns)
         | (Inr False, p') \<Rightarrow> (Connection_closed, p', conn_remove i conns)))"

text \<open>The read loop: one entry per completed read, \<open>None\<close> a failed one.\<close>

fun run_connection ::
  "int \<Rightarrow> (bytes \<Rightarrow> 'p \<Rightarrow> bool res \<times> 'p) \<Rightarrow> bytes option list \<Rightarrow> 'p \<Rightarrow> 'c connections \<Rightarrow>
     read_outcome \<times> 'p \<times> 'c connections" where
  "run_connection i process [] p conns = (Read_next, p, conns)"
| "run_connection i process (r # rs) p conns =
     (case on_read_size i process (r = None) (case r of None \<Rightarrow> [] | Some d \<Rightarrow> d)
              (case r of None \<Rightarrow> 0 | Some d \<Rightarrow> length d) p conns of
        (Read_next, p', conns') \<Rightarrow> run_connection i process rs p' conns'
      | other \<Rightarrow> other)"

section \<open>DelegateMessageProcessor and DelegateConnectionCreator\<close>

definition delegate_process_data ::
  "(bytes \<Rightarrow> 'p \<Rightarrow> bool res \<times> 'p) option \<Rightarrow> bytes \<Rightarrow> 'p \<Rightarrow> bool res \<times> 'p" where
  "delegate_process_data process data p =
     (case process of None \<Rightarrow> (Inr False, p) | Some f \<Rightarrow> f data p)"

datatype 's creator_action = Delegate 's | Close_socket 's

definition delegate_create_connection_for :: "bool \<Rightarrow> 's \<Rightarrow> 's creator_action" where
  "delegate_create_connection_for has_delegate socket =
     (if has_delegate then Delegate socket else Close_socket socket)"

section \<open>Acceptors\<close>

datatype 's accept_action = Create_connection 's | Start_accept

definition operation_aborted :: int where "operation_aborted = 125"

definition published_on_new_connection :: "int \<Rightarrow> 's \<Rightarrow> 's accept_action list" where
  "published_on_new_connection err socket =
     (if err = 0 then [Create_connection socket] else []) @
     (if err = operation_aborted then [] else [Start_accept])"

definition tcp_on_new_connection :: "int \<Rightarrow> 's \<Rightarrow> 's accept_action list" where
  "tcp_on_new_connection err socket =
     (if err = 0 then [Create_connection socket, Start_accept] else [])"

section \<open>BaseSocketMessenger\<close>

text \<open>
  \<open>asio_write\<close> is one call of \<open>boost::asio::write\<close>: the bytes that went out, the error it
  ended with, and the state of the socket afterwards. The loop is given fuel; \<open>None\<close> means
  that it is still retrying.
\<close>

fun messenger_send ::
  "nat \<Rightarrow> (bytes \<Rightarrow> 's \<Rightarrow> bytes \<times> int option \<times> 's) \<Rightarrow> bytes \<Rightarrow> 's \<Rightarrow>
     (exn option \<times> bytes \<times> 's) option" where
  "messenger_send 0 asio_write whole_message s = None"
| "messenger_send (Suc fuel) asio_write whole_message s =
     (case asio_write whole_message s of
        (w, None, s') \<Rightarrow> Some (None, w, s')
      | (w, Some e, s') \<Rightarrow>
          if e = EAGAIN
          then map_option (\<lambda>(r, w', s''). (r, w @ w', s''))
                 (messenger_send fuel asio_write whole_message s')
          else Some (Some (System_error ''write''), w, s'))"

text \<open>
  \<open>receive_msg\<close>: \<open>asio_read n\<close> is one call of \<open>boost::asio::read\<close> for \<open>n\<close> bytes; the result
  is the last error code and the bytes stored.
\<close>

fun receive_msg ::
  "nat \<Rightarrow> (nat \<Rightarrow> 's \<Rightarrow> bytes \<times> int option \<times> 's) \<Rightarrow> nat \<Rightarrow> int option \<Rightarrow> bytes \<Rightarrow> 's \<Rightarrow>
     (int option \<times> bytes \<times> 's) option" where
  "receive_msg 0 asio_read sz e buf s = None"
| "receive_msg (Suc fuel) asio_read sz e buf s =
     (if \<not> length buf < sz then Some (e, buf, s)
      else
        (case asio_read (sz - length buf) s of
           (bs, e', s') \<Rightarrow>
             if e' \<noteq> None \<and> e' \<noteq> Some EAGAIN then Some (e', buf @ bs, s')
             else receive_msg fuel asio_read sz e' (buf @ bs) s'))"

section \<open>Passing file descriptors\<close>

datatype cmsg_type = Scm_rights | Scm_credentials | Scm_other

record cmsg =
  cm_sol_socket :: bool
  cm_type :: cmsg_type
  cm_fds :: "int list"
  cm_ctrunc :: bool   \<comment> \<open>\<open>MSG_CTRUNC\<close> in the message flags\<close>

text \<open>\<open>send_fds\<close>: the message given to \<open>sendmsg\<close>, none for an empty list.\<close>

definition send_fds_message :: "int list \<Rightarrow> (bytes \<times> cmsg) option" where
  "send_fds_message fds =
     (if length fds > 0
      then Some ([77], \<lparr>cm_sol_socket = True, cm_type = Scm_rights, cm_fds = fds, cm_ctrunc = False\<rparr>)
      else None)"

definition send_fds :: "(bytes \<times> cmsg \<Rightarrow> int) \<Rightarrow> int list \<Rightarrow> unit res" where
  "send_fds sendmsg fds =
     (case send_fds_message fds of
        None \<Rightarrow> Inr ()
      | Some m \<Rightarrow> if sendmsg m < 0 then Inl (Runtime_error ''Failed to send fds: '') else Inr ())"

definition socket_error_is_transient :: "int \<Rightarrow> bool" where
  "socket_error_is_transient error_code \<longleftrightarrow> error_code = EINTR"

datatype recv_answer =
    Recv_error int
  | Recv bytes "cmsg option"

record receive_result =
  rr_thrown :: "exn option"
  rr_buffer :: bytes
  rr_fds :: "int list"
  rr_closed :: "int list"

definition store_fds :: "int list \<Rightarrow> nat \<Rightarrow> int list \<Rightarrow> int list" where
  "store_fds fds fds_read new = take fds_read fds @ new @ drop (fds_read + length new) fds"

text \<open>
  \<open>fds\<close> is the caller's vector, whose size is the number of descriptors it expects. The
  kernel stores at most as many bytes as asked for.
\<close>

fun receive_loop ::
  "recv_answer list \<Rightarrow> nat \<Rightarrow> bytes \<Rightarrow> int list \<Rightarrow> nat \<Rightarrow> receive_result option" where
  "receive_loop as bytes_requested buf fds fds_read =
     (if length buf \<ge> bytes_requested then
        (if fds_read < length fds
         then Some \<lparr>rr_thrown = Some (Runtime_error ''Received fewer fds than expected''),
                    rr_buffer = buf, rr_fds = [], rr_closed = filter (\<lambda>fd. fd \<ge> 0) fds\<rparr>
         else Some \<lparr>rr_thrown = None, rr_buffer = buf, rr_fds = fds, rr_closed = []\<rparr>)
      else
        (case as of
           [] \<Rightarrow> None
         | Recv_error e # as' \<Rightarrow>
             if socket_error_is_transient e \<or> e = EAGAIN
             then receive_loop as' bytes_requested buf fds fds_read
             else Some \<lparr>rr_thrown = Some (System_error ''Failed to read message from server''),
                        rr_buffer = buf, rr_fds = fds, rr_closed = []\<rparr>
         | Recv bs c # as' \<Rightarrow>
             let bs = take (bytes_requested - length buf) bs in
             if bs = []
             then Some \<lparr>rr_thrown = Some (System_error ''Failed to read message from server: server has shutdown''),
                        rr_buffer = buf, rr_fds = fds, rr_closed = []\<rparr>
             else
               (case c of
                  None \<Rightarrow> receive_loop as' bytes_requested (buf @ bs) fds fds_read
                | Some cm \<Rightarrow>
                    if cm_sol_socket cm \<and> cm_type cm = Scm_credentials
                    then Some \<lparr>rr_thrown = Some (Runtime_error ''received SCM_CREDENTIALS when expecting fd''),
                               rr_buffer = buf @ bs, rr_fds = fds, rr_closed = []\<rparr>
                    else if \<not> cm_sol_socket cm \<or> cm_type cm \<noteq> Scm_rights
                    then Some \<lparr>rr_thrown = Some (Runtime_error ''Invalid control message for receiving file descriptors''),
                               rr_buffer = buf @ bs, rr_fds = fds, rr_closed = []\<rparr>
                    else if length (cm_fds cm) > length fds - fds_read \<or> cm_ctrunc cm
                    then Some \<lparr>rr_thrown = Some (Runtime_error ''Received more fds than expected''),
                               rr_buffer = buf @ bs, rr_fds = fds, rr_closed = cm_fds cm\<rparr>
                    else receive_loop as' bytes_requested (buf @ bs)
                           (store_fds fds fds_read (cm_fds cm)) (fds_read + length (cm_fds cm)))))"

declare receive_loop.simps [simp del]

definition receive_data :: "recv_answer list \<Rightarrow> nat \<Rightarrow> int list \<Rightarrow> receive_result option" where
  "receive_data as bytes_requested fds =
     (if bytes_requested = 0
      then Some \<lparr>rr_thrown = Some (Logic_error ''Attempted to receive 0 bytes''),
                 rr_buffer = [], rr_fds = fds, rr_closed = []\<rparr>
      else receive_loop as bytes_requested [] fds 0)"

section \<open>Lemmas\<close>

lemma on_read_size_conns:
  assumes "on_read_size i process error buffer n p conns = (r, p', conns')"
  shows "conns' = (if r = Connection_closed then conn_remove i conns else conns)"
  using assms by (auto simp: on_read_size_def split: if_splits prod.splits sum.splits bool.splits)

lemma run_connection_conns:
  "run_connection i process rs p conns = (r, p', conns') \<Longrightarrow>
    conns' = (if r = Connection_closed then conn_remove i conns else conns)"
proof (induction i process rs p conns arbitrary: r p' conns' rule: run_connection.induct)
  case (1 i process p conns)
  then show ?case by auto
next
  case (2 i process x rs p conns)
  obtain r1 p1 conns1 where o: "on_read_size i process (x = None) (case x of None \<Rightarrow> [] | Some d \<Rightarrow> d)
      (case x of None \<Rightarrow> 0 | Some d \<Rightarrow> length d) p conns = (r1, p1, conns1)"
    by (metis prod_cases3)
  note c = on_read_size_conns [OF o]
  show ?case
  proof (cases r1)
    case Read_next
    with 2 o c show ?thesis by simp
  next
    case Connection_closed
    with "2.prems" o c show ?thesis by simp
  next
    case (Thrown e)
    with "2.prems" o c show ?thesis by auto
  qed
qed

text \<open>The attempts of a send: what each of the first \<open>n\<close> calls transferred.\<close>

fun attempts ::
  "nat \<Rightarrow> (bytes \<Rightarrow> 's \<Rightarrow> bytes \<times> int option \<times> 's) \<Rightarrow> bytes \<Rightarrow> 's \<Rightarrow> (bytes \<times> int option) list" where
  "attempts 0 wr data s = []"
| "attempts (Suc n) wr data s = (case wr data s of (w, e, s') \<Rightarrow> (w, e) # attempts n wr data s')"

lemma messenger_send_attempts:
  "\<forall>a \<in> set (attempts n wr data s). snd a = Some EAGAIN \<Longrightarrow>
    attempts (Suc n) wr data s = as @ [(w, None)] \<Longrightarrow> length as = n \<Longrightarrow> n < fuel \<Longrightarrow>
    \<exists>s'. messenger_send fuel wr data s = Some (None, concat (map fst as) @ w, s')"
proof (induction n arbitrary: fuel s as)
  case 0
  then show ?case
    by (cases fuel) (auto split: prod.splits)
next
  case (Suc n)
  obtain w0 e s0 where w0: "wr data s = (w0, e, s0)" by (metis prod_cases3)
  from Suc.prems w0 have e: "e = Some EAGAIN" by auto
  from Suc.prems(2) w0 obtain as' where as': "as = (w0, e) # as'"
      "attempts (Suc n) wr data s0 = as' @ [(w, None)]"
    using Suc.prems(3) by (cases as) auto
  obtain fuel' where f: "fuel = Suc fuel'" using Suc.prems(4) by (cases fuel) auto
  with Suc.IH [of s0 as' fuel'] Suc.prems as' w0
  obtain s' where "messenger_send fuel' wr data s0 = Some (None, concat (map fst as') @ w, s')"
    by auto
  with f w0 e as'(1) show ?case by simp
qed

fun recv_bytes :: "recv_answer \<Rightarrow> bytes" where
  "recv_bytes (Recv bs c) = bs"
| "recv_bytes (Recv_error e) = []"

fun recv_fds :: "recv_answer \<Rightarrow> int list" where
  "recv_fds (Recv bs (Some cm)) = cm_fds cm"
| "recv_fds _ = []"

lemma take_append_take:
  "take n (buf @ take (n - length buf) bs @ xs) = take n (buf @ bs @ xs)"
proof (cases "length bs \<le> n - length buf")
  case True
  then show ?thesis by simp
next
  case False
  then show ?thesis by simp
qed

lemma store_fds_take:
  "k + length new \<le> length fds \<Longrightarrow>
    take (k + length new) (store_fds fds k new) = take k fds @ new \<and>
    length (store_fds fds k new) = length fds"
  by (simp add: store_fds_def)

definition received_ok :: "recv_answer list \<Rightarrow> nat \<Rightarrow> bytes \<Rightarrow> int list \<Rightarrow> nat \<Rightarrow> receive_result \<Rightarrow> bool" where
  "received_ok as1 n buf fds k r \<longleftrightarrow>
     rr_buffer r = take n (buf @ concat (map recv_bytes as1)) \<and> length (rr_buffer r) = n \<and>
     (rr_thrown r = None \<longrightarrow>
        rr_fds r = take k fds @ concat (map recv_fds as1) \<and> length (rr_fds r) = length fds \<and>
        rr_closed r = []) \<and>
     (rr_thrown r \<noteq> None \<longrightarrow>
        length (take k fds @ concat (map recv_fds as1)) < length fds \<and>
        set (filter (\<lambda>fd. fd \<ge> 0) (take k fds @ concat (map recv_fds as1))) \<subseteq> set (rr_closed r))"

lemma received_ok_Cons:
  assumes "received_ok as1 n (buf @ take (n - length buf) (recv_bytes a)) fds' k' r"
    and "take k' fds' = take k fds @ recv_fds a" "length fds' = length fds"
  shows "received_ok (a # as1) n buf fds k r"
proof -
  have "take n ((buf @ take (n - length buf) (recv_bytes a)) @ concat (map recv_bytes as1)) =
      take n (buf @ concat (map recv_bytes (a # as1)))"
    by (simp only: append_assoc list.map concat.simps take_append_take)
  moreover have "take k' fds' @ concat (map recv_fds as1) = take k fds @ concat (map recv_fds (a # as1))"
    by (simp add: assms(2))
  ultimately have "received_ok (a # as1) n buf fds k r =
      received_ok as1 n (buf @ take (n - length buf) (recv_bytes a)) fds' k' r"
    unfolding received_ok_def by (simp only: assms(3))
  with assms(1) show ?thesis by simp
qed

lemma receive_loop_full:
  "length buf \<ge> n \<Longrightarrow> receive_loop as n buf fds k =
    (if k < length fds
     then Some \<lparr>rr_thrown = Some (Runtime_error ''Received fewer fds than expected''),
                rr_buffer = buf, rr_fds = [], rr_closed = filter (\<lambda>fd. fd \<ge> 0) fds\<rparr>
     else Some \<lparr>rr_thrown = None, rr_buffer = buf, rr_fds = fds, rr_closed = []\<rparr>)"
  by (subst receive_loop.simps) simp

lemma receive_loop_Nil: "length buf < n \<Longrightarrow> receive_loop [] n buf fds k = None"
  by (subst receive_loop.simps) simp

lemma receive_loop_error:
  "length buf < n \<Longrightarrow> receive_loop (Recv_error e # as) n buf fds k =
    (if e = EINTR \<or> e = EAGAIN then receive_loop as n buf fds k
     else Some \<lparr>rr_thrown = Some (System_error ''Failed to read message from server''),
                rr_buffer = buf, rr_fds = fds, rr_closed = []\<rparr>)"
  by (subst receive_loop.simps) (simp add: socket_error_is_transient_def)

lemma receive_loop_Recv:
  assumes "length buf < n" "receive_loop (Recv bs c # as) n buf fds k = Some r"
    and "rr_thrown r = None \<or> rr_thrown r = Some (Runtime_error ''Received fewer fds than expected'')"
  shows "case c of
      None \<Rightarrow> receive_loop as n (buf @ take (n - length buf) bs) fds k = Some r
    | Some cm \<Rightarrow> length (cm_fds cm) \<le> length fds - k \<and>
        receive_loop as n (buf @ take (n - length buf) bs) (store_fds fds k (cm_fds cm))
          (k + length (cm_fds cm)) = Some r"
  using assms by (auto simp: receive_loop.simps [of "Recv bs c # as"] Let_def
      split: if_splits option.splits)

lemma receive_loop_data:
  "length buf < n \<Longrightarrow> bs \<noteq> [] \<Longrightarrow> receive_loop (Recv bs None # as) n buf fds k =
    receive_loop as n (buf @ take (n - length buf) bs) fds k"
  by (subst receive_loop.simps) (simp add: Let_def)

lemma receive_loop_fds:
  "length buf < n \<Longrightarrow> bs \<noteq> [] \<Longrightarrow> cm_sol_socket cm \<Longrightarrow> cm_type cm = Scm_rights \<Longrightarrow>
    k + length (cm_fds cm) \<le> length fds \<Longrightarrow> \<not> cm_ctrunc cm \<Longrightarrow>
    receive_loop (Recv bs (Some cm) # as) n buf fds k =
    receive_loop as n (buf @ take (n - length buf) bs) (store_fds fds k (cm_fds cm))
      (k + length (cm_fds cm))"
  by (subst receive_loop.simps) (auto simp: Let_def)

lemmas receive_loop_rules =
  receive_loop_full receive_loop_Nil receive_loop_error receive_loop_data receive_loop_fds

text \<open>
  Whenever the whole request came in, the buffer holds the stream, and the descriptors are
  either exactly those received, or fewer than expected and all closed again.
\<close>

lemma receive_loop_done:
  assumes "receive_loop as n buf fds k = Some r" "length buf \<le> n" "k \<le> length fds"
    and "rr_thrown r = None \<or> rr_thrown r = Some (Runtime_error ''Received fewer fds than expected'')"
  shows "\<exists>as1 as2. as = as1 @ as2 \<and> received_ok as1 n buf fds k r"
  using assms
proof (induction as arbitrary: buf fds k)
  case Nil
  then show ?case
    by (cases "length buf \<ge> n")
      (auto simp: receive_loop_full receive_loop_Nil received_ok_def split: if_splits dest: in_set_takeD)
next
  case (Cons a as)
  show ?case
  proof (cases "length buf \<ge> n")
    case True
    with Cons.prems have "received_ok [] n buf fds k r"
      by (auto simp: receive_loop_full received_ok_def split: if_splits dest: in_set_takeD)
    then show ?thesis by (metis append_Nil)
  next
    case False
    show ?thesis
    proof (cases a)
      case (Recv_error e)
      with False Cons.prems have "receive_loop as n buf fds k = Some r"
        by (auto simp: receive_loop_error split: if_splits)
      with Cons.IH [of buf fds k] Cons.prems obtain as1 as2 where
        "as = as1 @ as2" "received_ok as1 n buf fds k r" by auto
      then have "a # as = (a # as1) @ as2" "received_ok (a # as1) n buf fds k r"
        using received_ok_Cons [of as1 n buf a fds k r k fds] Recv_error by simp_all
      then show ?thesis by blast
    next
      case (Recv bs c)
      let ?buf = "buf @ take (n - length buf) bs"
      obtain fds' k' where rec: "receive_loop as n ?buf fds' k' = Some r"
          "take k' fds' = take k fds @ recv_fds a" "length fds' = length fds" "k' \<le> length fds'"
      proof (cases c)
        case None
        with Recv False Cons.prems that [of fds k] show ?thesis
          using receive_loop_Recv [of buf n bs c as fds k r] by simp
      next
        case (Some cm)
        with Recv False Cons.prems have
          "receive_loop as n ?buf (store_fds fds k (cm_fds cm)) (k + length (cm_fds cm)) = Some r"
          "length (cm_fds cm) \<le> length fds - k"
          using receive_loop_Recv [of buf n bs c as fds k r] by simp_all
        with that store_fds_take [of k "cm_fds cm" fds] Some Recv Cons.prems(3) show ?thesis
          by simp
      qed
      have "length ?buf \<le> n" using False by simp
      with Cons.IH [OF rec(1) _ rec(4) Cons.prems(4)] obtain as1 as2 where
        "as = as1 @ as2" "received_ok as1 n ?buf fds' k' r" by blast
      then have "a # as = (a # as1) @ as2" "received_ok (a # as1) n buf fds k r"
        using received_ok_Cons [of as1 n buf a fds' k' r k fds] Recv rec(2,3) by simp_all
      then show ?thesis by blast
    qed
  qed
qed

section \<open>Properties\<close>

text \<open>
  However the reads of a connection go, its loop touches no other entry of the connection
  table: the table stays ordered, every other id keeps its connection, and the
  connection's own entry is gone exactly when the loop ended with a closed connection (a failed
  read, or a processor that gave up).
\<close>

theorem connection_table_consistent:
  assumes "om_wf conns" "conn_includes i conns"
    and "run_connection i process rs p conns = (r, p', conns')"
  shows "om_wf conns' \<and> (\<forall>j. j \<noteq> i \<longrightarrow> map_of conns' j = map_of conns j) \<and>
    (conn_includes i conns' \<longleftrightarrow> r \<noteq> Connection_closed)"
  using run_connection_conns [OF assms(3)] assms(1,2)
  by (auto simp: conn_remove_def conn_includes_def)

theorem connection_table_consistent_witness:
  "\<not> conn_includes 4 (snd (snd (run_connection 4 (\<lambda>d p. (Inr (d \<noteq> []), p @ d)) [Some [1], Some []] []
      [(3, ''x''), (4, ''y'')])))"
  using connection_table_consistent [of "[(3, ''x''), (4, ''y'')]" 4 "\<lambda>d p. (Inr (d \<noteq> []), p @ d)"
      "[Some [1], Some []]" "[]" Connection_closed "[1]" "[(3, ''x'')]"]
  by (simp add: conn_includes_def on_read_size_def conn_remove_def om_erase_def)

text \<open>
  \<open>BaseSocketMessenger::send\<close> repeats what it already sent. When \<open>n\<close> attempts end with
  EAGAIN and the next one transfers the whole message, the call returns successfully and the
  peer has received everything the failed attempts transferred, followed by the whole message: the
  stream is the message alone exactly when no failed attempt transferred anything.
\<close>

theorem messenger_send_repeats_partial_writes:
  assumes "\<forall>a \<in> set (attempts n wr data s). snd a = Some EAGAIN"
    and "attempts (Suc n) wr data s = failed @ [(data, None)]" and "length failed = n"
  shows "\<exists>s'. messenger_send (Suc n) wr data s = Some (None, concat (map fst failed) @ data, s') \<and>
    (concat (map fst failed) @ data = data \<longleftrightarrow> (\<forall>a \<in> set failed. fst a = []))"
  using messenger_send_attempts [OF assms(1,2,3), of "Suc n"] by (auto simp: concat_eq_Nil_conv)

theorem messenger_send_repeats_partial_writes_witness:
  "\<exists>s'. messenger_send 2 (\<lambda>d s. if s then (take 1 d, Some EAGAIN, False) else (d, None, s)) [1, 2, 3] True =
     Some (None, [1, 1, 2, 3], s')"
  using messenger_send_repeats_partial_writes [of 1
      "\<lambda>d s. if s then (take 1 d, Some EAGAIN, False) else (d, None, s)" "[1, 2, 3]" True
      "[([1], Some EAGAIN)]"]
  by (simp add: numeral_2_eq_2)

text \<open>
  When \<open>receive_data\<close> returns normally, the buffer holds exactly the requested number of
  bytes, the first ones of what a prefix of the kernel's answers delivered, and the vector of
  descriptors holds exactly the descriptors of those answers, in order, as many as
  expected, none of them closed. When it throws because there were too few, every
  descriptor it received has been closed.
\<close>

theorem receive_data_exact:
  assumes "receive_data as n fds = Some r" "0 < n"
    and "rr_thrown r = None \<or> rr_thrown r = Some (Runtime_error ''Received fewer fds than expected'')"
  shows "\<exists>as1 as2. as = as1 @ as2 \<and>
    rr_buffer r = take n (concat (map recv_bytes as1)) \<and> length (rr_buffer r) = n \<and>
    (if rr_thrown r = None
     then rr_fds r = concat (map recv_fds as1) \<and> length (rr_fds r) = length fds \<and> rr_closed r = []
     else length (concat (map recv_fds as1)) < length fds \<and>
       set (filter (\<lambda>fd. fd \<ge> 0) (concat (map recv_fds as1))) \<subseteq> set (rr_closed r))"
proof -
  obtain as1 as2 where as: "as = as1 @ as2" and ok: "received_ok as1 n [] fds 0 r"
    using receive_loop_done [of as n "[]" fds 0 r] assms by (auto simp: receive_data_def)
  show ?thesis
    using as ok unfolding received_ok_def take_0 append_Nil
    by (intro exI [of _ as1] exI [of _ as2] conjI) (blast | (split if_split, blast))+
qed

theorem receive_data_exact_witness:
  "\<exists>as1 as2. [Recv_error EINTR, Recv [7] (Some \<lparr>cm_sol_socket = True, cm_type = Scm_rights,
       cm_fds = [5], cm_ctrunc = False\<rparr>), Recv [8, 9] None] = as1 @ as2 \<and>
     [7, 8, 9 :: byte] = take 3 (concat (map recv_bytes as1)) \<and> [5 :: int] = concat (map recv_fds as1)"
proof -
  let ?as = "[Recv_error EINTR, Recv [7] (Some \<lparr>cm_sol_socket = True, cm_type = Scm_rights,
       cm_fds = [5], cm_ctrunc = False\<rparr>), Recv [8, 9] None]"
  have "receive_data ?as 3 [- 1] =
      Some \<lparr>rr_thrown = None, rr_buffer = [7, 8, 9], rr_fds = [5], rr_closed = []\<rparr>"
    by (simp add: receive_data_def receive_loop_rules store_fds_def)
  from receive_data_exact [OF this zero_less_numeral, unfolded receive_result.select_convs if_P [OF refl],
      OF disjI1 [OF refl]]
  show ?thesis by (elim exE conjE) (intro exI conjI, assumption+)
qed

end
