(* ===== verification/Qemud.thy ===== *)
theory Qemud
  imports Framing Text_Utils
begin

text \<open>
  The clients of the qemud pipe: the length-prefixed command stream of
  \<open>QemudMessageProcessor\<close> (\<open>qemu/qemud_message_processor.cpp\<close>) and the services built on it
  (boot properties, hardware control, sensors, fingerprint, boot animation), the
  NUL-terminated command stream of the camera service, and the null processor. What a
  service sends is the list of its \<open>send\<close> calls.
\<close>

section \<open>The hexadecimal header\<close>

definition is_space :: "char \<Rightarrow> bool" where
  "is_space c \<longleftrightarrow> c \<in> {CHR '' '', CHR 0x09, CHR 0x0A, CHR 0x0B, CHR 0x0C, CHR 0x0D}"

definition hex_value :: "char \<Rightarrow> nat option" where
  "hex_value c =
     (let n = of_char c :: nat
      in if 48 \<le> n \<and> n \<le> 57 then Some (n - 48)
         else if 97 \<le> n \<and> n \<le> 102 then Some (n - 87)
         else if 65 \<le> n \<and> n \<le> 70 then Some (n - 55)
         else None)"

definition hex_number :: "string \<Rightarrow> nat" where
  "hex_number cs =
     foldl (\<lambda>a c. a * 16 + the (hex_value c)) 0 (takeWhile (\<lambda>c. hex_value c \<noteq> None) cs)"

text \<open>
  \<open>sscanf(header, "%04x", &body_size)\<close> on the four header bytes, with \<open>body_size\<close> zero
  before the call: white space, a sign and a \<open>0x\<close> prefix are accepted, as \<open>strtoul\<close> does, and a
  negative number wraps. (The four bytes have no terminator; the conversion is taken to use no
  byte beyond them.)
\<close>

definition sscanf_04x :: "string \<Rightarrow> u32" where
  "sscanf_04x header =
     (let cs = dropWhile is_space header;
          (neg, cs) = (case cs of
              c # r \<Rightarrow> if c = CHR ''-'' then (True, r) else if c = CHR ''+'' then (False, r) else (False, cs)
            | [] \<Rightarrow> (False, []));
          cs = (case cs of
              z # x # r \<Rightarrow> if z = CHR ''0'' \<and> (x = CHR ''x'' \<or> x = CHR ''X'') then r else cs
            | _ \<Rightarrow> cs);
          v = of_nat (hex_number cs)
      in if neg then - v else v)"

definition qemud_header_size :: nat where "qemud_header_size = 4"

definition body_size :: "bytes \<Rightarrow> nat" where
  "body_size buffer = unat (sscanf_04x (string_of_bytes (take qemud_header_size buffer)))"

section \<open>QemudMessageProcessor\<close>

text \<open>
  The loop of \<open>process_commands\<close>: the commands handed to \<open>handle_command\<close> in order, and
  the buffer left. The test at the end of the body subtracts \<open>consumed\<close> from the size the buffer
  has after the erase, in \<open>size_t\<close> arithmetic, and leaves the loop when the result is 0.
\<close>

function process_commands :: "bytes \<Rightarrow> string list \<times> bytes" where
  "process_commands buffer =
     (if length buffer < qemud_header_size then ([], buffer)
      else
        (let total_size = qemud_header_size + body_size buffer
         in if length buffer < total_size then ([], buffer)
            else
              (let command = string_of_bytes (take (body_size buffer) (drop qemud_header_size buffer));
                   consumed = qemud_header_size + body_size buffer;
                   buffer' = drop consumed buffer;
                   remaining = (of_nat (length buffer') - of_nat consumed :: u64)
               in if remaining \<le> 0 then ([command], buffer')
                  else (case process_commands buffer' of (cs, r) \<Rightarrow> (command # cs, r)))))"
  by pat_completeness auto

termination by (relation "measure length") (auto simp: qemud_header_size_def)

declare process_commands.simps [simp del]

definition qemud_process_data :: "bytes \<Rightarrow> bytes \<Rightarrow> bool \<times> string list \<times> bytes" where
  "qemud_process_data data buffer = (True, process_commands (buffer @ data))"

text \<open>\<open>send_header\<close> sends the first four characters of the zero-padded hexadecimal size.\<close>

definition send_header :: "nat \<Rightarrow> bytes" where
  "send_header sz = bytes_of (take 4 (show_hex_pad 4 sz))"

definition finish_message :: bytes where
  "finish_message = [0]"

section \<open>The services\<close>

definition list_properties :: "(int \<Rightarrow> string) \<Rightarrow> int \<Rightarrow> bytes list" where
  "list_properties format_density density =
     (let prop = format_density density
      in [send_header (length prop), bytes_of prop, finish_message])"

definition boot_properties_handle_command :: "(int \<Rightarrow> string) \<Rightarrow> int \<Rightarrow> string \<Rightarrow> bytes list" where
  "boot_properties_handle_command format_density density command =
     (if command = ''list'' then list_properties format_density density else [])"

definition hwcontrol_handle_command :: "string \<Rightarrow> bytes list" where
  "hwcontrol_handle_command command = []"

definition list_sensors :: "bytes list" where
  "list_sensors =
     (let buf = show_int 0 in [send_header (length buf), bytes_of buf, finish_message])"

definition sensors_handle_command :: "string \<Rightarrow> bytes list" where
  "sensors_handle_command command = (if command = ''list-sensors'' then list_sensors else [])"

definition fingerprint_listen :: "bytes list" where
  "fingerprint_listen =
     (let buf = ''off'' in [send_header (length buf), bytes_of buf, finish_message])"

definition fingerprint_handle_command :: "string \<Rightarrow> bytes list" where
  "fingerprint_handle_command command = (if command = ''listen'' then fingerprint_listen else [])"

text \<open>
  \<open>retrieve_icon\<close> sends a block only while \<open>read\<close> filled all of it; the read that meets the
  end of the file fails, and what it got is not sent.
\<close>

function retrieve_icon :: "bytes \<Rightarrow> bytes list" where
  "retrieve_icon icon =
     (if length icon < 1024 then [] else take 1024 icon # retrieve_icon (drop 1024 icon))"
  by pat_completeness auto

termination by (relation "measure length") auto

declare retrieve_icon.simps [simp del]

definition bootanimation_handle_command :: "bytes \<Rightarrow> string \<Rightarrow> bytes list" where
  "bootanimation_handle_command icon command =
     (if command = ''retrieve-icon'' then retrieve_icon icon else [])"

section \<open>CameraMessageProcessor\<close>

text \<open>
  The commands end with a NUL. Without one, \<open>size\<close> reaches the end of the buffer and the
  erase of \<open>size + 1\<close> bytes goes past it.
\<close>

function camera_process_commands :: "bytes \<Rightarrow> (string list \<times> bytes) res" where
  "camera_process_commands buffer =
     (if buffer = [] then Inr ([], [])
      else
        (let sz = length (takeWhile (\<lambda>b. b \<noteq> 0) buffer)
         in if sz + 1 > length buffer then Inl (Undefined ''erase past the end'')
            else rbind (camera_process_commands (drop (sz + 1) buffer))
                   (\<lambda>(cs, r). Inr (string_of_bytes (take sz buffer) # cs, r))))"
  by pat_completeness auto

termination by (relation "measure length") auto

declare camera_process_commands.simps [simp del]

definition camera_process_data :: "bytes \<Rightarrow> bytes \<Rightarrow> (string list \<times> bytes) res" where
  "camera_process_data data buffer = camera_process_commands (buffer @ data)"

definition camera_handle_command :: "string \<Rightarrow> bytes list" where
  "camera_handle_command command = (if command = ''list'' then [bytes_of [CHR 0x0A]] else [])"

definition null_process_data :: "bytes \<Rightarrow> bool" where
  "null_process_data data = True"

section \<open>Headers read back\<close>

lemma hex_value_digit: "d < 16 \<Longrightarrow> hex_value (digit_char d) = Some d"
proof -
  assume "d < 16"
  then have "(of_char (digit_char d) :: nat) = (if d < 10 then 48 + d else 87 + d)"
    by (simp add: digit_char_def)
  with \<open>d < 16\<close> show ?thesis by (simp add: hex_value_def Let_def)
qed

lemma hex_number_digits:
  assumes "\<forall>d \<in> set ds. d < 16"
  shows "hex_number (map digit_char ds) = foldl (\<lambda>a d. a * 16 + d) 0 ds"
proof -
  have "takeWhile (\<lambda>c. hex_value c \<noteq> None) (map digit_char ds) = map digit_char ds"
    using assms by (simp add: takeWhile_eq_all_conv hex_value_digit)
  moreover have "foldl (\<lambda>a c. a * 16 + the (hex_value c)) n (map digit_char ds) =
      foldl (\<lambda>a d. a * 16 + d) n ds" for n
    using assms by (induction ds arbitrary: n) (simp_all add: hex_value_digit)
  ultimately show ?thesis unfolding hex_number_def by (simp only:)
qed

lemma digit_char_0: "digit_char 0 = CHR ''0''"
  by code_simp

lemma foldl_leading_zeros:
  "foldl (\<lambda>a d. a * 16 + d) 0 (replicate k 0 @ ds) = foldl (\<lambda>a d. a * 16 + d) (0::nat) ds"
  by (induction k) simp_all

lemma digit_char_plain:
  assumes "d < 16"
  shows "\<not> is_space (digit_char d)" "digit_char d \<noteq> CHR ''-''" "digit_char d \<noteq> CHR ''+''"
    "digit_char d \<noteq> CHR ''x''" "digit_char d \<noteq> CHR ''X''"
proof -
  have "hex_value (digit_char d) \<noteq> None" using assms by (simp add: hex_value_digit)
  then show "\<not> is_space (digit_char d)" "digit_char d \<noteq> CHR ''-''" "digit_char d \<noteq> CHR ''+''"
      "digit_char d \<noteq> CHR ''x''" "digit_char d \<noteq> CHR ''X''"
    by (auto simp: is_space_def hex_value_def Let_def)
qed

lemma sscanf_digits:
  assumes "\<forall>d \<in> set ds. d < 16"
  shows "sscanf_04x (map digit_char ds) = of_nat (foldl (\<lambda>a d. a * 16 + d) 0 ds)"
proof (cases ds)
  case Nil
  then show ?thesis by (simp add: sscanf_04x_def hex_number_def)
next
  case (Cons d es)
  show ?thesis
  proof (cases es)
    case Nil
    with Cons assms show ?thesis
      using hex_number_digits [OF assms] digit_char_plain [of d] by (simp add: sscanf_04x_def)
  next
    case (Cons e es')
    with \<open>ds = d # es\<close> assms show ?thesis
      using hex_number_digits [OF assms] digit_char_plain [of d] digit_char_plain [of e]
      by (simp add: sscanf_04x_def)
  qed
qed

lemma send_header_digits:
  assumes "n < 65536"
  shows "\<exists>ds. length ds = 4 \<and> (\<forall>d \<in> set ds. d < 16) \<and> send_header n = bytes_of (map digit_char ds) \<and>
    foldl (\<lambda>a d. a * 16 + d) 0 ds = n"
proof (intro exI conjI)
  let ?ds = "replicate (4 - length (digits_of 16 n)) 0 @ digits_of 16 n"
  have l: "length (digits_of 16 n) \<le> 4" using digits_of_length [of 16 n 4] assms by simp
  then show "length ?ds = 4" by simp
  show "\<forall>d \<in> set ?ds. d < 16" using digits_of_less [of 16] by auto
  have "show_hex_pad 4 n = map digit_char ?ds"
    by (simp add: show_hex_pad_def show_hex_def pad_left_def digit_char_0 map_replicate)
  with l show "send_header n = bytes_of (map digit_char ?ds)" by (simp add: send_header_def)
  show "foldl (\<lambda>a d. a * 16 + d) 0 ?ds = n"
    by (simp only: foldl_leading_zeros digits_of_value [of 16 n, simplified])
qed

lemma body_size_send_header:
  assumes "n < 65536"
  shows "length (send_header n) = 4" "body_size (send_header n @ bs) = n"
proof -
  obtain ds where ds: "length ds = 4" "\<forall>d \<in> set ds. d < 16"
      "send_header n = bytes_of (map digit_char ds)" "foldl (\<lambda>a d. a * 16 + d) 0 ds = n"
    using send_header_digits [OF assms] by blast
  then show "length (send_header n) = 4" by simp
  with ds show "body_size (send_header n @ bs) = n"
    using sscanf_digits [OF ds(2)] assms
    by (simp add: body_size_def qemud_header_size_def unat_of_nat)
qed

section \<open>The command stream as framed messages\<close>

definition qemud_next :: "bytes \<Rightarrow> (string \<times> bytes) option" where
  "qemud_next bs =
     (if length bs < qemud_header_size \<or> length bs < qemud_header_size + body_size bs then None
      else Some (string_of_bytes (take (body_size bs) (drop qemud_header_size bs)),
                 drop (qemud_header_size + body_size bs) bs))"

definition qemud_frame :: "string \<Rightarrow> bytes" where
  "qemud_frame s = send_header (length s) @ bytes_of s"

lemma body_size_append: "qemud_header_size \<le> length bs \<Longrightarrow> body_size (bs @ cs) = body_size bs"
  by (simp add: body_size_def)

interpretation qemud: framed_codec qemud_next qemud_frame "\<lambda>s. length s < 65536"
proof unfold_locales
  fix bs m rest
  assume "qemud_next bs = Some (m, rest)"
  then show "length rest < length bs"
    by (auto simp: qemud_next_def qemud_header_size_def split: if_splits)
next
  fix bs m rest cs
  assume "qemud_next bs = Some (m, rest)"
  then show "qemud_next (bs @ cs) = Some (m, rest @ cs)"
    by (auto simp: qemud_next_def body_size_append split: if_splits)
next
  fix s :: string and rest
  assume "length s < 65536"
  then show "qemud_next (qemud_frame s @ rest) = Some (s, rest)"
    using body_size_send_header(1) [of "length s"]
      body_size_send_header(2) [of "length s" "bytes_of s @ rest"]
    by (simp add: qemud_next_def qemud_frame_def qemud_header_size_def)
qed

lemma process_commands_None: "qemud_next bs = None \<Longrightarrow> process_commands bs = ([], bs)"
  by (subst process_commands.simps) (auto simp: qemud_next_def Let_def split: if_splits)

lemma process_commands_Some:
  assumes "qemud_next bs = Some (c, rest)" "length bs < 2 ^ 64"
  shows "process_commands bs =
    (if 2 * length rest = length bs then ([c], rest)
     else (c # fst (process_commands rest), snd (process_commands rest)))"
proof -
  let ?n = "qemud_header_size + body_size bs"
  from assms(1) have n: "qemud_header_size \<le> length bs" "?n \<le> length bs" "rest = drop ?n bs"
      "c = string_of_bytes (take (body_size bs) (drop qemud_header_size bs))"
    by (auto simp: qemud_next_def split: if_splits)
  then have "length rest = length bs - ?n" by simp
  then have r: "length rest < 2 ^ 64" "?n < 2 ^ 64" "length rest = ?n \<longleftrightarrow> 2 * length rest = length bs"
    using n(2) assms(2) by auto
  have "(of_nat (length rest) - of_nat ?n :: u64) \<le> 0 \<longleftrightarrow> (of_nat (length rest) :: u64) = of_nat ?n"
    by simp
  also have "\<dots> \<longleftrightarrow> length rest = ?n"
    using r(1,2) by (metis of_nat_inverse_u64)
  finally have q: "(of_nat (length rest) - of_nat ?n :: u64) \<le> 0 \<longleftrightarrow> 2 * length rest = length bs"
    using r(3) by simp
  have "process_commands bs =
      (if (of_nat (length rest) - of_nat ?n :: u64) \<le> 0 then ([c], rest)
       else (case process_commands rest of (cs, r) \<Rightarrow> (c # cs, r)))"
    using n by (subst process_commands.simps) (simp add: Let_def del: word_le_0_iff)
  then show ?thesis unfolding q by (simp split: prod.split)
qed

text \<open>
  The loop takes a prefix of the commands that are there, in order; what it leaves is
  either no complete command, or exactly as long as the command it handled last.
\<close>

lemma process_commands_prefix:
  "length bs < 2 ^ 64 \<Longrightarrow> process_commands bs = (cs, r) \<Longrightarrow>
    drain qemud_next bs = (cs @ fst (drain qemud_next r), snd (drain qemud_next r))"
proof (induction bs arbitrary: cs rule: length_induct)
  case (1 bs)
  show ?case
  proof (cases "qemud_next bs")
    case None
    with 1 show ?thesis by (simp add: process_commands_None)
  next
    case (Some p)
    then obtain c rest where p: "qemud_next bs = Some (c, rest)" by (cases p) auto
    then have l: "length rest < length bs" by (rule qemud.nxt_shrinks)
    show ?thesis
    proof (cases "2 * length rest = length bs")
      case True
      with 1 p show ?thesis by (simp add: process_commands_Some qemud.drain_Some [OF p])
    next
      case False
      then obtain cs' where "process_commands rest = (cs', r)" "cs = c # cs'"
        using 1 p by (cases "process_commands rest") (auto simp: process_commands_Some)
      with 1 l show ?thesis by (simp add: qemud.drain_Some [OF p])
    qed
  qed
qed

lemma retrieve_icon_blocks:
  "concat (retrieve_icon icon) = take (length icon div 1024 * 1024) icon"
proof (induction icon rule: retrieve_icon.induct)
  case (1 icon)
  show ?case
  proof (cases "length icon < 1024")
    case True
    then show ?thesis by (simp add: retrieve_icon.simps)
  next
    case False
    then have "length icon div 1024 = Suc ((length icon - 1024) div 1024)"
      by (simp add: le_div_geq)
    moreover have "retrieve_icon icon = take 1024 icon # retrieve_icon (drop 1024 icon)"
      using False by (subst retrieve_icon.simps) simp
    ultimately show ?thesis using 1 False by (simp add: take_add)
  qed
qed

section \<open>Properties\<close>

text \<open>
  C30. The qemud parser loses, duplicates and reorders no command. Take any list of commands
  shorter than 64 KiB, framed one after the other and followed by any bytes that hold no
  complete command; the commands handled by a \<open>process_commands\<close> on these bytes are the first
  ones of the list, in order, and the buffer it keeps still holds the frames of all others and
  the trailing bytes.
\<close>

theorem qemud_commands_in_order:
  assumes "\<forall>c \<in> set cs. length c < 65536" and "qemud_next tail = None"
    and "length (concat (map qemud_frame cs) @ tail) < 2 ^ 64"
    and "process_commands (concat (map qemud_frame cs) @ tail) = (handled, buffer)"
  shows "cs = handled @ fst (drain qemud_next buffer) \<and> snd (drain qemud_next buffer) = tail"
  using process_commands_prefix [OF assms(3,4)] qemud.drain_frames [OF assms(1), of tail]
    qemud.drain_None [OF assms(2)]
  by simp

theorem qemud_commands_in_order_witness:
  "[''ab''] = fst (process_commands (qemud_frame ''ab'' @ [48])) @
     fst (drain qemud_next (snd (process_commands (qemud_frame ''ab'' @ [48]))))"
proof -
  have n: "qemud_next [48] = None" by (simp add: qemud_next_def qemud_header_size_def)
  have l: "length (concat (map qemud_frame [''ab'']) @ [48]) < 2 ^ 64"
    by (simp add: qemud_frame_def body_size_send_header(1))
  obtain handled buffer where p: "process_commands (qemud_frame ''ab'' @ [48]) = (handled, buffer)"
    by fastforce
  show ?thesis
    using qemud_commands_in_order [of "[''ab'']" "[48]" handled buffer] n l p by simp
qed

text \<open>
  A command can be left waiting although it is complete: of two commands of the same
  length that arrive in one read, only the first is handled, and the second stays in the
  buffer until more bytes arrive (line 71 subtracts the bytes consumed twice).
\<close>

theorem qemud_second_command_delayed:
  assumes "length c = length d" and "length c < 65536"
  shows "process_commands (qemud_frame c @ qemud_frame d) = ([c], qemud_frame d) \<and>
    qemud_next (qemud_frame d) = Some (d, [])"
proof -
  have n: "qemud_next (qemud_frame c @ qemud_frame d) = Some (c, qemud_frame d)"
      "qemud_next (qemud_frame d) = Some (d, [])"
    using assms qemud.nxt_frame [of c "qemud_frame d"] qemud.nxt_frame [of d "[]"] by simp_all
  have "length (qemud_frame c) = length (qemud_frame d)" "length (qemud_frame d) < 2 ^ 63"
    using assms by (simp_all add: qemud_frame_def body_size_send_header(1))
  with process_commands_Some [OF n(1)] n(2) show ?thesis by simp
qed

theorem qemud_second_command_delayed_witness:
  "process_commands (qemud_frame ''list'' @ qemud_frame ''stop'') = ([''list''], qemud_frame ''stop'')"
  using qemud_second_command_delayed [of "''list''" "''stop''"] by simp

text \<open>
  The boot animation service sends only the whole blocks of 1024 bytes of the icon: the
  concatenation of what it sends is the icon without its last \<open>length mod 1024\<close> bytes, so
  nothing at all for a file smaller than one block.
\<close>

theorem bootanimation_truncates_icon:
  "concat (bootanimation_handle_command icon ''retrieve-icon'') =
     take (length icon - length icon mod 1024) icon"
  by (simp add: bootanimation_handle_command_def retrieve_icon_blocks minus_mod_eq_div_mult)

end
