(* ===== verification/At_Modem.thy ===== *)
theory At_Modem
  imports Framing Text_Utils
begin

text \<open>
  The AT command parser (\<open>qemu/at_parser.cpp\<close>) and the GSM modem built on it
  (\<open>qemu/gsm_message_processor.cpp\<close>). A handler is a value of the datatype \<open>at_handler\<close>, the
  closures the modem registers; Boost's \<open>format\<close> of the replies that contain numbers is a
  parameter.
\<close>

section \<open>AtParser\<close>

type_synonym 'h at_handlers = "(string, 'h) omap"

definition register_command :: "string \<Rightarrow> 'h \<Rightarrow> 'h at_handlers \<Rightarrow> 'h at_handlers" where
  "register_command command handler handlers = om_insert command handler handlers"

text \<open>The loop over the map stops at the first key, in key order, the command starts with.\<close>

fun find_handler :: "'h at_handlers \<Rightarrow> string \<Rightarrow> 'h option" where
  "find_handler [] real_command = None"
| "find_handler ((key, h) # hs) real_command =
     (if string_starts_with real_command key then Some h else find_handler hs real_command)"

definition processs_command :: "'h at_handlers \<Rightarrow> string \<Rightarrow> ('h \<times> string) option" where
  "processs_command handlers command =
     (if \<not> string_starts_with command ''AT'' then None
      else
        (let real_command = drop 2 command
         in map_option (\<lambda>h. (h, real_command)) (find_handler handlers real_command)))"

definition is_eol :: "byte \<Rightarrow> bool" where
  "is_eol b \<longleftrightarrow> b = 0x0A \<or> b = 0x0D"

text \<open>
  The scan of \<open>process_data\<close>: \<open>pos\<close> runs over the data, \<open>bytes_processed\<close> is where the current
  line starts. It returns the lines found and \<open>bytes_processed\<close>.
\<close>

function at_scan :: "bytes \<Rightarrow> nat \<Rightarrow> nat \<Rightarrow> string list \<times> nat" where
  "at_scan data pos bytes_processed =
     (if pos < length data then
        if is_eol (data ! pos)
        then (case at_scan data (pos + 1) (bytes_processed + (pos - bytes_processed) + 1) of
                (cs, n) \<Rightarrow>
                  (string_of_bytes (take (pos - bytes_processed) (drop bytes_processed data)) # cs, n))
        else at_scan data (pos + 1) bytes_processed
      else ([], bytes_processed))"
  by pat_completeness auto

termination by (relation "measure (\<lambda>(data, pos, n). length data - pos)") auto

declare at_scan.simps [simp del]

text \<open>The handler calls of one \<open>process_data\<close>, in order, and the data it leaves.\<close>

definition at_process_data :: "'h at_handlers \<Rightarrow> bytes \<Rightarrow> ('h \<times> string) list \<times> bytes" where
  "at_process_data handlers data =
     (case at_scan data 0 0 of
        (cs, bytes_processed) \<Rightarrow>
          (List.map_filter (processs_command handlers) cs, drop bytes_processed data))"

section \<open>GsmMessageProcessor\<close>

datatype at_handler = Ok_reply | Handle_ctec | Handle_cmgf | Handle_creg | Handle_cgreg | Handle_cfun

definition gsm_handlers :: "at_handler at_handlers" where
  "gsm_handlers =
     foldl (\<lambda>hs (c, h). register_command c h hs) []
       [(''E0Q0V1'', Ok_reply), (''S0=0'', Ok_reply), (''+CTEC'', Handle_ctec), (''+CMEE=1'', Ok_reply),
        (''+CCWA=1'', Ok_reply), (''+CMOD=0'', Ok_reply), (''+CMUT=0'', Ok_reply),
        (''+CSSN=0,1'', Ok_reply), (''+COLP=0'', Ok_reply),
        (''+CSCS='' @ [CHR 0x22] @ ''HEX'' @ [CHR 0x22], Ok_reply), (''+CUSD=1'', Ok_reply),
        (''+CGEREP=1,0'', Ok_reply), (''+CMGF'', Handle_cmgf), (''%CPI=3'', Ok_reply),
        (''%CSTAT=1'', Ok_reply), (''+CREG'', Handle_creg), (''+CGREG'', Handle_cgreg),
        (''+CFUN'', Handle_cfun)]"

text \<open>\<open>send_reply\<close>: the text formatted by \<open>"%s\rOK\n"\<close>.\<close>

definition send_reply :: "string \<Rightarrow> bytes list" where
  "send_reply message = [bytes_of (message @ [CHR 0x0D] @ ''OK'' @ [CHR 0x0A])]"

definition handle_ctec :: "(string \<Rightarrow> int list \<Rightarrow> string) \<Rightarrow> string \<Rightarrow> bytes list" where
  "handle_ctec format command =
     (if command = ''+CTEC=?'' then send_reply ''+CTEC: 0,1,2,3''
      else if command = ''+CTEC?'' then send_reply (format ''+CTEC: %d,%x'' [0, 15])
      else [])"

definition handle_cmgf :: "string \<Rightarrow> bytes list" where
  "handle_cmgf command = (if command = ''+CMGF=0'' then send_reply [] else [])"

definition handle_creg :: "(string \<Rightarrow> int list \<Rightarrow> string) \<Rightarrow> string \<Rightarrow> bytes list" where
  "handle_creg format command =
     (if command = ''+CREG=?'' then send_reply ''+CREG: (0-2)''
      else if command = ''+CREG?'' then send_reply (format ''+CREF: %d,%d'' [0, 0])
      else if string_starts_with command ''+CREG='' then send_reply []
      else [])"

definition handle_cgreg :: "(string \<Rightarrow> int list \<Rightarrow> string) \<Rightarrow> string \<Rightarrow> bytes list" where
  "handle_cgreg format command =
     (if command = ''+CGREG=?'' then send_reply ''+CGREG: (0-2)''
      else if command = ''+CGREG?'' then send_reply (format ''+CGREG: %d,%d'' [0, 0])
      else if string_starts_with command ''+CGREG='' then send_reply []
      else [])"

definition handle_cfun :: "(string \<Rightarrow> int list \<Rightarrow> string) \<Rightarrow> string \<Rightarrow> bytes list" where
  "handle_cfun format command =
     (if command = ''+CFUN?'' then send_reply (format ''+CFUN: %d'' [1])
      else if string_starts_with command ''+CFUN='' then send_reply []
      else [])"

fun gsm_handle :: "(string \<Rightarrow> int list \<Rightarrow> string) \<Rightarrow> at_handler \<times> string \<Rightarrow> bytes list" where
  "gsm_handle format (Ok_reply, c) = send_reply ''OK''"
| "gsm_handle format (Handle_ctec, c) = handle_ctec format c"
| "gsm_handle format (Handle_cmgf, c) = handle_cmgf c"
| "gsm_handle format (Handle_creg, c) = handle_creg format c"
| "gsm_handle format (Handle_cgreg, c) = handle_cgreg format c"
| "gsm_handle format (Handle_cfun, c) = handle_cfun format c"

text \<open>One read: what the modem sends and the bytes it keeps.\<close>

definition gsm_process_data ::
  "(string \<Rightarrow> int list \<Rightarrow> string) \<Rightarrow> bytes \<Rightarrow> bytes \<Rightarrow> bytes list \<times> bytes" where
  "gsm_process_data format data buffer =
     (case at_process_data gsm_handlers (buffer @ data) of
        (calls, buffer') \<Rightarrow> (concat (map (gsm_handle format) calls), buffer'))"

section \<open>Lines\<close>

definition at_next :: "bytes \<Rightarrow> (string \<times> bytes) option" where
  "at_next bs =
     (let line = takeWhile (\<lambda>b. \<not> is_eol b) bs
      in if length line < length bs then Some (string_of_bytes line, drop (length line + 1) bs) else None)"

definition at_line :: "string \<Rightarrow> bytes" where
  "at_line s = bytes_of s @ [0x0D]"

definition plain :: "string \<Rightarrow> bool" where
  "plain s \<longleftrightarrow> (\<forall>c \<in> set s. c \<noteq> CHR 0x0A \<and> c \<noteq> CHR 0x0D)"

lemma not_eol_of_char: "c \<noteq> CHR 0x0A \<Longrightarrow> c \<noteq> CHR 0x0D \<Longrightarrow> \<not> is_eol (byte_of_char c)"
proof
  assume c: "c \<noteq> CHR 0x0A" "c \<noteq> CHR 0x0D" and "is_eol (byte_of_char c)"
  then consider "byte_of_char c = 0x0A" | "byte_of_char c = 0x0D" by (auto simp: is_eol_def)
  then show False
  proof cases
    case 1
    then have "char_of_byte (byte_of_char c) = char_of_byte 0x0A" by simp
    moreover have "char_of_byte 0x0A = CHR 0x0A" by code_simp
    ultimately show False using c by simp
  next
    case 2
    then have "char_of_byte (byte_of_char c) = char_of_byte 0x0D" by simp
    moreover have "char_of_byte 0x0D = CHR 0x0D" by code_simp
    ultimately show False using c by simp
  qed
qed

lemma takeWhile_plain: "plain s \<Longrightarrow> takeWhile (\<lambda>b. \<not> is_eol b) (bytes_of s @ [0x0D] @ rest) = bytes_of s"
  by (induction s) (auto simp: plain_def bytes_of_def is_eol_def [of "0x0D"] not_eol_of_char)

interpretation at: framed_codec at_next at_line plain
proof unfold_locales
  fix bs m rest
  assume "at_next bs = Some (m, rest)"
  then show "length rest < length bs" by (auto simp: at_next_def Let_def split: if_splits)
next
  fix bs m rest cs
  assume a: "at_next bs = Some (m, rest)"
  let ?l = "takeWhile (\<lambda>b. \<not> is_eol b) bs"
  from a have l: "length ?l < length bs" "m = string_of_bytes ?l" "rest = drop (length ?l + 1) bs"
    by (auto simp: at_next_def Let_def split: if_splits)
  have "\<exists>x \<in> set bs. is_eol x"
    using l(1) by (metis less_irrefl takeWhile_eq_all_conv)
  then have "takeWhile (\<lambda>b. \<not> is_eol b) (bs @ cs) = ?l" by (auto intro: takeWhile_append1)
  with l show "at_next (bs @ cs) = Some (m, rest @ cs)" by (simp add: at_next_def Let_def)
next
  fix s :: string and rest
  assume "plain s"
  then show "at_next (at_line s @ rest) = Some (s, rest)"
    using takeWhile_plain [of s rest] by (simp add: at_next_def at_line_def)
qed

lemma at_next_at:
  assumes "n \<le> pos" "pos < length data" "is_eol (data ! pos)"
    and "\<forall>i. n \<le> i \<and> i < pos \<longrightarrow> \<not> is_eol (data ! i)"
  shows "at_next (drop n data) =
    Some (string_of_bytes (take (pos - n) (drop n data)), drop (pos + 1) data)"
proof -
  have "takeWhile (\<lambda>b. \<not> is_eol b) (drop n data) = take (pos - n) (drop n data)"
    using assms by (intro takeWhile_eq_take_P_nth) auto
  with assms show ?thesis by (simp add: at_next_def Let_def)
qed

lemma at_next_none:
  assumes "\<forall>i. n \<le> i \<and> i < length data \<longrightarrow> \<not> is_eol (data ! i)"
  shows "at_next (drop n data) = None"
proof -
  have "\<forall>x \<in> set (drop n data). \<not> is_eol x"
    using assms by (auto simp: in_set_conv_nth)
  then have "takeWhile (\<lambda>b. \<not> is_eol b) (drop n data) = drop n data" by simp
  then show ?thesis unfolding at_next_def Let_def by (simp only: less_irrefl if_False)
qed

lemma at_scan_end: "\<not> pos < length data \<Longrightarrow> at_scan data pos n = ([], n)"
  by (subst at_scan.simps) simp

lemma at_scan_eol:
  "pos < length data \<Longrightarrow> is_eol (data ! pos) \<Longrightarrow> n \<le> pos \<Longrightarrow> at_scan data pos n =
    (string_of_bytes (take (pos - n) (drop n data)) # fst (at_scan data (pos + 1) (pos + 1)),
     snd (at_scan data (pos + 1) (pos + 1)))"
  by (subst at_scan.simps) (simp split: prod.split)

lemma at_scan_other:
  "pos < length data \<Longrightarrow> \<not> is_eol (data ! pos) \<Longrightarrow> at_scan data pos n = at_scan data (pos + 1) n"
  by (subst at_scan.simps) simp

lemma at_scan_drain:
  "n \<le> pos \<Longrightarrow> pos \<le> length data \<Longrightarrow> \<forall>i. n \<le> i \<and> i < pos \<longrightarrow> \<not> is_eol (data ! i) \<Longrightarrow>
    at_scan data pos n = (cs, k) \<Longrightarrow> drain at_next (drop n data) = (cs, drop k data)"
proof (induction data pos n arbitrary: cs rule: at_scan.induct)
  case (1 data pos n)
  show ?case
  proof (cases "pos < length data")
    case False
    with "1.prems" show ?thesis
      by (auto simp: at_scan_end at.drain_None [OF at_next_none])
  next
    case True
    show ?thesis
    proof (cases "is_eol (data ! pos)")
      case eol: True
      obtain cs' where cs': "at_scan data (pos + 1) (pos + 1) = (cs', k)"
          "cs = string_of_bytes (take (pos - n) (drop n data)) # cs'"
        using "1.prems" True eol
        by (cases "at_scan data (pos + 1) (pos + 1)") (simp add: at_scan_eol)
      moreover have "drain at_next (drop (pos + 1) data) = (cs', drop k data)"
        using "1.IH"(1) [OF True eol, of cs'] cs'(1) "1.prems"(1) True by force
      moreover have "at_next (drop n data) =
          Some (string_of_bytes (take (pos - n) (drop n data)), drop (pos + 1) data)"
        using "1.prems" True eol by (intro at_next_at) auto
      ultimately show ?thesis by (simp add: at.drain_Some)
    next
      case False
      with "1.prems" True have "at_scan data (pos + 1) n = (cs, k)"
        by (simp add: at_scan_other)
      moreover have "\<forall>i. n \<le> i \<and> i < pos + 1 \<longrightarrow> \<not> is_eol (data ! i)"
        using "1.prems"(3) False by (metis less_SucE Suc_eq_plus1)
      ultimately show ?thesis
        using "1.IH"(2) [OF True False, of cs] "1.prems" True by auto
    qed
  qed
qed

lemma at_process_data_drain:
  "at_process_data handlers data =
    (List.map_filter (processs_command handlers) (fst (drain at_next data)), snd (drain at_next data))"
proof -
  obtain cs k where s: "at_scan data 0 0 = (cs, k)" by fastforce
  from at_scan_drain [OF _ _ _ s] have "drain at_next data = (cs, drop k data)" by simp
  with s show ?thesis by (simp add: at_process_data_def)
qed

text \<open>
  No registered command is a prefix of another, so at most one handler matches and the
  order of the table does not matter.
\<close>

lemma find_handler_Some:
  assumes "find_handler hs c = Some h"
  shows "\<exists>k. (k, h) \<in> set hs \<and> string_starts_with c k"
  using assms by (induction hs c rule: find_handler.induct) (auto split: if_splits)

definition prefix_free :: "string list \<Rightarrow> bool" where
  "prefix_free ks \<longleftrightarrow>
     (\<forall>i < length ks. \<forall>j < length ks. i \<noteq> j \<longrightarrow> \<not> string_starts_with (ks ! i) (ks ! j))"

lemma starts_with_two:
  assumes "string_starts_with c k" "string_starts_with c l"
  shows "string_starts_with k l \<or> string_starts_with l k"
proof (cases "length k \<le> length l")
  case True
  with assms have "take (length k) l = k"
    by (metis (no_types) string_starts_with_def min.absorb1 take_take)
  then show ?thesis by (simp add: string_starts_with_def)
next
  case False
  with assms have "take (length l) k = l"
    by (metis (no_types) string_starts_with_def min.absorb1 nle_le take_take)
  then show ?thesis by (simp add: string_starts_with_def)
qed

lemma prefix_free_unique:
  assumes "prefix_free ks" "k \<in> set ks" "l \<in> set ks"
    and "string_starts_with c k" "string_starts_with c l"
  shows "k = l"
proof -
  obtain i j where ij: "i < length ks" "ks ! i = k" "j < length ks" "ks ! j = l"
    using assms(2,3) by (auto simp: in_set_conv_nth)
  then show ?thesis
    using assms(1) starts_with_two [OF assms(4,5)] by (auto simp: prefix_free_def)
qed

lemma find_handler_unique:
  assumes "prefix_free (map fst hs)" "distinct (map fst hs)" "(k, h) \<in> set hs" "string_starts_with c k"
  shows "find_handler hs c = Some h"
proof -
  have "find_handler hs c \<noteq> None"
    using assms(3,4) by (induction hs) (auto split: if_splits)
  then obtain h' where h': "find_handler hs c = Some h'" by blast
  from find_handler_Some [OF h'] obtain k' where k': "(k', h') \<in> set hs" "string_starts_with c k'"
    by blast
  have "k \<in> set (map fst hs)" "k' \<in> set (map fst hs)"
    using k'(1) assms(3) by (simp_all add: rev_image_eqI)
  with prefix_free_unique [OF assms(1) _ _ k'(2) assms(4)] have "k' = k" by blast
  with k'(1) have "(k, h') \<in> set hs" by simp
  from eq_key_imp_eq_value [OF assms(2,3) this] h' show ?thesis by simp
qed

section \<open>Properties\<close>

text \<open>
  C31. The AT parser works on complete lines, in order: for lines without line breaks, each
  ended by a carriage return, followed by an unfinished line, the handlers called are those of the
  lines, in order, lines without handler and lines that do not start with AT skipped, and the
  unfinished line stays in the buffer.
\<close>

theorem at_lines_in_order:
  assumes "\<forall>l \<in> set ls. plain l" "plain tail"
  shows "at_process_data handlers (concat (map at_line ls) @ bytes_of tail) =
    (List.map_filter (processs_command handlers) ls, bytes_of tail)"
proof -
  have "takeWhile (\<lambda>b. \<not> is_eol b) (bytes_of tail) = bytes_of tail"
    using assms(2) not_eol_of_char
    by (auto simp: plain_def bytes_of_def takeWhile_eq_all_conv)
  then have "at_next (bytes_of tail) = None"
    unfolding at_next_def Let_def by (simp only: less_irrefl if_False)
  with at.drain_frames [OF assms(1), of "bytes_of tail"] show ?thesis
    by (simp add: at_process_data_drain at.drain_None)
qed

theorem at_lines_in_order_witness:
  "at_process_data [(''+CFUN'', True)] (concat (map at_line [''AT+CFUN?'', ''XY'']) @ bytes_of ''AT'') =
     ([(True, ''+CFUN?'')], bytes_of ''AT'')"
  using at_lines_in_order [of "[''AT+CFUN?'', ''XY'']" "''AT''" "[(''+CFUN'', True)]"]
  by (simp add: plain_def processs_command_def string_starts_with_def List.map_filter_simps)

text \<open>
  The modem's table is unambiguous: it is ordered, no registered command is a prefix of
  another, and therefore a command that starts with a registered one reaches exactly the
  handler registered for it, independently of the order in which the table is searched.
\<close>

theorem gsm_dispatch_unambiguous:
  assumes "(k, h) \<in> set gsm_handlers" "string_starts_with c k"
  shows "length gsm_handlers = 18 \<and> om_wf gsm_handlers \<and>
    processs_command gsm_handlers (''AT'' @ c) = Some (h, c)"
proof -
  have t: "length gsm_handlers = 18" "om_wf gsm_handlers" "prefix_free (map fst gsm_handlers)"
    by code_simp+
  with find_handler_unique [OF t(3) om_wf_distinct [OF t(2)] assms] show ?thesis
    by (simp add: processs_command_def string_starts_with_def)
qed

theorem gsm_dispatch_unambiguous_witness:
  "processs_command gsm_handlers ''AT+CREG?'' = Some (Handle_creg, ''+CREG?'')"
proof -
  have m: "(''+CREG'', Handle_creg) \<in> set gsm_handlers" by code_simp
  show ?thesis
    using gsm_dispatch_unambiguous [OF m, of "''+CREG?''"] by (simp add: string_starts_with_def)
qed

end
