(* ===== verification/Adb_Proxy.thy ===== *)
theory Adb_Proxy
  imports Anbox_Prelude
begin

text \<open>
  The proxy between the adb server of the host and the adb daemon in the container
  (\<open>qemu/adb_message_processor.cpp\<close>), a state machine driven by data from the guest, by
  incoming host connections and by completed reads from the host. The process-wide mutex
  \<open>active_instance_\<close> is an input of the step that locks it: when another processor holds it, the
  call blocks and the step has no result. Boost's \<open>format\<close> of the handshake is a parameter.
\<close>

datatype adb_state =
    Waiting_for_guest_accept_command
  | Waiting_for_host_connection
  | Waiting_for_guest_start_command
  | Proxying_data
  | Closed_by_container
  | Closed_by_host

definition accept_command :: string where "accept_command = ''accept''"
definition ok_command :: string where "ok_command = ''ok''"
definition start_command :: string where "start_command = ''start''"
definition default_host_listen_port :: nat where "default_host_listen_port = 5559"

datatype adb_effect =
    To_guest bytes
  | To_host bytes
  | Close_guest
  | Listen_on nat
  | Notify_adb_server bytes
  | Read_host

record adb =
  adb_st :: adb_state
  adb_expected_command :: string
  adb_buffer :: bytes
  adb_host_connector :: bool   \<comment> \<open>\<open>host_connector_\<close> is set\<close>
  adb_host_messenger :: bool   \<comment> \<open>\<open>host_messenger_\<close> is set\<close>
  adb_locked :: bool           \<comment> \<open>\<open>lock_\<close> owns the mutex\<close>
  adb_trace :: "adb_effect list"

record adb_env =
  env_mutex_free :: bool       \<comment> \<open>no other processor holds \<open>active_instance_\<close>\<close>
  env_can_listen :: bool       \<comment> \<open>the listening port can be bound\<close>
  env_adb_server_up :: bool    \<comment> \<open>connecting to the adb server and sending succeed\<close>
  env_handshake :: "nat \<Rightarrow> string"

definition new_adb :: adb where
  "new_adb = \<lparr>adb_st = Waiting_for_guest_accept_command, adb_expected_command = accept_command,
     adb_buffer = [], adb_host_connector = False, adb_host_messenger = False, adb_locked = False,
     adb_trace = []\<rparr>"

definition adb_emit :: "adb_effect \<Rightarrow> adb \<Rightarrow> adb" where
  "adb_emit e a = a\<lparr>adb_trace := adb_trace a @ [e]\<rparr>"

definition wait_for_host_connection :: "adb_env \<Rightarrow> adb \<Rightarrow> unit res \<times> adb" where
  "wait_for_host_connection env a =
     (if adb_st a \<noteq> Waiting_for_guest_accept_command then (Inr (), a)
      else if \<not> adb_host_connector a \<and> \<not> env_can_listen env
      then (Inl (System_error ''bind''), a)
      else
        (let a = (if adb_host_connector a then a
                  else adb_emit (Listen_on default_host_listen_port) (a\<lparr>adb_host_connector := True\<rparr>));
             a = (if env_adb_server_up env
                  then adb_emit (Notify_adb_server (bytes_of (env_handshake env default_host_listen_port))) a
                  else a)
         in (Inr (), a)))"

definition read_next_host_message :: "adb \<Rightarrow> unit res \<times> adb" where
  "read_next_host_message a =
     (if adb_host_messenger a then (Inr (), adb_emit Read_host a)
      else (Inl (Undefined ''null host_messenger_''), a))"

text \<open>\<open>None\<close>: the call blocks on the mutex. Locking a lock that is already owned throws.\<close>

definition advance_state :: "adb_env \<Rightarrow> adb \<Rightarrow> (unit res \<times> adb) option" where
  "advance_state env a =
     (case adb_st a of
        Waiting_for_guest_accept_command \<Rightarrow>
          if adb_locked a then Some (Inl (System_error ''resource deadlock would occur''), a)
          else if \<not> env_mutex_free env then None
          else Some (wait_for_host_connection env (a\<lparr>adb_locked := True\<rparr>))
      | Waiting_for_host_connection \<Rightarrow>
          Some (Inr (), (adb_emit (To_guest (bytes_of ok_command)) a)
            \<lparr>adb_st := Waiting_for_guest_start_command, adb_expected_command := start_command\<rparr>)
      | Waiting_for_guest_start_command \<Rightarrow>
          Some (read_next_host_message (a\<lparr>adb_st := Proxying_data\<rparr>))
      | Proxying_data \<Rightarrow> Some (Inr (), a)
      | Closed_by_host \<Rightarrow> Some (Inr (), adb_emit Close_guest a)
      | Closed_by_container \<Rightarrow> Some (Inr (), a))"

definition on_host_connection :: "adb \<Rightarrow> adb" where
  "on_host_connection a =
     (adb_emit (To_guest (bytes_of ok_command)) (a\<lparr>adb_host_messenger := True\<rparr>))
       \<lparr>adb_st := Waiting_for_guest_start_command, adb_expected_command := start_command\<rparr>"

datatype host_read = Host_canceled | Host_error | Host_data bytes

definition on_host_read_size :: "host_read \<Rightarrow> adb \<Rightarrow> unit res \<times> adb" where
  "on_host_read_size r a =
     (case r of
        Host_canceled \<Rightarrow> (Inr (), a)
      | Host_error \<Rightarrow> (Inr (), adb_emit Close_guest (a\<lparr>adb_st := Closed_by_host\<rparr>))
      | Host_data d \<Rightarrow> read_next_host_message (adb_emit (To_guest d) a))"

text \<open>
  The comparison of \<open>process_data\<close> has the length of the new data, not of the command: \<open>memcmp\<close>
  reads that many bytes of the buffer and of the command, whose storage ends with a NUL.
\<close>

definition memcmp_command :: "bytes \<Rightarrow> string \<Rightarrow> nat \<Rightarrow> bool res" where
  "memcmp_command buffer command n =
     (if n > length command + 1 \<or> n > length buffer then Inl (Undefined ''memcmp past the end'')
      else Inr (take n buffer = take n (bytes_of command @ [0])))"

definition adb_process_data :: "adb_env \<Rightarrow> bytes \<Rightarrow> adb \<Rightarrow> (bool res \<times> adb) option" where
  "adb_process_data env data a =
     (if adb_st a = Proxying_data then
        if adb_host_messenger a then Some (Inr True, adb_emit (To_host data) a)
        else Some (Inl (Undefined ''null host_messenger_''), a)
      else
        (let a = a\<lparr>adb_buffer := adb_buffer a @ data\<rparr>; cmd = adb_expected_command a
         in if length cmd > 0 \<and> length (adb_buffer a) \<ge> length cmd then
              (case memcmp_command (adb_buffer a) cmd (length data) of
                 Inl e \<Rightarrow> Some (Inl e, a)
               | Inr False \<Rightarrow> Some (Inr False, a)
               | Inr True \<Rightarrow>
                   (case advance_state env (a\<lparr>adb_buffer := drop (length cmd) (adb_buffer a),
                                              adb_expected_command := []\<rparr>) of
                      None \<Rightarrow> None
                    | Some (Inl e, a') \<Rightarrow> Some (Inl e, a')
                    | Some (Inr u, a') \<Rightarrow> Some (Inr True, a')))
            else Some (Inr True, a)))"

section \<open>The state machine\<close>

datatype adb_event = Guest_data bytes | Host_connects | Host_reads host_read

text \<open>
  A host connection arrives only while the processor listens, a read from the host completes
  only after it was started; an event whose handler threw or that blocks has no step.
\<close>

inductive adb_step :: "adb_env \<Rightarrow> adb \<Rightarrow> adb_event \<Rightarrow> adb \<Rightarrow> bool" for env where
  guest: "adb_process_data env d a = Some (Inr b, a') \<Longrightarrow> adb_step env a (Guest_data d) a'"
| connect: "adb_host_connector a \<Longrightarrow> adb_step env a Host_connects (on_host_connection a)"
| read: "Read_host \<in> set (adb_trace a) \<Longrightarrow> on_host_read_size r a = (Inr (), a') \<Longrightarrow>
    adb_step env a (Host_reads r) a'"

inductive adb_steps :: "adb_env \<Rightarrow> adb \<Rightarrow> adb_event list \<Rightarrow> adb \<Rightarrow> bool" for env where
  finished: "adb_steps env a [] a"
| more: "adb_step env a e b \<Longrightarrow> adb_steps env b es c \<Longrightarrow> adb_steps env a (e # es) c"

inductive_cases adb_step_guestE: "adb_step env a (Guest_data d) a'"

definition adb_inv :: "adb \<Rightarrow> bool" where
  "adb_inv a \<longleftrightarrow>
     (adb_st a \<in> {Waiting_for_guest_start_command, Proxying_data} \<longrightarrow> adb_host_messenger a) \<and>
     (adb_host_messenger a \<longrightarrow> adb_host_connector a) \<and>
     (adb_host_connector a \<longrightarrow> adb_locked a) \<and>
     adb_st a \<noteq> Waiting_for_host_connection \<and>
     (Read_host \<in> set (adb_trace a) \<longrightarrow> adb_host_messenger a) \<and>
     (\<forall>d. To_host d \<in> set (adb_trace a) \<longrightarrow> adb_host_messenger a) \<and>
     (\<forall>d. To_guest d \<in> set (adb_trace a) \<longrightarrow> adb_host_messenger a)"

lemma adb_emit_simps [simp]:
  "adb_st (adb_emit e a) = adb_st a" "adb_host_messenger (adb_emit e a) = adb_host_messenger a"
  "adb_host_connector (adb_emit e a) = adb_host_connector a" "adb_locked (adb_emit e a) = adb_locked a"
  "adb_trace (adb_emit e a) = adb_trace a @ [e]"
  "adb_expected_command (adb_emit e a) = adb_expected_command a"
  "adb_buffer (adb_emit e a) = adb_buffer a"
  by (simp_all add: adb_emit_def)

lemma adb_inv_neutral [simp]:
  "adb_inv (adb_emit Close_guest a) = adb_inv a"
  "adb_inv (adb_emit (Listen_on p) a) = adb_inv a"
  "adb_inv (adb_emit (Notify_adb_server n) a) = adb_inv a"
  unfolding adb_inv_def by simp_all

lemma adb_inv_emit: "adb_inv a \<Longrightarrow> adb_host_messenger a \<Longrightarrow> adb_inv (adb_emit e a)"
  unfolding adb_inv_def by (elim conjE) simp

lemma adb_inv_wait:
  assumes "adb_inv a" "adb_locked a" "wait_for_host_connection env a = (r, a')"
  shows "adb_inv a' \<and> r \<noteq> Inl (Undefined ''null host_messenger_'')"
proof -
  have "adb_inv (a\<lparr>adb_host_connector := True\<rparr>)"
    using assms(1,2) unfolding adb_inv_def by simp
  with assms(1,3) show ?thesis
    by (auto simp: wait_for_host_connection_def Let_def split: if_splits)
qed

lemma adb_inv_advance:
  assumes "adb_inv a" "advance_state env a = Some (r, a')"
  shows "adb_inv a' \<and> r \<noteq> Inl (Undefined ''null host_messenger_'')"
proof (cases "adb_st a")
  case Waiting_for_guest_accept_command
  moreover have "adb_inv (a\<lparr>adb_locked := True\<rparr>)"
    using assms(1) unfolding adb_inv_def by simp
  ultimately show ?thesis
    using assms adb_inv_wait [of "a\<lparr>adb_locked := True\<rparr>" env r a']
    by (auto simp: advance_state_def split: if_splits)
next
  case Waiting_for_host_connection
  with assms show ?thesis unfolding adb_inv_def by simp
next
  case Waiting_for_guest_start_command
  then have m: "adb_host_messenger a" and i: "adb_inv (a\<lparr>adb_st := Proxying_data\<rparr>)"
    using assms(1) unfolding adb_inv_def by simp_all
  from adb_inv_emit [OF i] m assms(2) Waiting_for_guest_start_command show ?thesis
    by (auto simp: advance_state_def read_next_host_message_def)
qed (use assms adb_inv_emit in \<open>auto simp: advance_state_def\<close>)

lemma adb_inv_buffer [simp]:
  "adb_inv (a\<lparr>adb_buffer := b\<rparr>) = adb_inv a"
  "adb_inv (a\<lparr>adb_buffer := b, adb_expected_command := c\<rparr>) = adb_inv a"
  by (simp_all add: adb_inv_def)

lemma adb_inv_process:
  assumes "adb_inv a" "adb_process_data env d a = Some (r, a')"
  shows "adb_inv a' \<and> r \<noteq> Inl (Undefined ''null host_messenger_'')"
proof (cases "adb_st a = Proxying_data")
  case True
  with assms(1) have "adb_host_messenger a" unfolding adb_inv_def by simp
  with assms True adb_inv_emit show ?thesis by (auto simp: adb_process_data_def)
next
  case False
  let ?b = "a\<lparr>adb_buffer := drop (length (adb_expected_command a)) (adb_buffer a @ d),
      adb_expected_command := []\<rparr>"
  have "adb_inv ?b" using assms(1) by simp
  with assms False adb_inv_advance [of ?b env] show ?thesis
    by (auto simp: adb_process_data_def Let_def memcmp_command_def
        split: if_splits sum.splits bool.splits option.splits prod.splits)
qed

lemma adb_step_inv [wf_intros]: "adb_step env a e a' \<Longrightarrow> adb_inv a \<Longrightarrow> adb_inv a'"
proof (induction rule: adb_step.induct)
  case (guest d a b a')
  then show ?case using adb_inv_process by blast
next
  case (connect a)
  then show ?case by (auto simp: on_host_connection_def adb_inv_def)
next
  case (read a r a')
  then show ?case
    by (auto simp: on_host_read_size_def adb_inv_def read_next_host_message_def
        split: host_read.splits if_splits)
qed

lemma adb_steps_inv: "adb_steps env a es a' \<Longrightarrow> adb_inv a \<Longrightarrow> adb_inv a'"
  by (induction rule: adb_steps.induct) (auto intro: adb_step_inv)

lemma new_adb_inv: "adb_inv new_adb"
  by (simp add: adb_inv_def new_adb_def)

lemma adb_accept:
  assumes "env_mutex_free env" "env_can_listen env"
    and "adb_st a = Waiting_for_guest_accept_command" "adb_expected_command a = accept_command"
      "\<not> adb_locked a" "\<not> adb_host_connector a"
    and "length (adb_buffer a @ d) = length accept_command"
    and "memcmp_command (adb_buffer a @ d) accept_command (length d) = Inr True"
  shows "\<exists>a'. adb_process_data env d a = Some (Inr True, a') \<and> adb_host_connector a' \<and>
    adb_locked a' \<and> adb_buffer a' = [] \<and> adb_expected_command a' = [] \<and>
    adb_st a' = Waiting_for_guest_accept_command \<and>
    Listen_on default_host_listen_port \<in> set (adb_trace a')"
  using assms
  by (simp add: adb_process_data_def Let_def advance_state_def wait_for_host_connection_def
      accept_command_def)

section \<open>Properties\<close>

text \<open>
  C32. In every state the proxy can reach from its creation, through any interleaving of guest
  data, host connections and host reads: a host connection exists whenever the state is
  waiting for the start command or proxying, the processor holds the process-wide lock
  whenever it listens, and nothing was sent to the host, read from the host or sent to the
  guest before a host connected. No step dereferences a missing host connection, and
  while proxying every byte of the guest is handed to the host, unchanged and at once.
\<close>

theorem adb_reachable_safe:
  assumes "adb_steps env new_adb es a"
  shows "(adb_st a \<in> {Waiting_for_guest_start_command, Proxying_data} \<longrightarrow> adb_host_messenger a) \<and>
    (adb_host_connector a \<longrightarrow> adb_locked a) \<and>
    (\<forall>d. To_host d \<in> set (adb_trace a) \<or> To_guest d \<in> set (adb_trace a) \<or>
         Read_host \<in> set (adb_trace a) \<longrightarrow> adb_host_messenger a) \<and>
    (\<forall>d a'. adb_process_data env d a \<noteq> Some (Inl (Undefined ''null host_messenger_''), a')) \<and>
    (adb_st a = Proxying_data \<longrightarrow>
       (\<forall>d. adb_process_data env d a = Some (Inr True, a\<lparr>adb_trace := adb_trace a @ [To_host d]\<rparr>)))"
proof -
  have i: "adb_inv a" using adb_steps_inv [OF assms new_adb_inv] .
  then have "adb_st a = Proxying_data \<longrightarrow>
      (\<forall>d. adb_process_data env d a = Some (Inr True, a\<lparr>adb_trace := adb_trace a @ [To_host d]\<rparr>))"
    by (simp add: adb_process_data_def adb_inv_def adb_emit_def)
  moreover have "adb_process_data env d a \<noteq> Some (Inl (Undefined ''null host_messenger_''), a')" for d a'
    using adb_inv_process [OF i] by blast
  ultimately show ?thesis using i unfolding adb_inv_def by blast
qed

theorem adb_reachable_safe_witness:
  "\<forall>d. \<forall>a'. adb_process_data \<lparr>env_mutex_free = True, env_can_listen = True, env_adb_server_up = False,
      env_handshake = \<lambda>_. []\<rparr> d new_adb \<noteq> Some (Inl (Undefined ''null host_messenger_''), a')"
  using adb_reachable_safe [OF adb_steps.finished, of "\<lparr>env_mutex_free = True, env_can_listen = True,
      env_adb_server_up = False, env_handshake = \<lambda>_. []\<rparr>"]
  by blast

text \<open>
  The accept command is not checked as a whole: when it arrives in two reads, only the
  length of the second read is compared. For every way to write it as a first and a shorter
  or equally long second part, a guest that sends the right first part and any bytes of the length of
  the second part is accepted, and the proxy starts to listen.
\<close>

theorem adb_split_accept_unchecked:
  assumes "env_mutex_free env" "env_can_listen env"
    and "accept_command = first @ second" "length second \<le> length first"
    and "0 < length second" "length garbage = length second"
  shows "\<exists>a1 a2. adb_process_data env (bytes_of first) new_adb = Some (Inr True, a1) \<and>
    adb_process_data env garbage a1 = Some (Inr True, a2) \<and> adb_host_connector a2 \<and>
    Listen_on default_host_listen_port \<in> set (adb_trace a2)"
proof -
  let ?a1 = "new_adb\<lparr>adb_buffer := bytes_of first\<rparr>"
  have l: "length accept_command = length first + length second"
    unfolding assms(3) by simp
  have 1: "adb_process_data env (bytes_of first) new_adb = Some (Inr True, ?a1)"
  proof -
    have "\<not> length (bytes_of first) \<ge> length accept_command"
      using assms(5) l by simp
    then show ?thesis by (simp add: adb_process_data_def Let_def new_adb_def)
  qed
  have "take (length garbage) (bytes_of first @ garbage) =
      take (length garbage) (bytes_of accept_command @ [0])"
    unfolding assms(3) using assms(4,6) by simp
  then have "memcmp_command (bytes_of first @ garbage) accept_command (length garbage) = Inr True"
    using l assms(6) by (simp add: memcmp_command_def)
  then have "\<exists>a'. adb_process_data env garbage ?a1 = Some (Inr True, a') \<and> adb_host_connector a' \<and>
      adb_locked a' \<and> adb_buffer a' = [] \<and> adb_expected_command a' = [] \<and>
      adb_st a' = Waiting_for_guest_accept_command \<and>
      Listen_on default_host_listen_port \<in> set (adb_trace a')"
    using assms(1,2,6) l by (intro adb_accept) (simp_all add: new_adb_def)
  with 1 show ?thesis by blast
qed

theorem adb_split_accept_unchecked_witness:
  "\<exists>a1 a2. adb_process_data \<lparr>env_mutex_free = True, env_can_listen = True, env_adb_server_up = False,
      env_handshake = \<lambda>_. []\<rparr> (bytes_of ''acc'') new_adb = Some (Inr True, a1) \<and>
    adb_process_data \<lparr>env_mutex_free = True, env_can_listen = True, env_adb_server_up = False,
      env_handshake = \<lambda>_. []\<rparr> [1, 2, 3] a1 = Some (Inr True, a2) \<and> adb_host_connector a2"
  using adb_split_accept_unchecked [of "\<lparr>env_mutex_free = True, env_can_listen = True,
      env_adb_server_up = False, env_handshake = \<lambda>_. []\<rparr>" "''acc''" "''ept''" "[1, 2, 3]"]
  by (auto simp: accept_command_def)

end
