(* ===== verification/Pipe_Clients.thy ===== *)
theory Pipe_Clients
  imports Network Text_Utils
begin

text \<open>
  The entry point of the guest's pipes (\<open>qemu/pipe_connection_creator.cpp\<close>): a new connection
  names the service it wants, gets the message processor of that service and an id, and
  is added to the table of connections of theory \<open>Network\<close>.
\<close>

datatype client_type =
    Invalid | Opengles | Qemud_boot_properties | Qemud_hw_control | Qemud_sensors | Qemud_camera
  | Qemud_fingerprint | Qemud_gsm | Qemud_adb | Bootanimation

datatype processor_kind =
    Opengles_processor | Boot_properties_processor | Hw_control_processor | Sensors_processor
  | Camera_processor | Fingerprint_processor | Gsm_processor | Adb_processor | Null_processor

definition client_type_to_string :: "client_type \<Rightarrow> string" where
  "client_type_to_string type =
     (case type of
        Opengles \<Rightarrow> ''opengles''
      | Qemud_boot_properties \<Rightarrow> ''boot-properties''
      | Qemud_hw_control \<Rightarrow> ''hw-control''
      | Qemud_sensors \<Rightarrow> ''sensors''
      | Qemud_camera \<Rightarrow> ''camera''
      | Qemud_fingerprint \<Rightarrow> ''fingerprint''
      | Qemud_gsm \<Rightarrow> ''gsm''
      | Qemud_adb \<Rightarrow> ''adb''
      | Bootanimation \<Rightarrow> ''boot-animation''
      | Invalid \<Rightarrow> ''unknown'')"

text \<open>
  The bytes the client wrote before the connection failed or blocked: the loop stops at
  the first NUL. Without one the vector is used as a C string that has no terminator.
\<close>

definition identifier_of :: "bytes \<Rightarrow> string res" where
  "identifier_of input =
     (if 0 \<in> set input then Inr (string_of_bytes (takeWhile (\<lambda>b. b \<noteq> 0) input))
      else Inl (Undefined ''unterminated identifier''))"

definition classify :: "string \<Rightarrow> client_type" where
  "classify identifier_and_args =
     (if string_starts_with identifier_and_args ''pipe:opengles'' then Opengles
      else if string_starts_with identifier_and_args ''pipe:qemud:boot-properties''
      then Qemud_boot_properties
      else if string_starts_with identifier_and_args ''pipe:qemud:hw-control'' then Qemud_hw_control
      else if string_starts_with identifier_and_args ''pipe:qemud:sensors'' then Qemud_sensors
      else if string_starts_with identifier_and_args ''pipe:qemud:camera'' then Qemud_camera
      else if string_starts_with identifier_and_args ''pipe:qemud:fingerprintlisten''
      then Qemud_fingerprint
      else if string_starts_with identifier_and_args ''pipe:qemud:gsm'' then Qemud_gsm
      else if string_starts_with identifier_and_args ''pipe:anbox:bootanimation'' then Bootanimation
      else if string_starts_with identifier_and_args ''pipe:qemud:adb'' then Qemud_adb
      else Invalid)"

definition identify_client :: "bytes \<Rightarrow> client_type res" where
  "identify_client input = rbind (identifier_of input) (\<lambda>s. Inr (classify s))"

definition create_processor :: "client_type \<Rightarrow> processor_kind" where
  "create_processor type =
     (if type = Opengles then Opengles_processor
      else if type = Qemud_boot_properties then Boot_properties_processor
      else if type = Qemud_hw_control then Hw_control_processor
      else if type = Qemud_sensors then Sensors_processor
      else if type = Qemud_camera then Camera_processor
      else if type = Qemud_fingerprint then Fingerprint_processor
      else if type = Qemud_gsm then Gsm_processor
      else if type = Qemud_adb then Adb_processor
      else Null_processor)"

record pipe_connection =
  pco_id :: int
  pco_name :: string
  pco_processor :: processor_kind

record pipe_creator =
  pcr_next_connection_id :: int
  pcr_connections :: "pipe_connection connections"

definition new_pipe_creator :: pipe_creator where
  "new_pipe_creator = \<lparr>pcr_next_connection_id = 0, pcr_connections = []\<rparr>"

definition pipe_next_id :: "pipe_creator \<Rightarrow> int \<times> pipe_creator" where
  "pipe_next_id c =
     (pcr_next_connection_id c, c\<lparr>pcr_next_connection_id := s32 (pcr_next_connection_id c + 1)\<rparr>)"

definition create_connection_for :: "bytes \<Rightarrow> pipe_creator \<Rightarrow> (pipe_connection \<times> pipe_creator) res" where
  "create_connection_for input c =
     rbind (identify_client input) (\<lambda>type.
       let processor = create_processor type;
           (i, c') = pipe_next_id c;
           connection = \<lparr>pco_id = i, pco_name = client_type_to_string type, pco_processor = processor\<rparr>
       in Inr (connection, c'\<lparr>pcr_connections := conn_add i connection (pcr_connections c')\<rparr>))"

section \<open>Lemmas\<close>

definition service_prefix :: "client_type \<Rightarrow> string" where
  "service_prefix type =
     (case type of
        Opengles \<Rightarrow> ''pipe:opengles''
      | Qemud_boot_properties \<Rightarrow> ''pipe:qemud:boot-properties''
      | Qemud_hw_control \<Rightarrow> ''pipe:qemud:hw-control''
      | Qemud_sensors \<Rightarrow> ''pipe:qemud:sensors''
      | Qemud_camera \<Rightarrow> ''pipe:qemud:camera''
      | Qemud_fingerprint \<Rightarrow> ''pipe:qemud:fingerprintlisten''
      | Qemud_gsm \<Rightarrow> ''pipe:qemud:gsm''
      | Bootanimation \<Rightarrow> ''pipe:anbox:bootanimation''
      | Qemud_adb \<Rightarrow> ''pipe:qemud:adb''
      | Invalid \<Rightarrow> [])"

lemma starts_with_append: "string_starts_with s p \<longleftrightarrow> (\<exists>t. s = p @ t)"
  by (metis append_take_drop_id append_eq_conv_conj string_starts_with_def)

lemma classify_prefix: "type \<noteq> Invalid \<Longrightarrow> classify (service_prefix type @ args) = type"
  by (cases type) (simp_all add: service_prefix_def classify_def string_starts_with_def)

lemma classify_iff:
  "type \<noteq> Invalid \<Longrightarrow> classify s = type \<longleftrightarrow> string_starts_with s (service_prefix type)"
proof
  assume t: "type \<noteq> Invalid" and "classify s = type"
  then show "string_starts_with s (service_prefix type)"
    by (auto simp: classify_def service_prefix_def split: if_splits)
next
  assume t: "type \<noteq> Invalid" and "string_starts_with s (service_prefix type)"
  then obtain args where "s = service_prefix type @ args" by (auto simp: starts_with_append)
  with t show "classify s = type" by (simp add: classify_prefix)
qed

definition pipe_inv :: "pipe_creator \<Rightarrow> bool" where
  "pipe_inv c \<longleftrightarrow>
     om_wf (pcr_connections c) \<and> 0 \<le> pcr_next_connection_id c \<and>
     (\<forall>(i, conn) \<in> set (pcr_connections c). 0 \<le> i \<and> i < pcr_next_connection_id c \<and> pco_id conn = i)"

lemma create_connection_inv [wf_intros]:
  assumes "pipe_inv c" "pcr_next_connection_id c < 2 ^ 31 - 1"
    and "create_connection_for input c = Inr (conn, c')"
  shows "pipe_inv c' \<and> pco_id conn = pcr_next_connection_id c \<and>
    map_of (pcr_connections c) (pco_id conn) = None \<and>
    pcr_connections c' = conn_add (pco_id conn) conn (pcr_connections c)"
proof -
  let ?n = "pcr_next_connection_id c"
  from assms(1,2) have n: "s32 (?n + 1) = ?n + 1"
    by (intro s32_id) (simp add: in_s32_def pipe_inv_def)
  have "?n \<notin> fst ` set (pcr_connections c)"
    using assms(1) by (auto simp: pipe_inv_def)
  then have fresh: "map_of (pcr_connections c) ?n = None" by (simp add: map_of_eq_None_iff)
  from assms(3) n have c': "pco_id conn = ?n"
      "pcr_connections c' = om_insert ?n conn (pcr_connections c)" "pcr_next_connection_id c' = ?n + 1"
    by (auto simp: create_connection_for_def rbind_eq_Inr pipe_next_id_def conn_add_def Let_def)
  have "\<forall>(i, d) \<in> set (om_insert ?n conn (pcr_connections c)). 0 \<le> i \<and> i < ?n + 1 \<and> pco_id d = i"
    using om_set_insert [of ?n conn "pcr_connections c"] assms(1) c'(1) by (fastforce simp: pipe_inv_def)
  with assms(1) c' fresh show ?thesis by (simp add: pipe_inv_def conn_add_def)
qed

section \<open>Properties\<close>

text \<open>
  A pipe client is recognised by the prefix of its identifier alone: for every service,
  the client's type is that service exactly when the bytes before the first NUL start with
  the service's name (whatever arguments follow), so the order of the tests does not
  matter; an identifier that is never terminated is read past the end of the buffer.
\<close>

theorem pipe_client_identified:
  assumes "type \<noteq> Invalid"
  shows "(identify_client (bytes_of name @ [0] @ rest) = Inr type \<longleftrightarrow>
      (\<exists>args. takeWhile (\<lambda>b. b \<noteq> 0) (bytes_of name @ [0]) = bytes_of (service_prefix type @ args))) \<and>
    (0 \<notin> set input \<longrightarrow> identify_client input = Inl (Undefined ''unterminated identifier''))"
proof -
  have t: "takeWhile (\<lambda>b. b \<noteq> 0) (bytes_of name @ [0] @ rest) =
      takeWhile (\<lambda>b. b \<noteq> 0) (bytes_of name @ [0])"
    using takeWhile_append1 [of 0 "bytes_of name @ [0]" "\<lambda>b. b \<noteq> 0" rest] by simp
  have e: "string_of_bytes bs = s \<longleftrightarrow> bs = bytes_of s" for bs s
    by (metis bytes_of_string_of string_of_bytes_of)
  show ?thesis
    unfolding identify_client_def identifier_of_def t
    using classify_iff [OF assms] by (simp add: starts_with_append e)
qed

theorem pipe_client_identified_witness:
  "identify_client (bytes_of ''pipe:qemud:adb:5555'' @ [0] @ [1, 2]) = Inr Qemud_adb"
proof -
  have "takeWhile (\<lambda>b. b \<noteq> 0) (bytes_of ''pipe:qemud:adb:5555'' @ [0]) =
      bytes_of (service_prefix Qemud_adb @ '':5555'')" by code_simp
  then show ?thesis
    using pipe_client_identified [of Qemud_adb "''pipe:qemud:adb:5555''" "[1, 2]" "[]"]
    by (simp only: client_type.distinct) blast
qed

text \<open>
  Connection ids are never reused: as long as fewer than 2^31 - 1 connections were
  accepted, a new connection gets an id no connection in the table has, is found under that
  id, and leaves every other connection in place.
\<close>

theorem pipe_connection_ids_fresh:
  assumes "pipe_inv c" "pcr_next_connection_id c < 2 ^ 31 - 1"
    and "create_connection_for input c = Inr (conn, c')"
  shows "pipe_inv c' \<and> \<not> conn_includes (pco_id conn) (pcr_connections c) \<and>
    map_of (pcr_connections c') = (map_of (pcr_connections c))(pco_id conn \<mapsto> conn)"
  using create_connection_inv [OF assms] assms(1)
  by (auto simp: conn_includes_def conn_add_def om_lookup_insert pipe_inv_def)

theorem pipe_connection_ids_fresh_witness:
  "\<exists>conn c'. create_connection_for (bytes_of ''pipe:opengles'' @ [0]) new_pipe_creator = Inr (conn, c') \<and>
     map_of (pcr_connections c') 0 = Some conn"
proof -
  have "pipe_inv new_pipe_creator" "pcr_next_connection_id new_pipe_creator < 2 ^ 31 - 1"
    by (simp_all add: pipe_inv_def new_pipe_creator_def)
  moreover have "create_connection_for (bytes_of ''pipe:opengles'' @ [0]) new_pipe_creator =
      Inr (\<lparr>pco_id = 0, pco_name = ''opengles'', pco_processor = Opengles_processor\<rparr>,
        \<lparr>pcr_next_connection_id = 1, pcr_connections =
          [(0, \<lparr>pco_id = 0, pco_name = ''opengles'', pco_processor = Opengles_processor\<rparr>)]\<rparr>)"
    by code_simp
  ultimately show ?thesis
    using pipe_connection_ids_fresh by fastforce
qed

end
