(* ===== verification/Egl_Config.thy ===== *)
theory Egl_Config
  imports Anbox_Prelude
begin

text \<open>
  The table of framebuffer configurations offered to the guest
  (\<open>graphics/emugl/RendererConfig.cpp\<close>). The host's EGL is a parameter: its configurations, the
  attribute query, and the result of \<open>eglChooseConfig\<close>. Guest configuration ids are
  indices into the filtered list.
\<close>

section \<open>EGL tokens\<close>

definition EGL_NONE :: int where "EGL_NONE = 0x3038"
definition EGL_SURFACE_TYPE :: int where "EGL_SURFACE_TYPE = 0x3033"
definition EGL_CONFIG_ID :: int where "EGL_CONFIG_ID = 0x3028"
definition EGL_RED_SIZE :: int where "EGL_RED_SIZE = 0x3024"
definition EGL_GREEN_SIZE :: int where "EGL_GREEN_SIZE = 0x3023"
definition EGL_BLUE_SIZE :: int where "EGL_BLUE_SIZE = 0x3022"
definition EGL_PBUFFER_BIT :: int where "EGL_PBUFFER_BIT = 1"
definition EGL_WINDOW_BIT :: int where "EGL_WINDOW_BIT = 4"

lemmas egl_tokens =
  EGL_NONE_def EGL_SURFACE_TYPE_def EGL_CONFIG_ID_def EGL_RED_SIZE_def EGL_GREEN_SIZE_def
  EGL_BLUE_SIZE_def EGL_PBUFFER_BIT_def EGL_WINDOW_BIT_def

unbundle bit_operations_syntax

text \<open>
  The attributes reported to the guest: depth, stencil, renderable type, surface type and
  configuration id first, then the others in the order of the source.
\<close>

definition kConfigAttributes :: "int list" where
  "kConfigAttributes =
     [0x3025, 0x3026, 0x3040, EGL_SURFACE_TYPE, EGL_CONFIG_ID,
      0x3020, 0x3021, EGL_BLUE_SIZE, EGL_GREEN_SIZE, EGL_RED_SIZE, 0x3027, 0x3029, 0x302A, 0x302B,
      0x302C, 0x302D, 0x302E, 0x302F, 0x3031, 0x3032, 0x3034, 0x3035, 0x3036, 0x3037, 0x3039, 0x303A,
      0x303B, 0x303C, 0x303D, 0x303E, 0x303F, 0x3042]"

definition kConfigAttributesLen :: nat where
  "kConfigAttributesLen = length kConfigAttributes"

lemma kConfigAttributesLen_eq: "kConfigAttributesLen = 32"
  by (simp add: kConfigAttributesLen_def kConfigAttributes_def)

section \<open>The configuration list\<close>

definition isCompatibleHostConfig :: "('c \<Rightarrow> int \<Rightarrow> int) \<Rightarrow> 'c \<Rightarrow> bool" where
  "isCompatibleHostConfig attrib config \<longleftrightarrow>
     attrib config EGL_SURFACE_TYPE AND EGL_PBUFFER_BIT \<noteq> 0 \<and>
     attrib config EGL_RED_SIZE \<noteq> 0 \<and> attrib config EGL_GREEN_SIZE \<noteq> 0 \<and>
     attrib config EGL_BLUE_SIZE \<noteq> 0"

record 'c renderer_config =
  cfg_egl :: 'c
  cfg_values :: "int list"

definition new_renderer_config :: "('c \<Rightarrow> int \<Rightarrow> int) \<Rightarrow> 'c \<Rightarrow> 'c renderer_config" where
  "new_renderer_config attrib host =
     \<lparr>cfg_egl = host,
      cfg_values = map (\<lambda>a. if a = EGL_SURFACE_TYPE then attrib host a OR EGL_WINDOW_BIT
                            else attrib host a) kConfigAttributes\<rparr>"

definition getRenderableType :: "'c renderer_config \<Rightarrow> int" where
  "getRenderableType c = cfg_values c ! 2"

definition getConfigId :: "'c renderer_config \<Rightarrow> int" where
  "getConfigId c = cfg_values c ! 4"

text \<open>\<open>None\<close> for the host configurations: there is no display, or the query failed.\<close>

definition new_config_list :: "('c \<Rightarrow> int \<Rightarrow> int) \<Rightarrow> 'c list option \<Rightarrow> 'c renderer_config list" where
  "new_config_list attrib hosts =
     (case hosts of
        None \<Rightarrow> []
      | Some cs \<Rightarrow> map (new_renderer_config attrib) (filter (isCompatibleHostConfig attrib) cs))"

definition config_get :: "int \<Rightarrow> 'c renderer_config list \<Rightarrow> 'c renderer_config option" where
  "config_get guestId configs =
     (if guestId \<ge> 0 \<and> guestId < int (length configs) then Some (configs ! nat guestId) else None)"

section \<open>chooseConfig\<close>

text \<open>The key-value pairs before \<open>EGL_NONE\<close>; \<open>None\<close> when the array ends before it.\<close>

fun attrib_pairs :: "int list \<Rightarrow> (int \<times> int) list option" where
  "attrib_pairs [] = None"
| "attrib_pairs (a # rest) =
     (if a = EGL_NONE then Some []
      else (case rest of [] \<Rightarrow> None | v # r \<Rightarrow> map_option (Cons (a, v)) (attrib_pairs r)))"

fun flat_attribs :: "(int \<times> int) list \<Rightarrow> int list" where
  "flat_attribs [] = [EGL_NONE]"
| "flat_attribs ((a, v) # ps) = a # v # flat_attribs ps"

definition new_attribs :: "(int \<times> int) list \<Rightarrow> (int \<times> int) list" where
  "new_attribs ps =
     (let hasSurfaceType = list_ex (\<lambda>(a, v). a = EGL_SURFACE_TYPE) ps;
          mustReplaceSurfaceType = list_ex (\<lambda>(a, v). a = EGL_SURFACE_TYPE \<and> v \<noteq> EGL_PBUFFER_BIT) ps
      in if mustReplaceSurfaceType
         then map (\<lambda>(a, v). (a, if a = EGL_SURFACE_TYPE then EGL_PBUFFER_BIT else v)) ps
         else if \<not> hasSurfaceType then ps @ [(EGL_SURFACE_TYPE, EGL_PBUFFER_BIT)]
         else ps)"

text \<open>The first guest configuration with the id of a host configuration.\<close>

fun find_config :: "'c renderer_config list \<Rightarrow> nat \<Rightarrow> int \<Rightarrow> nat option" where
  "find_config [] k hostConfigId = None"
| "find_config (c # cs) k hostConfigId =
     (if getConfigId c = hostConfigId then Some k else find_config cs (Suc k) hostConfigId)"

text \<open>
  The loop over the matched host configurations. \<open>has_configs\<close>: the output array is not
  NULL; the third component counts, the fourth is what was written.
\<close>

fun match_configs ::
  "('c \<Rightarrow> int \<Rightarrow> int) \<Rightarrow> 'c renderer_config list \<Rightarrow> bool \<Rightarrow> int \<Rightarrow> 'c list \<Rightarrow> nat \<Rightarrow> nat list \<Rightarrow>
     nat \<times> nat list" where
  "match_configs attrib cfgs has_configs configsSize [] result out = (result, out)"
| "match_configs attrib cfgs has_configs configsSize (m # ms) result out =
     (if has_configs \<and> configsSize > 0 \<and> int result \<ge> configsSize then (result, out)
      else if \<not> isCompatibleHostConfig attrib m
      then match_configs attrib cfgs has_configs configsSize ms result out
      else
        (case find_config cfgs 0 (attrib m EGL_CONFIG_ID) of
           None \<Rightarrow> match_configs attrib cfgs has_configs configsSize ms result out
         | Some k \<Rightarrow>
             match_configs attrib cfgs has_configs configsSize ms (Suc result)
               (if has_configs \<and> int result < configsSize then out @ [k] else out)))"

text \<open>
  \<open>egl_choose\<close> is \<open>eglChooseConfig\<close> (\<open>None\<close>: it failed); \<open>can_count\<close>: the number of host
  configurations could be queried.
\<close>

definition chooseConfig ::
  "('c \<Rightarrow> int \<Rightarrow> int) \<Rightarrow> bool \<Rightarrow> (int list \<Rightarrow> 'c list option) \<Rightarrow> 'c renderer_config list \<Rightarrow> int list \<Rightarrow>
     bool \<Rightarrow> int \<Rightarrow> (nat \<times> nat list) res" where
  "chooseConfig attrib can_count egl_choose cfgs attribs has_configs configsSize =
     (if \<not> can_count then Inr (0, [])
      else
        (case attrib_pairs attribs of
           None \<Rightarrow> Inl (Undefined ''attribs not terminated'')
         | Some ps \<Rightarrow>
             (let matched = (case egl_choose (flat_attribs (new_attribs ps)) of None \<Rightarrow> [] | Some ms \<Rightarrow> ms)
              in Inr (match_configs attrib cfgs has_configs configsSize matched 0 []))))"

section \<open>getPackInfo and packConfigs\<close>

definition getPackInfo :: "'c renderer_config list \<Rightarrow> nat \<times> nat" where
  "getPackInfo cfgs = (length cfgs, kConfigAttributesLen)"

text \<open>
  The size needed is computed in 32-bit unsigned arithmetic; the negative answer is its
  negation read as a signed number. \<open>None\<close> for the buffer is NULL. The second component is the
  buffer afterwards, in words.
\<close>

definition packConfigs ::
  "'c renderer_config list \<Rightarrow> u32 \<Rightarrow> int list option \<Rightarrow> int \<times> int list option" where
  "packConfigs cfgs bufferByteSize buffer =
     (let needed = (of_nat (length cfgs) + 1) * of_nat kConfigAttributesLen * 4 :: u32
      in case buffer of
           None \<Rightarrow> (sint (- needed), None)
         | Some buf \<Rightarrow>
             if bufferByteSize < needed then (sint (- needed), Some buf)
             else
               (let words = kConfigAttributes @ concat (map cfg_values cfgs)
                in (int (length cfgs), Some (words @ drop (length words) buf))))"

section \<open>Lemmas\<close>

lemma attrib_pairs_flat:
  "\<forall>(a, v) \<in> set ps. a \<noteq> EGL_NONE \<Longrightarrow> attrib_pairs (flat_attribs ps @ rest) = Some ps"
  by (induction ps rule: flat_attribs.induct) auto

lemma new_attribs_pbuffer:
  "(EGL_SURFACE_TYPE, EGL_PBUFFER_BIT) \<in> set (new_attribs ps) \<and>
   (\<forall>v. (EGL_SURFACE_TYPE, v) \<in> set (new_attribs ps) \<longrightarrow> v = EGL_PBUFFER_BIT) \<and>
   filter (\<lambda>(a, v). a \<noteq> EGL_SURFACE_TYPE) (new_attribs ps) =
     filter (\<lambda>(a, v). a \<noteq> EGL_SURFACE_TYPE) ps"
proof -
  have f: "filter (\<lambda>(a, v). a \<noteq> EGL_SURFACE_TYPE)
      (map (\<lambda>(a, v). (a, if a = EGL_SURFACE_TYPE then EGL_PBUFFER_BIT else v)) ps) =
    filter (\<lambda>(a, v). a \<noteq> EGL_SURFACE_TYPE) ps"
    by (induction ps) auto
  show ?thesis
    by (auto simp: new_attribs_def Let_def f list_ex_iff split: if_splits) force+
qed

lemma find_config_Some:
  "find_config cfgs n i = Some k \<Longrightarrow> n \<le> k \<and> k < n + length cfgs \<and> getConfigId (cfgs ! (k - n)) = i"
proof (induction cfgs n i rule: find_config.induct)
  case (2 c cs n i)
  show ?case
  proof (cases "getConfigId c = i")
    case True
    with 2 show ?thesis by auto
  next
    case False
    with 2 have "Suc n \<le> k \<and> k < Suc n + length cs \<and> getConfigId (cs ! (k - Suc n)) = i" by simp
    moreover from this have "k - n = Suc (k - Suc n)" by linarith
    ultimately show ?thesis by simp
  qed
qed simp

lemma match_configs_out:
  "match_configs attrib cfgs True sz ms r out = (r', out') \<Longrightarrow> length out = r \<Longrightarrow> 0 < sz \<Longrightarrow>
    int r \<le> sz \<Longrightarrow> (\<forall>k \<in> set out. k < length cfgs) \<Longrightarrow>
    length out' = r' \<and> int r' \<le> sz \<and> (\<forall>k \<in> set out'. k < length cfgs)"
proof (induction attrib cfgs True sz ms r out arbitrary: r' out' rule: match_configs.induct)
  case (2 attrib cfgs sz m ms r out)
  show ?case
  proof (cases "find_config cfgs 0 (attrib m EGL_CONFIG_ID)")
    case None
    with 2 show ?thesis by (auto split: if_splits)
  next
    case (Some k)
    with find_config_Some [OF Some] 2 show ?thesis by (auto split: if_splits)
  qed
qed auto

lemma length_packed:
  "\<forall>c \<in> set cfgs. length (cfg_values c) = n \<Longrightarrow> length (concat (map cfg_values cfgs)) = length cfgs * n"
  by (induction cfgs) auto

lemma concat_nth_block:
  "\<forall>c \<in> set cfgs. length (cfg_values c) = n \<Longrightarrow> i < length cfgs \<Longrightarrow> j < n \<Longrightarrow>
    concat (map cfg_values cfgs) ! (i * n + j) = cfg_values (cfgs ! i) ! j"
proof (induction cfgs arbitrary: i)
  case (Cons c cfgs)
  then show ?case by (cases i) (auto simp: nth_append)
qed simp

lemma new_config_list_values:
  "c \<in> set (new_config_list attrib hosts) \<Longrightarrow> length (cfg_values c) = kConfigAttributesLen"
  by (auto simp: new_config_list_def new_renderer_config_def kConfigAttributesLen_def split: option.splits)

section \<open>Properties\<close>

text \<open>
  \<open>chooseConfig\<close> asks the host for pbuffer configurations whatever surface type the guest
  asked for, and for nothing else it did not ask for: the request passed on has the
  surface type with the value pbuffer and no other, and the remaining attributes unchanged and in
  order. With an output array of positive size the ids written are as many as the result says, at
  most the size of the array, and each of them is the id of a configuration of the
  guest's list.
\<close>

theorem chooseConfig_sound:
  assumes "\<forall>(a, v) \<in> set ps. a \<noteq> EGL_NONE" and "0 < sz"
    and "chooseConfig attrib True egl_choose cfgs (flat_attribs ps @ rest) True sz = Inr (r, out)"
  shows "\<exists>qs. (r, out) = match_configs attrib cfgs True sz
        (case egl_choose (flat_attribs qs) of None \<Rightarrow> [] | Some ms \<Rightarrow> ms) 0 [] \<and>
      (EGL_SURFACE_TYPE, EGL_PBUFFER_BIT) \<in> set qs \<and>
      (\<forall>v. (EGL_SURFACE_TYPE, v) \<in> set qs \<longrightarrow> v = EGL_PBUFFER_BIT) \<and>
      filter (\<lambda>(a, v). a \<noteq> EGL_SURFACE_TYPE) qs = filter (\<lambda>(a, v). a \<noteq> EGL_SURFACE_TYPE) ps \<and>
      length out = r \<and> int r \<le> sz \<and> (\<forall>k \<in> set out. config_get (int k) cfgs \<noteq> None)"
proof -
  let ?ms = "case egl_choose (flat_attribs (new_attribs ps)) of None \<Rightarrow> [] | Some ms \<Rightarrow> ms"
  have m: "match_configs attrib cfgs True sz ?ms 0 [] = (r, out)"
    using assms(3) by (simp add: chooseConfig_def attrib_pairs_flat [OF assms(1)] Let_def)
  from match_configs_out [OF m] assms(2)
  have "length out = r" "int r \<le> sz" "\<forall>k \<in> set out. k < length cfgs" by auto
  with m new_attribs_pbuffer [of ps] show ?thesis
    by (intro exI [of _ "new_attribs ps"]) (simp add: config_get_def)
qed

theorem chooseConfig_sound_witness:
  "\<exists>out. chooseConfig (\<lambda>c a. if a = EGL_CONFIG_ID then c else 1) True (\<lambda>_. Some [10, 20])
       (new_config_list (\<lambda>c a. if a = EGL_CONFIG_ID then c else 1) (Some [20, 30]))
       (flat_attribs [(EGL_SURFACE_TYPE, EGL_WINDOW_BIT)] @ []) True 4 = Inr (1, out) \<and>
     (\<forall>k \<in> set out. config_get (int k)
        (new_config_list (\<lambda>c a. if a = EGL_CONFIG_ID then c else 1) (Some [20, 30 :: int])) \<noteq> None)"
proof -
  let ?a = "\<lambda>c a. if a = EGL_CONFIG_ID then c else (1 :: int)"
  have c: "chooseConfig ?a True (\<lambda>_. Some [10, 20]) (new_config_list ?a (Some [20, 30]))
       (flat_attribs [(EGL_SURFACE_TYPE, EGL_WINDOW_BIT)] @ []) True 4 = Inr (1, [0])"
    by (simp add: chooseConfig_def new_config_list_def new_renderer_config_def getConfigId_def
        isCompatibleHostConfig_def kConfigAttributes_def egl_tokens Let_def)
  from chooseConfig_sound [OF _ _ c] have
    "\<forall>k \<in> set [0]. config_get (int k) (new_config_list ?a (Some [20, 30])) \<noteq> None"
    by (auto simp: egl_tokens)
  with c show ?thesis by blast
qed

text \<open>
  \<open>packConfigs\<close> and its layout: for a table small enough that its size in bytes is a positive
  32-bit number, a missing or too small buffer is answered with minus the number of bytes needed
  and left alone; otherwise the answer is the number of configurations, word \<open>j\<close> is the \<open>j\<close>-th
  attribute name, word \<open>(i + 1) * 32 + j\<close> the \<open>j\<close>-th attribute of configuration \<open>i\<close>, and
  nothing beyond these words changes.
\<close>

theorem packConfigs_layout:
  assumes "cfgs = new_config_list attrib hosts" and "(length cfgs + 1) * 128 < 2 ^ 31"
    and "length buf * 4 = unat n"
  shows "fst (packConfigs cfgs n None) = - int ((length cfgs + 1) * 128) \<and>
    (if unat n < (length cfgs + 1) * 128
     then packConfigs cfgs n (Some buf) = (- int ((length cfgs + 1) * 128), Some buf)
     else \<exists>out. packConfigs cfgs n (Some buf) = (int (length cfgs), Some out) \<and>
       length out = length buf \<and> (\<forall>j < 32. out ! j = kConfigAttributes ! j) \<and>
       (\<forall>i < length cfgs. \<forall>j < 32. out ! ((i + 1) * 32 + j) = cfg_values (cfgs ! i) ! j) \<and>
       drop ((length cfgs + 1) * 32) out = drop ((length cfgs + 1) * 32) buf)"
proof -
  let ?need = "(of_nat (length cfgs) + 1) * of_nat kConfigAttributesLen * 4 :: u32"
  let ?w = "kConfigAttributes @ concat (map cfg_values cfgs)"
  have "?need = of_nat ((length cfgs + 1) * 128)" by (simp add: kConfigAttributesLen_eq)
  then have u: "unat ?need = (length cfgs + 1) * 128"
    using assms(2) by (simp only: unat_of_nat) simp
  have s: "sint (- ?need) = - int ((length cfgs + 1) * 128)"
    using assms(2) sint_minus_unat [of ?need] u by simp
  have v: "\<forall>c \<in> set cfgs. length (cfg_values c) = 32"
    using new_config_list_values assms(1) by (auto simp: kConfigAttributesLen_eq)
  have k: "length kConfigAttributes = 32" by (simp add: kConfigAttributes_def)
  have lw: "length ?w = (length cfgs + 1) * 32" using length_packed [OF v] k by simp
  have lt: "n < ?need \<longleftrightarrow> unat n < (length cfgs + 1) * 128"
    by (simp only: word_less_nat_alt u)
  show ?thesis
  proof (cases "n < ?need")
    case True
    then show ?thesis using s lt by (simp add: packConfigs_def Let_def)
  next
    case False
    then have ge: "(length cfgs + 1) * 32 \<le> length buf" using lt assms(3) by simp
    let ?out = "?w @ drop (length ?w) buf"
    have "packConfigs cfgs n (Some buf) = (int (length cfgs), Some ?out)"
      using False by (simp add: packConfigs_def Let_def)
    moreover have "length ?out = length buf" using lw ge by simp
    moreover have "\<forall>j < 32. ?out ! j = kConfigAttributes ! j" using k by (simp add: nth_append)
    moreover have "?out ! ((i + 1) * 32 + j) = cfg_values (cfgs ! i) ! j" if "i < length cfgs" "j < 32" for i j
    proof -
      have "i * 32 + j < length cfgs * 32" using that by simp
      with concat_nth_block [OF v that] k length_packed [OF v] show ?thesis
        by (simp add: nth_append ac_simps)
    qed
    moreover have "drop ((length cfgs + 1) * 32) ?out = drop ((length cfgs + 1) * 32) buf"
      by (simp only: lw [symmetric]) simp
    moreover have "fst (packConfigs cfgs n None) = - int ((length cfgs + 1) * 128)"
      using s by (simp add: packConfigs_def Let_def)
    ultimately show ?thesis using False lt by auto
  qed
qed

theorem packConfigs_layout_witness:
  "fst (packConfigs (new_config_list (\<lambda>c a. c) (Some [1 :: int, 3])) 0 None) = - 384"
  using packConfigs_layout [of "new_config_list (\<lambda>c a. c) (Some [1 :: int, 3])" "\<lambda>c a. c"
      "Some [1, 3]" "[]" 0]
  by (simp add: new_config_list_def isCompatibleHostConfig_def egl_tokens)

end
