(* ===== verification/Renderer_State.thy ===== *)
theory Renderer_State
  imports Egl_Config
begin

text \<open>
  The object tables of the renderer (\<open>graphics/emugl/Renderer.cpp\<close>, \<open>WindowSurface.cpp\<close>,
  \<open>RenderContext.cpp\<close>): handles of contexts, window surfaces and reference-counted color
  buffers, the per-thread sets that clean up after a guest thread, and the binding of contexts.
  The host's EGL is a record of functions on a state \<open>'e\<close>; EGL handles are numbers and 0 is
  \<open>EGL_NO_CONTEXT\<close>, \<open>EGL_NO_SURFACE\<close> and NULL. Window surfaces are shared objects, kept in a
  store under object ids; contexts and color buffers are not changed after creation.
  A \<open>shared_ptr\<close> that lets an object go (and the EGL object with it) is not followed.
\<close>

section \<open>EGL and the objects\<close>

record 'e egl_api =
  egl_make_current :: "nat \<Rightarrow> nat \<Rightarrow> nat \<Rightarrow> 'e \<Rightarrow> bool \<times> 'e"   \<comment> \<open>draw, read, context\<close>
  egl_current :: "'e \<Rightarrow> nat \<times> nat \<times> nat"                  \<comment> \<open>draw, read, context\<close>
  egl_create_pbuffer :: "nat \<Rightarrow> u32 \<Rightarrow> u32 \<Rightarrow> 'e \<Rightarrow> nat \<times> 'e"
  egl_destroy_surface :: "nat \<Rightarrow> 'e \<Rightarrow> 'e"
  egl_create_context :: "nat \<Rightarrow> nat \<Rightarrow> bool \<Rightarrow> 'e \<Rightarrow> nat \<times> 'e"
  egl_create_window_surface :: "nat \<Rightarrow> 'e \<Rightarrow> nat \<times> 'e"
  gl_clear :: "'e \<Rightarrow> 'e"
  egl_swap_buffers :: "nat \<Rightarrow> 'e \<Rightarrow> 'e"
  cb_create :: "u32 \<Rightarrow> u32 \<Rightarrow> nat \<Rightarrow> 'e \<Rightarrow> nat option \<times> 'e"
  cb_blit :: "nat \<Rightarrow> 'e \<Rightarrow> 'e"

record render_context =
  rc_context :: nat
  rc_isGL2 :: bool

record color_buffer =
  cb_id :: nat
  cb_width :: u32
  cb_height :: u32

record color_buffer_ref =
  cbr_cb :: color_buffer
  cbr_refcount :: u32

record window_surface =
  ws_surface :: nat
  ws_attached :: "color_buffer option"
  ws_read_context :: "render_context option"
  ws_draw_context :: "render_context option"
  ws_width :: u32
  ws_height :: u32
  ws_config :: nat

text \<open>\<open>RenderThreadInfo\<close>: object ids for the current surfaces.\<close>

record thread_info =
  ti_context :: "render_context option"
  ti_draw :: "nat option"
  ti_read :: "nat option"
  ti_context_set :: "u32 list"
  ti_window_set :: "u32 list"

record 'e renderer =
  rn_next_handle :: u32
  rn_configs :: "nat renderer_config list"
  rn_contexts :: "(u32, render_context) omap"
  rn_windows :: "(u32, nat \<times> u32) omap"
  rn_colorbuffers :: "(u32, color_buffer_ref) omap"
  rn_surfaces :: "nat \<rightharpoonup> window_surface"
  rn_next_object :: nat
  rn_native_windows :: "(nat, nat) omap"    \<comment> \<open>native window to its EGL surface\<close>
  rn_context :: nat
  rn_pbuf_surface :: nat
  rn_pbuf_context :: nat
  rn_prev :: "nat \<times> nat \<times> nat"               \<comment> \<open>previous draw, read, context\<close>
  rn_egl :: 'e

section \<open>WindowSurface\<close>

definition ws_resize ::
  "'e egl_api \<Rightarrow> u32 \<Rightarrow> u32 \<Rightarrow> window_surface \<Rightarrow> 'e \<Rightarrow> bool \<times> window_surface \<times> 'e" where
  "ws_resize api p_width p_height ws e =
     (if ws_surface ws \<noteq> 0 \<and> ws_width ws = p_width \<and> ws_height ws = p_height then (True, ws, e)
      else
        (let (prevDraw, prevRead, prevContext) = egl_current api e;
             prevPbuf = ws_surface ws;
             needRebind = ws_surface ws \<noteq> 0 \<and> (prevRead = ws_surface ws \<or> prevDraw = ws_surface ws);
             e = (if needRebind then snd (egl_make_current api 0 0 0 e) else e);
             e = (if ws_surface ws \<noteq> 0 then egl_destroy_surface api (ws_surface ws) e else e);
             (s, e) = egl_create_pbuffer api (ws_config ws) p_width p_height e
         in if s = 0 then (False, ws\<lparr>ws_surface := 0\<rparr>, e)
            else
              (let e = (if needRebind
                        then snd (egl_make_current api (if prevDraw = prevPbuf then s else prevDraw)
                               (if prevRead = prevPbuf then s else prevRead) prevContext e)
                        else e)
               in (True, ws\<lparr>ws_surface := s, ws_width := p_width, ws_height := p_height\<rparr>, e))))"

definition ws_create :: "'e egl_api \<Rightarrow> nat \<Rightarrow> u32 \<Rightarrow> u32 \<Rightarrow> 'e \<Rightarrow> window_surface option \<times> 'e" where
  "ws_create api config p_width p_height e =
     (case ws_resize api p_width p_height
             \<lparr>ws_surface = 0, ws_attached = None, ws_read_context = None, ws_draw_context = None,
              ws_width = 0, ws_height = 0, ws_config = config\<rparr> e of
        (ok, ws, e') \<Rightarrow> (if ok then Some ws else None, e'))"

definition ws_setColorBuffer ::
  "'e egl_api \<Rightarrow> color_buffer \<Rightarrow> window_surface \<Rightarrow> 'e \<Rightarrow> window_surface \<times> 'e" where
  "ws_setColorBuffer api cb ws e =
     (let ws = ws\<lparr>ws_attached := Some cb\<rparr>
      in if cb_width cb \<noteq> ws_width ws \<or> cb_height cb \<noteq> ws_height ws
         then snd (ws_resize api (cb_width cb) (cb_height cb) ws e)
         else (ws, e))"

datatype bind_type = Bind_read | Bind_draw | Bind_readdraw

definition ws_bind :: "render_context option \<Rightarrow> bind_type \<Rightarrow> window_surface \<Rightarrow> window_surface" where
  "ws_bind ctx t ws =
     (case t of
        Bind_read \<Rightarrow> ws\<lparr>ws_read_context := ctx\<rparr>
      | Bind_draw \<Rightarrow> ws\<lparr>ws_draw_context := ctx\<rparr>
      | Bind_readdraw \<Rightarrow> ws\<lparr>ws_read_context := ctx, ws_draw_context := ctx\<rparr>)"

definition ws_flushColorBuffer :: "'e egl_api \<Rightarrow> window_surface \<Rightarrow> 'e \<Rightarrow> bool \<times> 'e" where
  "ws_flushColorBuffer api ws e =
     (case ws_attached ws of
        None \<Rightarrow> (True, e)
      | Some cb \<Rightarrow>
          if ws_width ws = 0 \<or> ws_height ws = 0 then (False, e)
          else if cb_width cb \<noteq> ws_width ws \<or> cb_height cb \<noteq> ws_height ws then (False, e)
          else
            (case ws_draw_context ws of
               None \<Rightarrow> (False, e)
             | Some ctx \<Rightarrow>
                 (let (prevDraw, prevRead, prevContext) = egl_current api e;
                      (ok, e) = egl_make_current api (ws_surface ws) (ws_surface ws) (rc_context ctx) e
                  in if \<not> ok then (False, e)
                     else (True, snd (egl_make_current api prevDraw prevRead prevContext
                                        (cb_blit api (cb_id cb) e))))))"

section \<open>Handles\<close>

text \<open>\<open>genHandle\<close>: the loop ends only when a free handle is found.\<close>

definition handle_taken :: "'e renderer \<Rightarrow> u32 \<Rightarrow> bool" where
  "handle_taken r i \<longleftrightarrow> i = 0 \<or> map_of (rn_contexts r) i \<noteq> None \<or> map_of (rn_windows r) i \<noteq> None"

partial_function (option) gen_loop :: "'e renderer \<Rightarrow> u32 \<Rightarrow> u32 option" where
  "gen_loop r next = (if handle_taken r (next + 1) then gen_loop r (next + 1) else Some (next + 1))"

definition genHandle :: "'e renderer \<Rightarrow> (u32 \<times> 'e renderer) option" where
  "genHandle r = map_option (\<lambda>i. (i, r\<lparr>rn_next_handle := i\<rparr>)) (gen_loop r (rn_next_handle r))"

section \<open>Creation\<close>

text \<open>A creating operation returns the handle, 0 on failure; \<open>None\<close>: \<open>genHandle\<close> does not return.\<close>

definition createColorBuffer ::
  "'e egl_api \<Rightarrow> u32 \<Rightarrow> u32 \<Rightarrow> nat \<Rightarrow> 'e renderer \<Rightarrow> (u32 \<times> 'e renderer) option" where
  "createColorBuffer api p_width p_height p_internalFormat r =
     (case cb_create api p_width p_height p_internalFormat (rn_egl r) of
        (None, e) \<Rightarrow> Some (0, r\<lparr>rn_egl := e\<rparr>)
      | (Some c, e) \<Rightarrow>
          map_option (\<lambda>(h, r). (h, r\<lparr>rn_colorbuffers :=
              om_put h \<lparr>cbr_cb = \<lparr>cb_id = c, cb_width = p_width, cb_height = p_height\<rparr>, cbr_refcount = 1\<rparr>
                (rn_colorbuffers r)\<rparr>))
            (genHandle (r\<lparr>rn_egl := e\<rparr>)))"

definition createRenderContext ::
  "'e egl_api \<Rightarrow> int \<Rightarrow> u32 \<Rightarrow> bool \<Rightarrow> 'e renderer \<Rightarrow> thread_info \<Rightarrow>
     (u32 \<times> 'e renderer \<times> thread_info) option" where
  "createRenderContext api p_config p_share p_isGL2 r ti =
     (case config_get p_config (rn_configs r) of
        None \<Rightarrow> Some (0, r, ti)
      | Some config \<Rightarrow>
          if p_share \<noteq> 0 \<and> map_of (rn_contexts r) p_share = None then Some (0, r, ti)
          else
            (let sharedContext = (if p_share = 0 then 0 else rc_context (the (map_of (rn_contexts r) p_share)));
                 (c, e) = egl_create_context api (cfg_egl config) sharedContext p_isGL2 (rn_egl r);
                 r = r\<lparr>rn_egl := e\<rparr>
             in if c = 0 then Some (0, r, ti)
                else map_option (\<lambda>(h, r).
                    (h, r\<lparr>rn_contexts := om_put h \<lparr>rc_context = c, rc_isGL2 = p_isGL2\<rparr> (rn_contexts r)\<rparr>,
                     ti\<lparr>ti_context_set := List.insert h (ti_context_set ti)\<rparr>))
                  (genHandle r)))"

definition createWindowSurface ::
  "'e egl_api \<Rightarrow> int \<Rightarrow> u32 \<Rightarrow> u32 \<Rightarrow> 'e renderer \<Rightarrow> thread_info \<Rightarrow>
     (u32 \<times> 'e renderer \<times> thread_info) option" where
  "createWindowSurface api p_config p_width p_height r ti =
     (case config_get p_config (rn_configs r) of
        None \<Rightarrow> Some (0, r, ti)
      | Some config \<Rightarrow>
          (case ws_create api (cfg_egl config) p_width p_height (rn_egl r) of
             (None, e) \<Rightarrow> Some (0, r\<lparr>rn_egl := e\<rparr>, ti)
           | (Some win, e) \<Rightarrow>
               map_option (\<lambda>(h, r).
                   (h, r\<lparr>rn_windows := om_put h (rn_next_object r, 0) (rn_windows r),
                         rn_surfaces := (rn_surfaces r)(rn_next_object r \<mapsto> win),
                         rn_next_object := Suc (rn_next_object r)\<rparr>,
                    ti\<lparr>ti_window_set := List.insert h (ti_window_set ti)\<rparr>))
                 (genHandle (r\<lparr>rn_egl := e\<rparr>))))"

section \<open>Destruction and reference counts\<close>

definition drainRenderContext :: "'e renderer \<Rightarrow> thread_info \<Rightarrow> 'e renderer \<times> thread_info" where
  "drainRenderContext r ti =
     (r\<lparr>rn_contexts := fold om_erase (ti_context_set ti) (rn_contexts r)\<rparr>, ti\<lparr>ti_context_set := []\<rparr>)"

text \<open>One reference less; the buffer goes when the count reaches zero.\<close>

definition unref_color_buffer :: "u32 \<Rightarrow> (u32, color_buffer_ref) omap \<Rightarrow> (u32, color_buffer_ref) omap" where
  "unref_color_buffer h m =
     (case map_of m h of
        None \<Rightarrow> m
      | Some ref \<Rightarrow>
          if cbr_refcount ref - 1 = 0 then om_erase h m
          else om_put h (ref\<lparr>cbr_refcount := cbr_refcount ref - 1\<rparr>) m)"

definition drain_window :: "u32 \<Rightarrow> 'e renderer \<Rightarrow> 'e renderer" where
  "drain_window windowHandle r =
     (case map_of (rn_windows r) windowHandle of
        None \<Rightarrow> r
      | Some (obj, oldColorBufferHandle) \<Rightarrow>
          r\<lparr>rn_colorbuffers := (if oldColorBufferHandle \<noteq> 0
                then unref_color_buffer oldColorBufferHandle (rn_colorbuffers r)
                else rn_colorbuffers r),
            rn_windows := om_erase windowHandle (rn_windows r)\<rparr>)"

definition drainWindowSurface :: "'e renderer \<Rightarrow> thread_info \<Rightarrow> 'e renderer \<times> thread_info" where
  "drainWindowSurface r ti = (fold drain_window (ti_window_set ti) r, ti\<lparr>ti_window_set := []\<rparr>)"

definition DestroyRenderContext :: "u32 \<Rightarrow> 'e renderer \<Rightarrow> thread_info \<Rightarrow> 'e renderer \<times> thread_info" where
  "DestroyRenderContext p_context r ti =
     (r\<lparr>rn_contexts := om_erase p_context (rn_contexts r)\<rparr>,
      ti\<lparr>ti_context_set := removeAll p_context (ti_context_set ti)\<rparr>)"

definition DestroyWindowSurface :: "u32 \<Rightarrow> 'e renderer \<Rightarrow> thread_info \<Rightarrow> 'e renderer \<times> thread_info" where
  "DestroyWindowSurface p_surface r ti =
     (case map_of (rn_windows r) p_surface of
        None \<Rightarrow> (r, ti)
      | Some w \<Rightarrow>
          (r\<lparr>rn_windows := om_erase p_surface (rn_windows r)\<rparr>,
           ti\<lparr>ti_window_set := removeAll p_surface (ti_window_set ti)\<rparr>))"

definition openColorBuffer :: "u32 \<Rightarrow> 'e renderer \<Rightarrow> int \<times> 'e renderer" where
  "openColorBuffer p_colorbuffer r =
     (case map_of (rn_colorbuffers r) p_colorbuffer of
        None \<Rightarrow> (- 1, r)
      | Some ref \<Rightarrow>
          (0, r\<lparr>rn_colorbuffers := om_put p_colorbuffer (ref\<lparr>cbr_refcount := cbr_refcount ref + 1\<rparr>)
                 (rn_colorbuffers r)\<rparr>))"

definition closeColorBuffer :: "u32 \<Rightarrow> 'e renderer \<Rightarrow> 'e renderer" where
  "closeColorBuffer p_colorbuffer r =
     r\<lparr>rn_colorbuffers := unref_color_buffer p_colorbuffer (rn_colorbuffers r)\<rparr>"

section \<open>Operations on surfaces and buffers\<close>

definition flushWindowSurfaceColorBuffer :: "'e egl_api \<Rightarrow> u32 \<Rightarrow> 'e renderer \<Rightarrow> bool \<times> 'e renderer" where
  "flushWindowSurfaceColorBuffer api p_surface r =
     (case map_of (rn_windows r) p_surface of
        None \<Rightarrow> (False, r)
      | Some (obj, cb) \<Rightarrow>
          (case rn_surfaces r obj of
             None \<Rightarrow> (False, r)
           | Some ws \<Rightarrow> (True, r\<lparr>rn_egl := snd (ws_flushColorBuffer api ws (rn_egl r))\<rparr>)))"

definition setWindowSurfaceColorBuffer ::
  "'e egl_api \<Rightarrow> u32 \<Rightarrow> u32 \<Rightarrow> 'e renderer \<Rightarrow> bool \<times> 'e renderer" where
  "setWindowSurfaceColorBuffer api p_surface p_colorbuffer r =
     (case map_of (rn_windows r) p_surface of
        None \<Rightarrow> (False, r)
      | Some (obj, old) \<Rightarrow>
          (case map_of (rn_colorbuffers r) p_colorbuffer of
             None \<Rightarrow> (False, r)
           | Some ref \<Rightarrow>
               (case ws_setColorBuffer api (cbr_cb ref) (the (rn_surfaces r obj)) (rn_egl r) of
                  (ws, e) \<Rightarrow>
                    (True, r\<lparr>rn_surfaces := (rn_surfaces r)(obj \<mapsto> ws), rn_egl := e,
                             rn_windows := om_put p_surface (obj, p_colorbuffer) (rn_windows r)\<rparr>))))"

text \<open>Reading, updating and binding a color buffer run GL code on it, the argument \<open>f\<close>.\<close>

definition readColorBuffer :: "(nat \<Rightarrow> 'e \<Rightarrow> 'e) \<Rightarrow> u32 \<Rightarrow> 'e renderer \<Rightarrow> 'e renderer" where
  "readColorBuffer f p_colorbuffer r =
     (case map_of (rn_colorbuffers r) p_colorbuffer of
        None \<Rightarrow> r | Some ref \<Rightarrow> r\<lparr>rn_egl := f (cb_id (cbr_cb ref)) (rn_egl r)\<rparr>)"

definition updateColorBuffer :: "(nat \<Rightarrow> 'e \<Rightarrow> 'e) \<Rightarrow> u32 \<Rightarrow> 'e renderer \<Rightarrow> bool \<times> 'e renderer" where
  "updateColorBuffer f p_colorbuffer r =
     (case map_of (rn_colorbuffers r) p_colorbuffer of
        None \<Rightarrow> (False, r) | Some ref \<Rightarrow> (True, r\<lparr>rn_egl := f (cb_id (cbr_cb ref)) (rn_egl r)\<rparr>))"

definition bindColorBuffer :: "(nat \<Rightarrow> 'e \<Rightarrow> bool \<times> 'e) \<Rightarrow> u32 \<Rightarrow> 'e renderer \<Rightarrow> bool \<times> 'e renderer" where
  "bindColorBuffer f p_colorbuffer r =
     (case map_of (rn_colorbuffers r) p_colorbuffer of
        None \<Rightarrow> (False, r)
      | Some ref \<Rightarrow>
          (case f (cb_id (cbr_cb ref)) (rn_egl r) of (ok, e) \<Rightarrow> (ok, r\<lparr>rn_egl := e\<rparr>)))"

section \<open>bindContext\<close>

text \<open>The objects a bind request names: nothing for an unbind, \<open>None\<close> when a handle is bad.\<close>

definition bind_targets ::
  "'e renderer \<Rightarrow> u32 \<Rightarrow> u32 \<Rightarrow> u32 \<Rightarrow> (render_context option \<times> nat option \<times> nat option) option" where
  "bind_targets r p_context p_draw p_read =
     (if p_context \<noteq> 0 \<or> p_draw \<noteq> 0 \<or> p_read \<noteq> 0 then
        (case map_of (rn_contexts r) p_context of
           None \<Rightarrow> None
         | Some ctx \<Rightarrow>
             (case map_of (rn_windows r) p_draw of
                None \<Rightarrow> None
              | Some (draw, _) \<Rightarrow>
                  if p_read \<noteq> p_draw then
                    (case map_of (rn_windows r) p_read of
                       None \<Rightarrow> None
                     | Some (read, _) \<Rightarrow> Some (Some ctx, Some draw, Some read))
                  else Some (Some ctx, Some draw, Some draw)))
      else Some (None, None, None))"

definition surface_of :: "'e renderer \<Rightarrow> nat option \<Rightarrow> nat" where
  "surface_of r w = (case w of None \<Rightarrow> 0 | Some obj \<Rightarrow> ws_surface (the (rn_surfaces r obj)))"

definition update_surface :: "nat \<Rightarrow> (window_surface \<Rightarrow> window_surface) \<Rightarrow> 'e renderer \<Rightarrow> 'e renderer" where
  "update_surface obj f r = r\<lparr>rn_surfaces := (rn_surfaces r)(obj := map_option f (rn_surfaces r obj))\<rparr>"

definition bindContext ::
  "'e egl_api \<Rightarrow> u32 \<Rightarrow> u32 \<Rightarrow> u32 \<Rightarrow> 'e renderer \<Rightarrow> thread_info \<Rightarrow> bool \<times> 'e renderer \<times> thread_info" where
  "bindContext api p_context p_draw p_read r ti =
     (case bind_targets r p_context p_draw p_read of
        None \<Rightarrow> (False, r, ti)
      | Some (ctx, draw, read) \<Rightarrow>
          (case egl_make_current api (surface_of r draw) (surface_of r read)
                  (case ctx of None \<Rightarrow> 0 | Some c \<Rightarrow> rc_context c) (rn_egl r) of
             (False, e) \<Rightarrow> (False, r\<lparr>rn_egl := e\<rparr>, ti)
           | (True, e) \<Rightarrow>
               (let r = r\<lparr>rn_egl := e\<rparr>;
                    (bindDraw, bindRead) =
                      (if draw = None \<and> read = None then (ti_draw ti, ti_read ti) else (draw, read));
                    r = (case (bindDraw, bindRead) of
                           (Some d, Some rd) \<Rightarrow>
                             if d \<noteq> rd
                             then update_surface rd (ws_bind ctx Bind_read)
                                    (update_surface d (ws_bind ctx Bind_draw) r)
                             else update_surface d (ws_bind ctx Bind_readdraw) r
                         | _ \<Rightarrow> r)
                in (True, r, ti\<lparr>ti_context := ctx, ti_draw := draw, ti_read := read\<rparr>))))"

section \<open>The renderer's own contexts\<close>

definition bind_current :: "'e egl_api \<Rightarrow> nat \<Rightarrow> nat \<Rightarrow> 'e renderer \<Rightarrow> bool \<times> 'e renderer" where
  "bind_current api surface context r =
     (let prev = egl_current api (rn_egl r)
      in case egl_make_current api surface surface context (rn_egl r) of
           (False, e) \<Rightarrow> (False, r\<lparr>rn_egl := e\<rparr>)
         | (True, e) \<Rightarrow> (True, r\<lparr>rn_egl := e, rn_prev := prev\<rparr>))"

definition bind_locked :: "'e egl_api \<Rightarrow> 'e renderer \<Rightarrow> bool \<times> 'e renderer" where
  "bind_locked api r = bind_current api (rn_pbuf_surface r) (rn_pbuf_context r) r"

definition bindWindow_locked :: "'e egl_api \<Rightarrow> nat \<Rightarrow> 'e renderer \<Rightarrow> bool \<times> 'e renderer" where
  "bindWindow_locked api surface r = bind_current api surface (rn_context r) r"

definition unbind_locked :: "'e egl_api \<Rightarrow> 'e renderer \<Rightarrow> bool \<times> 'e renderer" where
  "unbind_locked api r =
     (case rn_prev r of
        (d, rd, c) \<Rightarrow>
          (case egl_make_current api d rd c (rn_egl r) of
             (False, e) \<Rightarrow> (False, r\<lparr>rn_egl := e\<rparr>)
           | (True, e) \<Rightarrow> (True, r\<lparr>rn_egl := e, rn_prev := (0, 0, 0)\<rparr>)))"

definition createNativeWindow :: "'e egl_api \<Rightarrow> nat \<Rightarrow> 'e renderer \<Rightarrow> nat option \<times> 'e renderer" where
  "createNativeWindow api native_window r =
     (case egl_create_window_surface api native_window (rn_egl r) of
        (s, e) \<Rightarrow>
          (let r = r\<lparr>rn_egl := e\<rparr>
           in if s = 0 then (None, r)
              else
                (case bindWindow_locked api s r of
                   (False, r) \<Rightarrow> (None, r\<lparr>rn_egl := egl_destroy_surface api s (rn_egl r)\<rparr>)
                 | (True, r) \<Rightarrow>
                     (let r = snd (unbind_locked api (r\<lparr>rn_egl :=
                        egl_swap_buffers api s (gl_clear api (rn_egl r))\<rparr>))
                      in (Some s, r\<lparr>rn_native_windows := om_insert native_window s (rn_native_windows r)\<rparr>)))))"

definition destroyNativeWindow :: "'e egl_api \<Rightarrow> nat \<Rightarrow> 'e renderer \<Rightarrow> 'e renderer" where
  "destroyNativeWindow api native_window r =
     (case map_of (rn_native_windows r) native_window of
        None \<Rightarrow> r
      | Some s \<Rightarrow>
          (let e = snd (egl_make_current api 0 0 0 (rn_egl r));
               e = (if s \<noteq> 0 then egl_destroy_surface api s e else e)
           in r\<lparr>rn_egl := e, rn_native_windows := om_erase native_window (rn_native_windows r)\<rparr>))"

text \<open>
  \<open>draw\<close>: the GL commands for one renderable whose buffer exists are the parameter \<open>paint\<close>; the
  Boolean tells whether the alpha program is used.
\<close>

fun draw_renderables ::
  "(nat \<Rightarrow> bool \<Rightarrow> 'e \<Rightarrow> 'e) \<Rightarrow> (u32 \<times> bool) list \<Rightarrow> 'e renderer \<Rightarrow> 'e renderer" where
  "draw_renderables paint [] r = r"
| "draw_renderables paint ((buffer, translucent) # rs) r =
     draw_renderables paint rs
       (case map_of (rn_colorbuffers r) buffer of
          None \<Rightarrow> r
        | Some ref \<Rightarrow> r\<lparr>rn_egl := paint (cb_id (cbr_cb ref)) translucent (rn_egl r)\<rparr>)"

definition renderer_draw ::
  "'e egl_api \<Rightarrow> (nat \<Rightarrow> bool \<Rightarrow> 'e \<Rightarrow> 'e) \<Rightarrow> nat \<Rightarrow> (u32 \<times> bool) list \<Rightarrow> 'e renderer \<Rightarrow> bool \<times> 'e renderer" where
  "renderer_draw api paint native_window renderables r =
     (case map_of (rn_native_windows r) native_window of
        None \<Rightarrow> (False, r)
      | Some s \<Rightarrow>
          (case bindWindow_locked api s r of
             (False, r) \<Rightarrow> (False, r)
           | (True, r) \<Rightarrow>
               (let r = draw_renderables paint renderables (r\<lparr>rn_egl := gl_clear api (rn_egl r)\<rparr>);
                    r = r\<lparr>rn_egl := egl_swap_buffers api s (rn_egl r)\<rparr>
                in (False, snd (unbind_locked api r)))))"

section \<open>Handles are found\<close>

lemma gen_loop_reaches:
  "\<not> handle_taken r (next + 1 + of_nat k) \<Longrightarrow> \<exists>i. gen_loop r next = Some i \<and> \<not> handle_taken r i"
proof (induction k arbitrary: "next")
  case 0
  then show ?case by (subst gen_loop.simps) simp
next
  case (Suc k)
  show ?case
  proof (cases "handle_taken r (next + 1)")
    case True
    from Suc.IH [of "next + 1"] Suc.prems have "\<exists>i. gen_loop r (next + 1) = Some i \<and> \<not> handle_taken r i"
      by (simp add: ac_simps)
    with True show ?thesis by (subst gen_loop.simps) simp
  next
    case False
    then show ?thesis by (subst gen_loop.simps) simp
  qed
qed

lemma free_handle_exists:
  assumes "length (rn_contexts r) + length (rn_windows r) + 1 < 2 ^ 32"
  shows "\<exists>i. \<not> handle_taken r i"
proof -
  let ?B = "set (0 # map fst (rn_contexts r) @ map fst (rn_windows r))"
  have B: "{i. handle_taken r i} \<subseteq> ?B"
    by (auto simp: handle_taken_def map_of_eq_None_iff image_iff dest!: map_of_SomeD)
  have "card ?B \<le> length (0 # map fst (rn_contexts r) @ map fst (rn_windows r))"
    by (rule card_length)
  also have "\<dots> < 2 ^ 32" using assms by simp
  finally have "card ?B < card (UNIV :: u32 set)" by (simp add: card_word)
  then have "?B \<noteq> UNIV" by (metis less_irrefl)
  with B show ?thesis by blast
qed

lemma genHandle_ok:
  assumes "length (rn_contexts r) + length (rn_windows r) + 1 < 2 ^ 32"
  shows "\<exists>i. genHandle r = Some (i, r\<lparr>rn_next_handle := i\<rparr>) \<and> \<not> handle_taken r i"
proof -
  obtain w where w: "\<not> handle_taken r w" using free_handle_exists [OF assms] by blast
  have "rn_next_handle r + 1 + of_nat (unat (w - (rn_next_handle r + 1))) = w" by simp
  with w gen_loop_reaches [of r "rn_next_handle r" "unat (w - (rn_next_handle r + 1))"] show ?thesis
    by (auto simp: genHandle_def)
qed

section \<open>The invariant\<close>

definition refs_ok :: "(u32, color_buffer_ref) omap \<Rightarrow> bool" where
  "refs_ok m \<longleftrightarrow> om_wf m \<and> (\<forall>h ref. map_of m h = Some ref \<longrightarrow> cbr_refcount ref \<noteq> 0)"

definition win_ok :: "(u32, nat \<times> u32) omap \<Rightarrow> nat \<Rightarrow> (nat \<rightharpoonup> window_surface) \<Rightarrow> bool" where
  "win_ok ws n surfs \<longleftrightarrow> om_wf ws \<and> (\<forall>w \<in> ran (map_of ws). fst w < n \<and> fst w \<in> dom surfs)"

definition rn_inv :: "'e renderer \<Rightarrow> bool" where
  "rn_inv r \<longleftrightarrow> om_wf (rn_contexts r) \<and> refs_ok (rn_colorbuffers r) \<and>
     win_ok (rn_windows r) (rn_next_object r) (rn_surfaces r)"

lemma ran_upd_None: "ran (m(k := None)) \<subseteq> ran m"
  by (auto simp: ran_def)

lemma ran_upd_Some: "ran (m(k \<mapsto> v)) \<subseteq> insert v (ran m)"
  by (auto simp: ran_def)

lemma win_ok_erase [wf_intros]: "win_ok ws n surfs \<Longrightarrow> win_ok (om_erase h ws) n surfs"
  using ran_upd_None by (fastforce simp: win_ok_def)

lemma win_ok_new [wf_intros]:
  "win_ok ws n surfs \<Longrightarrow> win_ok (om_put h (n, c) ws) (Suc n) (surfs(n \<mapsto> w))"
  using ran_upd_Some [of "map_of ws" h "(n, c)"] by (fastforce simp: win_ok_def)

lemma win_ok_set [wf_intros]:
  "win_ok ws n surfs \<Longrightarrow> map_of ws h = Some (obj, old) \<Longrightarrow>
    win_ok (om_put h (obj, c) ws) n (surfs(obj \<mapsto> w))"
  using ran_upd_Some [of "map_of ws" h "(obj, c)"] ranI [of "map_of ws" h "(obj, old)"]
  by (fastforce simp: win_ok_def)

lemma win_ok_update:
  "win_ok ws n (surfs(obj := map_option f (surfs obj))) = win_ok ws n surfs"
  by (auto simp: win_ok_def dom_def)

lemma refs_ok_unref [wf_intros]: "refs_ok m \<Longrightarrow> refs_ok (unref_color_buffer h m)"
  by (auto simp: refs_ok_def unref_color_buffer_def split: option.splits)

lemma refs_ok_put [wf_intros]: "refs_ok m \<Longrightarrow> cbr_refcount ref \<noteq> 0 \<Longrightarrow> refs_ok (om_put h ref m)"
  by (auto simp: refs_ok_def)

lemma rn_inv_egl [simp]:
  "rn_inv (r\<lparr>rn_egl := e\<rparr>) = rn_inv r" "rn_inv (r\<lparr>rn_next_handle := i\<rparr>) = rn_inv r"
  "rn_inv (r\<lparr>rn_egl := e, rn_prev := p\<rparr>) = rn_inv r"
  by (simp_all add: rn_inv_def)

lemma rn_inv_open:
  "rn_inv r \<Longrightarrow> \<forall>ref. map_of (rn_colorbuffers r) h = Some ref \<longrightarrow> cbr_refcount ref + 1 \<noteq> 0 \<Longrightarrow>
    rn_inv (snd (openColorBuffer h r))"
  by (auto simp: openColorBuffer_def rn_inv_def refs_ok_put split: option.split)

lemma rn_inv_close: "rn_inv r \<Longrightarrow> rn_inv (closeColorBuffer h r)"
  by (simp add: closeColorBuffer_def rn_inv_def refs_ok_unref)

lemma rn_inv_drain_window: "rn_inv r \<Longrightarrow> rn_inv (drain_window h r)"
  by (simp add: drain_window_def rn_inv_def refs_ok_unref win_ok_erase split: option.split prod.split)

lemma rn_inv_drain: "rn_inv r \<Longrightarrow> rn_inv (fold drain_window hs r)"
  by (induction hs arbitrary: r) (simp_all add: rn_inv_drain_window)

lemma om_wf_fold_erase: "om_wf m \<Longrightarrow> om_wf (fold om_erase hs m)"
  by (induction hs arbitrary: m) simp_all

lemma rn_inv_create_cb:
  "rn_inv r \<Longrightarrow> createColorBuffer api w h f r = Some (x, r') \<Longrightarrow> rn_inv r'"
  by (auto simp: createColorBuffer_def genHandle_def rn_inv_def refs_ok_put
      split: prod.splits option.splits)

lemma rn_inv_create_context:
  "rn_inv r \<Longrightarrow> createRenderContext api c s g r ti = Some (x, r', ti') \<Longrightarrow> rn_inv r'"
  by (auto simp: createRenderContext_def genHandle_def rn_inv_def Let_def
      split: prod.splits option.splits if_splits)

lemma rn_inv_create_window:
  "rn_inv r \<Longrightarrow> createWindowSurface api c w h r ti = Some (x, r', ti') \<Longrightarrow> rn_inv r'"
  by (auto simp: createWindowSurface_def genHandle_def rn_inv_def win_ok_new
      split: prod.splits option.splits if_splits)

lemma rn_inv_set_cb: "rn_inv r \<Longrightarrow> rn_inv (snd (setWindowSurfaceColorBuffer api w c r))"
  by (auto simp: setWindowSurfaceColorBuffer_def rn_inv_def intro: win_ok_set
      split: prod.split option.split)

lemma rn_inv_update_surface [simp]: "rn_inv (update_surface obj f r) = rn_inv r"
  by (simp add: update_surface_def rn_inv_def win_ok_update)

lemma rn_inv_bind: "rn_inv r \<Longrightarrow> rn_inv (fst (snd (bindContext api c d rd r ti)))"
  by (simp add: bindContext_def Let_def split: prod.split option.split bool.split)

lemma rn_inv_flush: "rn_inv r \<Longrightarrow> rn_inv (snd (flushWindowSurfaceColorBuffer api w r))"
  by (simp add: flushWindowSurfaceColorBuffer_def split: prod.split option.split)

section \<open>The commands of a guest thread\<close>

inductive rn_step ::
  "'e egl_api \<Rightarrow> 'e renderer \<times> thread_info \<Rightarrow> 'e renderer \<times> thread_info \<Rightarrow> bool" for api where
  create_cb: "createColorBuffer api w h f r = Some (x, r') \<Longrightarrow> rn_step api (r, ti) (r', ti)"
| create_ctx: "createRenderContext api c s g r ti = Some (x, r', ti') \<Longrightarrow> rn_step api (r, ti) (r', ti')"
| create_win: "createWindowSurface api c w h r ti = Some (x, r', ti') \<Longrightarrow> rn_step api (r, ti) (r', ti')"
| destroy_ctx: "rn_step api (r, ti) (DestroyRenderContext x r ti)"
| destroy_win: "rn_step api (r, ti) (DestroyWindowSurface x r ti)"
| open_cb: "\<forall>ref. map_of (rn_colorbuffers r) x = Some ref \<longrightarrow> cbr_refcount ref + 1 \<noteq> 0 \<Longrightarrow>
    rn_step api (r, ti) (snd (openColorBuffer x r), ti)"
| close_cb: "rn_step api (r, ti) (closeColorBuffer x r, ti)"
| set_cb: "rn_step api (r, ti) (snd (setWindowSurfaceColorBuffer api x c r), ti)"
| flush: "rn_step api (r, ti) (snd (flushWindowSurfaceColorBuffer api x r), ti)"
| bind: "rn_step api (r, ti) (snd (bindContext api c d rd r ti))"
| drain_ctx: "rn_step api (r, ti) (drainRenderContext r ti)"
| drain_win: "rn_step api (r, ti) (drainWindowSurface r ti)"

lemma rn_step_inv [wf_intros]: "rn_step api s s' \<Longrightarrow> rn_inv (fst s) \<Longrightarrow> rn_inv (fst s')"
proof (induction rule: rn_step.induct)
  case (destroy_ctx r ti x)
  then show ?case by (simp add: DestroyRenderContext_def rn_inv_def)
next
  case (destroy_win r ti x)
  then show ?case
    by (simp add: DestroyWindowSurface_def rn_inv_def win_ok_erase split: option.split)
next
  case (drain_ctx r ti)
  then show ?case by (simp add: drainRenderContext_def rn_inv_def om_wf_fold_erase)
next
  case (drain_win r ti)
  then show ?case by (simp add: drainWindowSurface_def rn_inv_drain)
next
  case (create_cb w h f r x r' ti)
  then show ?case unfolding fst_conv using rn_inv_create_cb by blast
next
  case (create_ctx c s g r ti x r' ti')
  then show ?case unfolding fst_conv using rn_inv_create_context by blast
next
  case (create_win c w h r ti x r' ti')
  then show ?case unfolding fst_conv using rn_inv_create_window by blast
next
  case (open_cb r x ti)
  then show ?case unfolding fst_conv using rn_inv_open by blast
qed (simp_all add: rn_inv_close rn_inv_set_cb rn_inv_flush rn_inv_bind)

lemma rn_steps_inv: "(rn_step api)\<^sup>*\<^sup>* s s' \<Longrightarrow> rn_inv (fst s) \<Longrightarrow> rn_inv (fst s')"
  by (induction rule: rtranclp_induct) (auto intro: rn_step_inv)

text \<open>Opening and closing one buffer, as a sequence of increments and decrements.\<close>

fun run_refs :: "u32 \<Rightarrow> bool list \<Rightarrow> 'e renderer \<Rightarrow> 'e renderer" where
  "run_refs h [] r = r"
| "run_refs h (opens # bs) r =
     run_refs h bs (if opens then snd (openColorBuffer h r) else closeColorBuffer h r)"

fun count_refs :: "nat \<Rightarrow> bool list \<Rightarrow> nat option" where
  "count_refs n [] = Some n"
| "count_refs n (opens # bs) =
     (if opens then count_refs (n + 1) bs else if n = 1 then None else count_refs (n - 1) bs)"

lemma unat_minus_one_u32: "w \<noteq> 0 \<Longrightarrow> unat (w - 1 :: u32) = unat w - 1"
  by (simp add: unat_minus_one)

lemma run_refs_gone:
  "map_of (rn_colorbuffers r) h = None \<Longrightarrow> map_of (rn_colorbuffers (run_refs h bs r)) h = None"
proof (induction bs arbitrary: r)
  case (Cons b bs)
  then have "openColorBuffer h r = (- 1, r)" "closeColorBuffer h r = r"
    by (simp_all add: openColorBuffer_def closeColorBuffer_def unref_color_buffer_def)
  with Cons show ?case by simp
qed simp

lemma run_refs_count:
  "map_of (rn_colorbuffers r) h = Some ref \<Longrightarrow> cbr_refcount ref \<noteq> 0 \<Longrightarrow>
    unat (cbr_refcount ref) + length bs < 2 ^ 32 \<Longrightarrow>
    map_option (\<lambda>x. unat (cbr_refcount x)) (map_of (rn_colorbuffers (run_refs h bs r)) h) =
      count_refs (unat (cbr_refcount ref)) bs"
proof (induction bs arbitrary: r ref)
  case Nil
  then show ?case by simp
next
  case (Cons b bs)
  show ?case
  proof (cases b)
    case True
    have u: "unat (cbr_refcount ref + 1) = unat (cbr_refcount ref) + 1"
      using Cons.prems(3) by (intro unatSuc_u32) simp
    then have "cbr_refcount ref + 1 \<noteq> 0" by (metis add_is_0 one_neq_zero unat_0)
    with Cons.IH [of "snd (openColorBuffer h r)" "ref\<lparr>cbr_refcount := cbr_refcount ref + 1\<rparr>"] Cons.prems u True
    show ?thesis by (simp add: openColorBuffer_def)
  next
    case False
    have u: "unat (cbr_refcount ref - 1) = unat (cbr_refcount ref) - 1"
      using Cons.prems(2) by (rule unat_minus_one_u32)
    show ?thesis
    proof (cases "cbr_refcount ref = 1")
      case True
      then have "map_of (rn_colorbuffers (closeColorBuffer h r)) h = None"
        using Cons.prems(1) by (simp add: closeColorBuffer_def unref_color_buffer_def)
      with False True run_refs_gone show ?thesis by simp
    next
      case ne: False
      then have "cbr_refcount ref - 1 \<noteq> 0" "unat (cbr_refcount ref) \<noteq> 1"
        by (simp, metis unsigned_1 word_unat_eq_iff)
      with Cons.IH [of "closeColorBuffer h r" "ref\<lparr>cbr_refcount := cbr_refcount ref - 1\<rparr>"] Cons.prems u False
      show ?thesis by (simp add: closeColorBuffer_def unref_color_buffer_def)
    qed
  qed
qed

lemma fold_erase_lookup: "map_of (fold om_erase hs m) k = (if k \<in> set hs then None else map_of m k)"
  by (induction hs arbitrary: m) auto

lemma drain_windows_lookup:
  "map_of (rn_windows (fold drain_window hs r)) k = (if k \<in> set hs then None else map_of (rn_windows r) k)"
proof (induction hs arbitrary: r)
  case (Cons h hs)
  have "map_of (rn_windows (drain_window h r)) = (map_of (rn_windows r))(h := None)"
    by (auto simp: drain_window_def fun_eq_iff split: option.splits)
  with Cons show ?case by simp
qed simp

section \<open>Properties\<close>


definition empty_renderer :: "'e \<Rightarrow> 'e renderer" where
  "empty_renderer e = \<lparr>rn_next_handle = 0, rn_configs = [], rn_contexts = [], rn_windows = [],
     rn_colorbuffers = [], rn_surfaces = Map.empty, rn_next_object = 0, rn_native_windows = [],
     rn_context = 0, rn_pbuf_surface = 0, rn_pbuf_context = 0, rn_prev = (0, 0, 0), rn_egl = e\<rparr>"

definition empty_thread_info :: thread_info where
  "empty_thread_info = \<lparr>ti_context = None, ti_draw = None, ti_read = None, ti_context_set = [],
     ti_window_set = []\<rparr>"

lemma empty_renderer_inv: "rn_inv (empty_renderer e)"
  by (simp add: empty_renderer_def rn_inv_def refs_ok_def win_ok_def)

definition nothing_current :: "nat \<times> nat \<times> nat" where
  "nothing_current = (0, 0, 0)"

text \<open>A host whose EGL always succeeds, for the instances below: its state is what is current.\<close>

definition simple_egl :: "(nat \<times> nat \<times> nat) egl_api" where
  "simple_egl = \<lparr>egl_make_current = \<lambda>d rd c e. (True, (d, rd, c)), egl_current = \<lambda>e. e,
     egl_create_pbuffer = \<lambda>c w h e. (7, e), egl_destroy_surface = \<lambda>s e. e,
     egl_create_context = \<lambda>c s g e. (5, e), egl_create_window_surface = \<lambda>w e. (9, e),
     gl_clear = \<lambda>e. e, egl_swap_buffers = \<lambda>s e. e, cb_create = \<lambda>w h f e. (Some 3, e),
     cb_blit = \<lambda>c e. e\<rparr>"



lemma gen_loop_simple: "\<not> handle_taken r (next + 1) \<Longrightarrow> gen_loop r next = Some (next + 1)"
  by (subst gen_loop.simps) simp

lemma simple_create:
  "createColorBuffer simple_egl 64 64 0 (empty_renderer nothing_current) =
    Some (1, (empty_renderer nothing_current)\<lparr>rn_next_handle := 1, rn_colorbuffers :=
      [(1, \<lparr>cbr_cb = \<lparr>cb_id = 3, cb_width = 64, cb_height = 64\<rparr>, cbr_refcount = 1\<rparr>)]\<rparr>)"
  by (simp add: createColorBuffer_def simple_egl_def genHandle_def empty_renderer_def gen_loop_simple
      handle_taken_def)


text \<open>
  Creating a context always ends: as long as fewer than 2^32 - 1 contexts and windows
  exist, \<open>createRenderContext\<close> returns (its search for a free handle terminates), and when it
  succeeds the handle is neither 0 nor the handle of a live context or window, it names
  the new context, it is recorded for the thread, and every other context is untouched.
\<close>

theorem context_handle_fresh:
  assumes "length (rn_contexts r) + length (rn_windows r) + 1 < 2 ^ 32"
  shows "\<exists>x r' ti'. createRenderContext api c s g r ti = Some (x, r', ti') \<and>
    (if x = 0 then rn_contexts r' = rn_contexts r \<and> ti' = ti
     else \<not> handle_taken r x \<and> x \<in> set (ti_context_set ti') \<and>
       (\<exists>ctx. map_of (rn_contexts r') = (map_of (rn_contexts r))(x \<mapsto> ctx) \<and> rc_isGL2 ctx = g))"
proof -
  let ?p = "\<lambda>cfg. egl_create_context api (cfg_egl cfg)
      (if s = 0 then 0 else rc_context (the (map_of (rn_contexts r) s))) g (rn_egl r)"
  have h: "\<exists>i. genHandle (r\<lparr>rn_egl := e\<rparr>) = Some (i, r\<lparr>rn_egl := e, rn_next_handle := i\<rparr>) \<and> \<not> handle_taken r i" for e
    using genHandle_ok [of "r\<lparr>rn_egl := e\<rparr>"] assms by (simp add: handle_taken_def)
  show ?thesis
  proof (cases "config_get c (rn_configs r)")
    case None
    then show ?thesis by (simp add: createRenderContext_def)
  next
    case (Some cfg)
    obtain k e where k: "?p cfg = (k, e)" by fastforce
    obtain i where i: "genHandle (r\<lparr>rn_egl := e\<rparr>) = Some (i, r\<lparr>rn_egl := e, rn_next_handle := i\<rparr>)"
        "\<not> handle_taken r i" using h by blast
    then have "i \<noteq> 0" by (auto simp: handle_taken_def)
    with Some k i show ?thesis
      by (cases "s \<noteq> 0 \<and> map_of (rn_contexts r) s = None"; cases "k = 0")
        (auto simp: createRenderContext_def Let_def)
  qed
qed

theorem context_handle_fresh_witness:
  "\<exists>x r' ti'. createRenderContext simple_egl 0 0 True (empty_renderer nothing_current) empty_thread_info =
     Some (x, r', ti')"
  using context_handle_fresh [of "empty_renderer nothing_current" simple_egl 0 0 True empty_thread_info]
  by (auto simp: empty_renderer_def)



text \<open>
  When a guest thread ends, draining removes exactly the contexts and windows this thread
  created and empties its sets. But it also takes back a reference that was never counted:
  attaching a color buffer to a window does not raise the buffer's count, while draining the
  window lowers it, so a buffer with one reference, still held by the guest, disappears with the
  thread that showed it.
\<close>

theorem drain_drops_uncounted_reference:
  assumes "rn_inv r" "map_of (rn_windows r) w = Some (obj, old)" "w \<in> set (ti_window_set ti)"
    and "map_of (rn_colorbuffers r) b = Some ref" "cbr_refcount ref = 1" "b \<noteq> 0"
    and "setWindowSurfaceColorBuffer api w b r = (ok, r1)"
    and "drainWindowSurface r1 ti = (r2, ti2)"
  shows "ok \<and> map_of (rn_colorbuffers r1) b = Some ref \<and> map_of (rn_colorbuffers r2) b = None \<and>
    ti_window_set ti2 = [] \<and>
    (\<forall>k. map_of (rn_windows r2) k = (if k \<in> set (ti_window_set ti) then None else map_of (rn_windows r1) k))"
proof -
  have r1: "ok" "rn_colorbuffers r1 = rn_colorbuffers r" "map_of (rn_windows r1) w = Some (obj, b)"
    using assms(2,4,7) by (auto simp: setWindowSurfaceColorBuffer_def split: prod.splits)
  have gone: "map_of (rn_colorbuffers (fold drain_window hs s)) b = None"
    if "map_of (rn_colorbuffers s) b = None" for hs and s :: "'a renderer"
    using that
  proof (induction hs arbitrary: s)
    case (Cons h hs)
    then have "map_of (rn_colorbuffers (drain_window h s)) b = None"
      by (auto simp: drain_window_def unref_color_buffer_def split: option.splits prod.splits)
    with Cons.IH show ?case by simp
  qed simp
  have step: "map_of (rn_colorbuffers (fold drain_window hs s)) b = None"
    if "w \<in> set hs" "map_of (rn_windows s) w = Some (obj, b)"
      "map_of (rn_colorbuffers s) b = None \<or> map_of (rn_colorbuffers s) b = Some ref" for hs and s :: "'a renderer"
    using that
  proof (induction hs arbitrary: s)
    case (Cons h hs)
    show ?case
    proof (cases "h = w")
      case True
      with Cons.prems assms(5,6) have "map_of (rn_colorbuffers (drain_window h s)) b = None"
        by (auto simp: drain_window_def unref_color_buffer_def split: option.splits)
      then show ?thesis by (simp add: gone)
    next
      case False
      have "map_of (rn_colorbuffers (drain_window h s)) b = None \<or>
          map_of (rn_colorbuffers (drain_window h s)) b = Some ref"
        using Cons.prems(3) assms(5)
        by (auto simp: drain_window_def unref_color_buffer_def split: option.splits prod.splits)
      moreover have "map_of (rn_windows (drain_window h s)) w = Some (obj, b)"
        using Cons.prems(2) False by (auto simp: drain_window_def split: option.splits)
      ultimately show ?thesis using Cons.IH [of "drain_window h s"] Cons.prems(1) False by simp
    qed
  qed simp
  have "r2 = fold drain_window (ti_window_set ti) r1" "ti_window_set ti2 = []"
    using assms(8) by (auto simp: drainWindowSurface_def)
  with step [OF assms(3) r1(3)] r1 assms(4) drain_windows_lookup [of "ti_window_set ti" r1] show ?thesis
    by simp
qed

theorem drain_drops_uncounted_reference_witness:
  "\<exists>r1 r2. setWindowSurfaceColorBuffer simple_egl 2 1
      ((empty_renderer nothing_current)\<lparr>rn_windows := [(2, (0, 0))], rn_next_object := 1,
        rn_surfaces := Map.empty(0 \<mapsto> \<lparr>ws_surface = 7, ws_attached = None, ws_read_context = None,
          ws_draw_context = None, ws_width = 64, ws_height = 64, ws_config = 0\<rparr>),
        rn_colorbuffers := [(1, \<lparr>cbr_cb = \<lparr>cb_id = 3, cb_width = 64, cb_height = 64\<rparr>, cbr_refcount = 1\<rparr>)]\<rparr>) =
      (True, r1) \<and>
    drainWindowSurface r1 (empty_thread_info\<lparr>ti_window_set := [2]\<rparr>) = (r2, empty_thread_info) \<and>
    map_of (rn_colorbuffers r1) 1 \<noteq> None \<and> map_of (rn_colorbuffers r2) 1 = None"
proof -
  let ?r = "(empty_renderer nothing_current)\<lparr>rn_windows := [(2, (0, 0))], rn_next_object := 1,
        rn_surfaces := Map.empty(0 \<mapsto> \<lparr>ws_surface = 7, ws_attached = None, ws_read_context = None,
          ws_draw_context = None, ws_width = 64, ws_height = 64, ws_config = 0\<rparr>),
        rn_colorbuffers := [(1, \<lparr>cbr_cb = \<lparr>cb_id = 3, cb_width = 64, cb_height = 64\<rparr>, cbr_refcount = 1\<rparr>)]\<rparr>"
  let ?ti = "empty_thread_info\<lparr>ti_window_set := [2]\<rparr>"
  have i: "rn_inv ?r" by (auto simp: empty_renderer_def rn_inv_def refs_ok_def win_ok_def ran_def)
  obtain ok r1 where s: "setWindowSurfaceColorBuffer simple_egl 2 1 ?r = (ok, r1)" by fastforce
  obtain r2 ti2 where d: "drainWindowSurface r1 ?ti = (r2, ti2)" by fastforce
  then have "ti2 = empty_thread_info" by (auto simp: drainWindowSurface_def empty_thread_info_def)
  with drain_drops_uncounted_reference [OF i _ _ _ _ _ s d] s d show ?thesis by simp
qed

end
