(* ===== verification/Geometry.thy ===== *)
theory Geometry
  imports Anbox_Prelude
begin

text \<open>
  Rectangles and pixel densities (\<open>graphics/rect.h\<close>, \<open>graphics/rect.cpp\<close>,
  \<open>graphics/density.cpp\<close>). Coordinates are \<open>int32_t\<close>: every sum or difference goes
  through \<open>s32\<close>. Boost's \<open>split\<close> and \<open>lexical_cast\<close> are parameters of the stream
  extraction; a cast that throws is \<open>None\<close>.
\<close>

section \<open>Rectangles\<close>

record rect =
  rc_left :: int
  rc_top :: int
  rc_right :: int
  rc_bottom :: int

definition mk_rect :: "int \<Rightarrow> int \<Rightarrow> int \<Rightarrow> int \<Rightarrow> rect" where
  "mk_rect l t r b = \<lparr>rc_left = l, rc_top = t, rc_right = r, rc_bottom = b\<rparr>"

definition rect_Invalid :: rect where "rect_Invalid = mk_rect (- 1) (- 1) (- 1) (- 1)"
definition rect_Empty :: rect where "rect_Empty = mk_rect 0 0 0 0"

definition rect_of_size :: "int \<Rightarrow> int \<Rightarrow> rect" where
  "rect_of_size width height = mk_rect 0 0 width height"

definition rect_width :: "rect \<Rightarrow> int" where
  "rect_width r = s32 (rc_right r - rc_left r)"

definition rect_height :: "rect \<Rightarrow> int" where
  "rect_height r = s32 (rc_bottom r - rc_top r)"

definition rect_valid :: "rect \<Rightarrow> bool" where
  "rect_valid r \<longleftrightarrow> 0 \<le> rect_width r \<and> 0 \<le> rect_height r"

definition rect_merge :: "rect \<Rightarrow> rect \<Rightarrow> rect" where
  "rect_merge r rhs =
     mk_rect (min (rc_left r) (rc_left rhs)) (min (rc_top r) (rc_top rhs))
       (max (rc_right r) (rc_right rhs)) (max (rc_bottom r) (rc_bottom rhs))"

definition rect_translate :: "int \<Rightarrow> int \<Rightarrow> rect \<Rightarrow> rect" where
  "rect_translate x y r =
     mk_rect x y (s32 (x + rect_width r)) (s32 (y + rect_height r))"

definition rect_resize :: "int \<Rightarrow> int \<Rightarrow> rect \<Rightarrow> rect" where
  "rect_resize width height r =
     r\<lparr>rc_right := s32 (rc_left r + width), rc_bottom := s32 (rc_top r + height)\<rparr>"

text \<open>
  \<open>operator>>\<close>: a word of the stream holds two or four comma separated numbers; with another
  number of tokens, or when a cast throws, the rectangle keeps its value.
\<close>

definition rect_read ::
  "(string \<Rightarrow> char \<Rightarrow> string list) \<Rightarrow> (string \<Rightarrow> int option) \<Rightarrow> string \<Rightarrow> rect \<Rightarrow> rect" where
  "rect_read split lexical_cast str rect =
     (case split str CHR '','' of
        [a, b] \<Rightarrow>
          (case (lexical_cast a, lexical_cast b) of
             (Some w, Some h) \<Rightarrow> mk_rect 0 0 w h
           | _ \<Rightarrow> rect)
      | [a, b, c, d] \<Rightarrow>
          (case (lexical_cast a, lexical_cast b, lexical_cast c, lexical_cast d) of
             (Some l, Some t, Some r, Some b) \<Rightarrow> mk_rect l t r b
           | _ \<Rightarrow> rect)
      | _ \<Rightarrow> rect)"

section \<open>Density\<close>

datatype density_type = Density_low | Density_medium | Density_tv | Density_high | Density_xhigh | Density_xxhigh

fun density_value :: "density_type \<Rightarrow> nat" where
  "density_value Density_low = 120"
| "density_value Density_medium = 160"
| "density_value Density_tv = 213"
| "density_value Density_high = 240"
| "density_value Density_xhigh = 360"
| "density_value Density_xxhigh = 480"

definition current_density :: density_type where "current_density = Density_medium"

definition dp_to_pixel :: "u32 \<Rightarrow> int" where
  "dp_to_pixel dp =
     sint (dp * of_nat (density_value current_density) div of_nat (density_value Density_medium))"

section \<open>Lemmas\<close>

lemma mk_rect_sel [simp]:
  "rc_left (mk_rect l t r b) = l" "rc_top (mk_rect l t r b) = t"
  "rc_right (mk_rect l t r b) = r" "rc_bottom (mk_rect l t r b) = b"
  by (simp_all add: mk_rect_def)

lemma mk_rect_eq_iff [simp]:
  "mk_rect l t r b = mk_rect l' t' r' b' \<longleftrightarrow> l = l' \<and> t = t' \<and> r = r' \<and> b = b'"
  by (auto simp: mk_rect_def)

lemma s32_cong_add: "s32 (s32 a + b) = s32 (a + b)" "s32 (a + s32 b) = s32 (a + b)"
  unfolding s32_def
  by (metis signed_take_bit_add signed_take_bit_signed_take_bit min.idem)+

lemma s32_cong_diff: "s32 (s32 a - b) = s32 (a - b)" "s32 (a - s32 b) = s32 (a - b)"
  unfolding s32_def
  by (metis signed_take_bit_diff signed_take_bit_signed_take_bit min.idem)+

text \<open>The size of a rectangle survives a translation, even one that wraps around.\<close>

lemma rect_translate_size:
  "rect_width (rect_translate x y r) = rect_width r"
  "rect_height (rect_translate x y r) = rect_height r"
  by (simp_all add: rect_width_def rect_height_def rect_translate_def s32_cong_add s32_cong_diff)

lemma rect_resize_size:
  assumes "in_s32 w" "in_s32 h"
  shows "rect_width (rect_resize w h r) = w" "rect_height (rect_resize w h r) = h"
    "rc_left (rect_resize w h r) = rc_left r" "rc_top (rect_resize w h r) = rc_top r"
  using assms
  by (simp_all add: rect_width_def rect_height_def rect_resize_def s32_cong_diff)

text \<open>\<open>rect_merge\<close> is the join of the containment order.\<close>

definition rect_inside :: "rect \<Rightarrow> rect \<Rightarrow> bool" where
  "rect_inside a b \<longleftrightarrow> rc_left b \<le> rc_left a \<and> rc_top b \<le> rc_top a \<and>
     rc_right a \<le> rc_right b \<and> rc_bottom a \<le> rc_bottom b"

lemma rect_merge_least:
  "rect_inside (rect_merge a b) c \<longleftrightarrow> rect_inside a c \<and> rect_inside b c"
  by (auto simp: rect_inside_def rect_merge_def)

lemma rect_merge_upper: "rect_inside a (rect_merge a b)" "rect_inside b (rect_merge a b)"
  by (auto simp: rect_inside_def rect_merge_def)

lemma rect_inside_refl [simp]: "rect_inside r r"
  by (simp add: rect_inside_def)

lemma dp_to_pixel_exact: "unat dp < 2 ^ 24 \<Longrightarrow> dp_to_pixel dp = int (unat dp)"
proof -
  assume a: "unat dp < 2 ^ 24"
  have "unat (dp * 160) = unat dp * 160" using a by (simp add: unat_word_ariths)
  then have d: "unat (dp * 160 div 160) = unat dp"
    by (simp add: unat_div)
  then have "dp * 160 div 160 = dp" by (simp only: word_unat_eq_iff)
  moreover have "sint dp = int (unat dp)"
  proof -
    have "int (unat dp) < int (2 ^ 24)" using a by (simp only: of_nat_less_iff)
    then have "signed_take_bit 31 (int (unat dp)) = int (unat dp)"
      by (intro signed_take_bit_int_eq_self) (simp_all del: unat_of_nat of_nat_unat uint_nat)
    then show ?thesis by (simp add: sint_uint)
  qed
  ultimately show ?thesis by (simp add: dp_to_pixel_def current_density_def)
qed

end
