(* ===== verification/Window_Manager.thy ===== *)
theory Window_Manager
  imports Geometry Renderer_State
begin

text \<open>
  Windows and window managers (\<open>wm/window.cpp\<close>, \<open>wm/window_state.cpp\<close>, \<open>wm/stack.cpp\<close>,
  \<open>wm/multi_window_manager.cpp\<close>, \<open>wm/single_window_manager.cpp\<close>) and the null platform
  (\<open>platform/null/platform.cpp\<close>). Windows are shared objects, so they live in a heap; the
  renderer they attach to is the model of \<open>Renderer_State\<close>. The platform that creates windows
  is the interface \<open>window_platform\<close>, a function from the desktop to the desktop. The calls that
  leave the process (requests to Android through \<open>AndroidApiStub\<close>, the signal of the single
  window manager) are appended to a trace. A manager owns its windows: a window is destroyed
  when it leaves the table of the manager.
\<close>

section \<open>Stacks and window states\<close>

datatype stack_id = Stack_Invalid | Stack_Default | Stack_Fullscreen | Stack_Freeform

fun stack_print :: "stack_id \<Rightarrow> string" where
  "stack_print Stack_Default = ''default''"
| "stack_print Stack_Fullscreen = ''fullscreen''"
| "stack_print Stack_Freeform = ''freeform''"
| "stack_print Stack_Invalid = ''''"

definition stack_read :: "string \<Rightarrow> stack_id \<Rightarrow> stack_id" where
  "stack_read s stack =
     (if s = ''default'' then Stack_Default
      else if s = ''fullscreen'' then Stack_Fullscreen
      else if s = ''freeform'' then Stack_Freeform
      else stack)"

record window_state =
  st_display :: int
  st_has_surface :: bool
  st_frame :: rect
  st_package_name :: string
  st_task :: int
  st_stack :: stack_id

definition new_window_state :: window_state where
  "new_window_state = \<lparr>st_display = - 1, st_has_surface = False, st_frame = rect_Invalid,
     st_package_name = '''', st_task = - 1, st_stack = Stack_Invalid\<rparr>"

section \<open>Windows\<close>

record window =
  wi_renderer :: bool      \<comment> \<open>the renderer pointer is set\<close>
  wi_task :: int
  wi_frame :: rect
  wi_title :: string
  wi_attached :: bool
  wi_native :: nat         \<comment> \<open>what the virtual \<open>native_handle\<close> of the platform's window returns\<close>

datatype wm_effect =
    Resize_task int rect int
  | Set_focused_task int
  | Remove_task int
  | Terminate_self

record 'e desktop =
  dk_heap :: "nat \<rightharpoonup> window"
  dk_next :: nat                          \<comment> \<open>addresses from here on are free\<close>
  dk_renderer :: "'e renderer"
  dk_tasks :: "(int, nat) omap"           \<comment> \<open>\<open>MultiWindowManager::windows_\<close>\<close>
  dk_single :: "nat option"               \<comment> \<open>\<open>SingleWindowManager::window_\<close>\<close>
  dk_effects :: "wm_effect list"

definition new_window :: "bool \<Rightarrow> int \<Rightarrow> rect \<Rightarrow> string \<Rightarrow> nat \<Rightarrow> window" where
  "new_window renderer task frame title native =
     \<lparr>wi_renderer = renderer, wi_task = task, wi_frame = frame, wi_title = title,
      wi_attached = False, wi_native = native\<rparr>"

definition window_update_state :: "window_state list \<Rightarrow> window \<Rightarrow> window" where
  "window_update_state states w = w"

definition window_update_frame :: "rect \<Rightarrow> window \<Rightarrow> window" where
  "window_update_frame frame w = (if frame = wi_frame w then w else w\<lparr>wi_frame := frame\<rparr>)"

definition window_attach :: "'e egl_api \<Rightarrow> window \<Rightarrow> 'e renderer \<Rightarrow> bool \<times> window \<times> 'e renderer" where
  "window_attach api w r =
     (if \<not> wi_renderer w then (False, w, r)
      else
        (case createNativeWindow api (wi_native w) r of
           (s, r) \<Rightarrow> (s \<noteq> None, w\<lparr>wi_attached := (s \<noteq> None)\<rparr>, r)))"

text \<open>
  \<open>release\<close> calls the virtual \<open>native_handle\<close>. Called on a live window this is the handle of the
  platform's window; called from the destructor of the base class it is the base class's
  version, which returns 0.
\<close>

definition window_release :: "'e egl_api \<Rightarrow> nat \<Rightarrow> window \<Rightarrow> 'e renderer \<Rightarrow> 'e renderer" where
  "window_release api native w r =
     (if \<not> wi_renderer w \<or> \<not> wi_attached w then r else destroyNativeWindow api native r)"

definition attach_at :: "'e egl_api \<Rightarrow> nat \<Rightarrow> ('e, 'p) desktop_scheme \<Rightarrow> ('e, 'p) desktop_scheme" where
  "attach_at api a d =
     (case dk_heap d a of
        None \<Rightarrow> d
      | Some w \<Rightarrow>
          (case window_attach api w (dk_renderer d) of
             (_, w, r) \<Rightarrow> d\<lparr>dk_heap := (dk_heap d)(a \<mapsto> w), dk_renderer := r\<rparr>))"

definition release_at :: "'e egl_api \<Rightarrow> nat \<Rightarrow> ('e, 'p) desktop_scheme \<Rightarrow> ('e, 'p) desktop_scheme" where
  "release_at api a d =
     (case dk_heap d a of
        None \<Rightarrow> d
      | Some w \<Rightarrow> d\<lparr>dk_renderer := window_release api (wi_native w) w (dk_renderer d)\<rparr>)"

definition destroy_at :: "'e egl_api \<Rightarrow> nat \<Rightarrow> ('e, 'p) desktop_scheme \<Rightarrow> ('e, 'p) desktop_scheme" where
  "destroy_at api a d =
     (case dk_heap d a of
        None \<Rightarrow> d
      | Some w \<Rightarrow> d\<lparr>dk_heap := (dk_heap d)(a := None),
                   dk_renderer := window_release api 0 w (dk_renderer d)\<rparr>)"

section \<open>MultiWindowManager\<close>

type_synonym ('e, 'p) create_window =
  "int \<Rightarrow> rect \<Rightarrow> string \<Rightarrow> ('e, 'p) desktop_scheme \<Rightarrow> nat option res \<times> ('e, 'p) desktop_scheme"

definition multi_resize_task :: "int \<Rightarrow> rect \<Rightarrow> int \<Rightarrow> ('e, 'p) desktop_scheme \<Rightarrow> ('e, 'p) desktop_scheme" where
  "multi_resize_task task rect mode d = d\<lparr>dk_effects := dk_effects d @ [Resize_task task rect mode]\<rparr>"

definition multi_set_focused_task :: "int \<Rightarrow> ('e, 'p) desktop_scheme \<Rightarrow> ('e, 'p) desktop_scheme" where
  "multi_set_focused_task task d = d\<lparr>dk_effects := dk_effects d @ [Set_focused_task task]\<rparr>"

definition multi_remove_task :: "int \<Rightarrow> ('e, 'p) desktop_scheme \<Rightarrow> ('e, 'p) desktop_scheme" where
  "multi_remove_task task d = d\<lparr>dk_effects := dk_effects d @ [Remove_task task]\<rparr>"

definition add_task_update ::
  "window_state \<Rightarrow> (int, window_state list) omap \<Rightarrow> (int, window_state list) omap" where
  "add_task_update window tu =
     (case map_of tu (st_task window) of
        None \<Rightarrow> om_insert (st_task window) [window] tu
      | Some ws \<Rightarrow> om_put (st_task window) (ws @ [window]) tu)"

definition window_title :: "(string \<Rightarrow> string option) \<Rightarrow> window_state \<Rightarrow> string" where
  "window_title find_by_package window =
     (case find_by_package (st_package_name window) of
        None \<Rightarrow> st_package_name window
      | Some name \<Rightarrow> name)"

text \<open>
  The first loop of \<open>apply_window_state_update\<close>. The weak pointer to the platform is the option;
  the database of applications answers the name of a known package. An exception of
  \<open>create_window\<close> leaves the loop.
\<close>

fun apply_updated ::
  "'e egl_api \<Rightarrow> ('e, 'p) create_window option \<Rightarrow> (string \<Rightarrow> string option) \<Rightarrow> window_state list \<Rightarrow>
   (int, window_state list) omap \<Rightarrow> ('e, 'p) desktop_scheme \<Rightarrow>
   exn option \<times> (int, window_state list) omap \<times> ('e, 'p) desktop_scheme" where
  "apply_updated api platform app_db [] tu d = (None, tu, d)"
| "apply_updated api platform app_db (window # rest) tu d =
     (if st_stack window \<noteq> Stack_Freeform then apply_updated api platform app_db rest tu d
      else if \<not> st_has_surface window then apply_updated api platform app_db rest tu d
      else if map_of (dk_tasks d) (st_task window) \<noteq> None
      then apply_updated api platform app_db rest (add_task_update window tu) d
      else
        (case platform of
           None \<Rightarrow> apply_updated api platform app_db rest tu d
         | Some create_window \<Rightarrow>
             (case create_window (st_task window) (st_frame window) (window_title app_db window) d of
                (Inl e, d) \<Rightarrow> (Some e, tu, d)
              | (Inr None, d) \<Rightarrow>
                  apply_updated api platform app_db rest tu (multi_remove_task (st_task window) d)
              | (Inr (Some a), d) \<Rightarrow>
                  (let d = attach_at api a d
                   in apply_updated api platform app_db rest tu
                        (d\<lparr>dk_tasks := om_insert (st_task window) a (dk_tasks d)\<rparr>)))))"

fun send_task_updates ::
  "(int, window_state list) omap \<Rightarrow> ('e, 'p) desktop_scheme \<Rightarrow> ('e, 'p) desktop_scheme" where
  "send_task_updates [] d = d"
| "send_task_updates ((task, states) # rest) d =
     send_task_updates rest
       (case map_of (dk_tasks d) task of
          None \<Rightarrow> d
        | Some a \<Rightarrow> d\<lparr>dk_heap := (dk_heap d)(a := map_option (window_update_state states) (dk_heap d a))\<rparr>)"

fun apply_removed ::
  "'e egl_api \<Rightarrow> (int, window_state list) omap \<Rightarrow> window_state list \<Rightarrow>
   ('e, 'p) desktop_scheme \<Rightarrow> ('e, 'p) desktop_scheme" where
  "apply_removed api tu [] d = d"
| "apply_removed api tu (window # rest) d =
     apply_removed api tu rest
       (case map_of (dk_tasks d) (st_task window) of
          None \<Rightarrow> d
        | Some a \<Rightarrow>
            (if map_of tu (st_task window) = None
             then destroy_at api a
               (release_at api a d \<lparr>dk_tasks := om_erase (st_task window) (dk_tasks d)\<rparr>)
             else d))"

definition apply_window_state_update ::
  "'e egl_api \<Rightarrow> ('e, 'p) create_window option \<Rightarrow> (string \<Rightarrow> string option) \<Rightarrow>
   window_state list \<Rightarrow> window_state list \<Rightarrow>
   ('e, 'p) desktop_scheme \<Rightarrow> exn option \<times> ('e, 'p) desktop_scheme" where
  "apply_window_state_update api platform app_db updated removed d =
     (case apply_updated api platform app_db updated [] d of
        (Some e, _, d) \<Rightarrow> (Some e, d)
      | (None, tu, d) \<Rightarrow> (None, apply_removed api tu removed (send_task_updates tu d)))"

definition find_window_for_task :: "('e, 'p) desktop_scheme \<Rightarrow> int \<Rightarrow> nat option" where
  "find_window_for_task d task =
     map_option snd
       (find (\<lambda>(_, a). map_option wi_task (dk_heap d a) = Some task) (dk_tasks d))"

section \<open>SingleWindowManager\<close>

definition single_setup ::
  "'e egl_api \<Rightarrow> ('e, 'p) create_window option \<Rightarrow> rect \<Rightarrow> ('e, 'p) desktop_scheme \<Rightarrow>
   exn option \<times> ('e, 'p) desktop_scheme" where
  "single_setup api platform window_size d =
     (case platform of
        None \<Rightarrow> (Some (Runtime_error ''Can't create window as we don't have a platform abstraction''), d)
      | Some create_window \<Rightarrow>
          (case create_window 0 window_size ''Anbox - Android in a Box'' d of
             (Inl e, d) \<Rightarrow> (Some e, d)
           | (Inr None, d) \<Rightarrow> (Some (Undefined ''call through a null window''), d\<lparr>dk_single := None\<rparr>)
           | (Inr (Some a), d) \<Rightarrow> (None, attach_at api a (d\<lparr>dk_single := Some a\<rparr>))))"

definition single_apply_window_state_update ::
  "window_state list \<Rightarrow> window_state list \<Rightarrow> ('e, 'p) desktop_scheme \<Rightarrow> ('e, 'p) desktop_scheme" where
  "single_apply_window_state_update updated removed d = d"

definition single_find_window_for_task :: "('e, 'p) desktop_scheme \<Rightarrow> int \<Rightarrow> nat option" where
  "single_find_window_for_task d task = dk_single d"

definition single_resize_task :: "int \<Rightarrow> rect \<Rightarrow> int \<Rightarrow> ('e, 'p) desktop_scheme \<Rightarrow> ('e, 'p) desktop_scheme" where
  "single_resize_task task rect mode d = d"

definition single_set_focused_task :: "int \<Rightarrow> ('e, 'p) desktop_scheme \<Rightarrow> ('e, 'p) desktop_scheme" where
  "single_set_focused_task task d = d"

definition single_remove_task :: "int \<Rightarrow> ('e, 'p) desktop_scheme \<Rightarrow> ('e, 'p) desktop_scheme" where
  "single_remove_task task d =
     (if task \<noteq> 0 then d else d\<lparr>dk_effects := dk_effects d @ [Terminate_self]\<rparr>)"

section \<open>NullPlatform\<close>

definition null_create_window :: "('e, 'p) create_window" where
  "null_create_window task frame title d =
     (Inr (Some (dk_next d)),
      d\<lparr>dk_heap := (dk_heap d)(dk_next d \<mapsto> new_window False task frame title 0),
        dk_next := Suc (dk_next d)\<rparr>)"

section \<open>The invariant of the desktop\<close>

text \<open>
  The table of tasks is ordered, every entry points to a live window of that task, and
  addresses not yet handed out are free.
\<close>

definition desk_inv :: "('e, 'p) desktop_scheme \<Rightarrow> bool" where
  "desk_inv d \<longleftrightarrow> om_wf (dk_tasks d) \<and>
     (\<forall>(t, a) \<in> set (dk_tasks d). \<exists>w. dk_heap d a = Some w \<and> wi_task w = t) \<and>
     (\<forall>a. dk_next d \<le> a \<longrightarrow> dk_heap d a = None)"

text \<open>What a call that is not about the tables leaves alone.\<close>

definition same_windows :: "('e, 'p) desktop_scheme \<Rightarrow> ('e, 'p) desktop_scheme \<Rightarrow> bool" where
  "same_windows d d' \<longleftrightarrow> dk_heap d' = dk_heap d \<and> dk_next d' = dk_next d \<and> dk_tasks d' = dk_tasks d"

lemma desk_inv_same: "same_windows d d' \<Longrightarrow> desk_inv d' = desk_inv d"
  by (simp add: same_windows_def desk_inv_def)

lemma desk_inv_entry:
  "desk_inv d \<Longrightarrow> (t, a) \<in> set (dk_tasks d) \<Longrightarrow> \<exists>w. dk_heap d a = Some w \<and> wi_task w = t"
  by (auto simp: desk_inv_def)

lemma desk_inv_distinct:
  "desk_inv d \<Longrightarrow> (t, a) \<in> set (dk_tasks d) \<Longrightarrow> (u, a) \<in> set (dk_tasks d) \<Longrightarrow> t = u"
  by (metis desk_inv_entry option.inject)

lemma om_wf_map_of: "om_wf m \<Longrightarrow> (k, v) \<in> set m \<Longrightarrow> map_of m k = Some v"
  using om_wf_distinct by (metis map_of_eq_Some_iff)

lemma find_window_sound:
  "find_window_for_task d t = Some a \<Longrightarrow> \<exists>w. dk_heap d a = Some w \<and> wi_task w = t"
  by (auto simp: find_window_for_task_def find_Some_iff)

lemma find_window_eq_map_of:
  assumes "desk_inv d"
  shows "find_window_for_task d t = map_of (dk_tasks d) t"
proof -
  have "find (\<lambda>(_, a). map_option wi_task (dk_heap d a) = Some t) xs = find (\<lambda>(u, _). u = t) xs"
    if "set xs \<subseteq> set (dk_tasks d)" for xs
    using that
  proof (induction xs)
    case (Cons x xs)
    obtain u a where x: "x = (u, a)" by (cases x)
    with Cons.prems obtain w where "dk_heap d a = Some w" "wi_task w = u"
      using desk_inv_entry [OF assms, of u a] by auto
    with Cons x show ?case by simp
  qed simp
  moreover have "map_option snd (find (\<lambda>(u, _). u = t) xs) = map_of xs t" for xs :: "(int, nat) omap"
    by (induction xs) auto
  ultimately show ?thesis by (simp add: find_window_for_task_def)
qed

lemma attach_at_tables [simp]:
  "dk_tasks (attach_at api a d) = dk_tasks d" "dk_next (attach_at api a d) = dk_next d"
  "dk_effects (attach_at api a d) = dk_effects d"
  "map_option wi_task (dk_heap (attach_at api a d) b) = map_option wi_task (dk_heap d b)"
  by (cases "dk_heap d a"; auto simp: attach_at_def window_attach_def split: prod.splits)+

lemma attach_at_live:
  "dk_heap (attach_at api a d) b = None \<longleftrightarrow> dk_heap d b = None"
  by (auto simp: attach_at_def split: option.splits prod.splits)

lemma desk_inv_alt:
  "desk_inv d \<longleftrightarrow> om_wf (dk_tasks d) \<and>
     (\<forall>(t, a) \<in> set (dk_tasks d). map_option wi_task (dk_heap d a) = Some t) \<and>
     (\<forall>a. dk_next d \<le> a \<longrightarrow> dk_heap d a = None)"
  by (simp add: desk_inv_def case_prod_beta map_option_eq_Some conj_commute)

lemma desk_inv_attach [wf_intros]: "desk_inv d \<Longrightarrow> desk_inv (attach_at api a d)"
  by (simp add: desk_inv_alt attach_at_live)

lemma desk_inv_insert_task:
  assumes "desk_inv d" "map_option wi_task (dk_heap d a) = Some t"
  shows "desk_inv (d\<lparr>dk_tasks := om_insert t a (dk_tasks d)\<rparr>)"
  using assms om_set_insert [of t a "dk_tasks d"]
  unfolding desk_inv_alt by fastforce

lemma release_at_tables [simp]:
  "dk_tasks (release_at api a d) = dk_tasks d" "dk_next (release_at api a d) = dk_next d"
  "dk_effects (release_at api a d) = dk_effects d" "dk_heap (release_at api a d) = dk_heap d"
  by (auto simp: release_at_def split: option.splits)

lemma destroy_at_tables [simp]:
  "dk_tasks (destroy_at api a d) = dk_tasks d" "dk_next (destroy_at api a d) = dk_next d"
  "dk_effects (destroy_at api a d) = dk_effects d"
  "dk_heap (destroy_at api a d) = (dk_heap d)(a := None)"
  by (auto simp: destroy_at_def split: option.splits)

text \<open>Removing one task: the body of the last loop.\<close>

definition remove_one ::
  "'e egl_api \<Rightarrow> (int, window_state list) omap \<Rightarrow> int \<Rightarrow> ('e, 'p) desktop_scheme \<Rightarrow> ('e, 'p) desktop_scheme" where
  "remove_one api tu t d =
     (case map_of (dk_tasks d) t of
        None \<Rightarrow> d
      | Some a \<Rightarrow>
          (if map_of tu t = None
           then destroy_at api a (release_at api a d \<lparr>dk_tasks := om_erase t (dk_tasks d)\<rparr>)
           else d))"

lemma apply_removed_Cons:
  "apply_removed api tu (window # rest) d =
     apply_removed api tu rest (remove_one api tu (st_task window) d)"
  by (simp add: remove_one_def)

lemma desk_inv_remove_one [wf_intros]:
  assumes "desk_inv d"
  shows "desk_inv (remove_one api tu t d)"
proof -
  have "(u, b) \<in> set (om_erase t (dk_tasks d)) \<Longrightarrow> map_of (dk_tasks d) t = Some a \<Longrightarrow> b \<noteq> a" for u a b
    using desk_inv_distinct [OF assms, of u b t] map_of_SomeD by (fastforce simp: om_erase_def)
  with assms show ?thesis
    unfolding desk_inv_def remove_one_def by (auto simp: om_erase_def split: option.splits)
qed

lemma remove_one_lookup:
  "map_of (dk_tasks (remove_one api tu t d)) =
     (if map_of tu t = None then (map_of (dk_tasks d))(t := None) else map_of (dk_tasks d))"
  by (auto simp: remove_one_def fun_eq_iff split: option.splits)

lemma remove_one_effects [simp]: "dk_effects (remove_one api tu t d) = dk_effects d"
  by (auto simp: remove_one_def split: option.splits)

lemma apply_removed_spec:
  "desk_inv d \<Longrightarrow> desk_inv (apply_removed api tu removed d) \<and>
     dk_effects (apply_removed api tu removed d) = dk_effects d \<and>
     map_of (dk_tasks (apply_removed api tu removed d)) t =
       (if t \<in> st_task ` set removed \<and> map_of tu t = None then None else map_of (dk_tasks d) t)"
proof (induction removed arbitrary: d)
  case (Cons window removed)
  from Cons.IH [OF desk_inv_remove_one [OF Cons.prems], of api tu "st_task window"]
  show ?case by (auto simp: apply_removed_Cons remove_one_lookup simp del: apply_removed.simps)
qed simp

lemma send_task_updates_id [simp]: "send_task_updates tu d = d"
proof -
  have "(dk_heap d)(a := map_option (window_update_state states) (dk_heap d a)) = dk_heap d" for a states
    by (auto simp: window_update_state_def option.map_ident fun_eq_iff map_option_case split: option.splits)
  then show ?thesis
    by (induction tu d rule: send_task_updates.induct) (simp_all split: option.splits)
qed

section \<open>The interface of a platform\<close>

text \<open>
  What the managers rely on: a created window is a new object for the task, with the frame and
  title asked for and not attached; a call that answers a null pointer or throws leaves the
  windows alone; no call touches the manager's own table or sends a request.
\<close>

locale window_platform =
  fixes create :: "('e, 'p) create_window"
  assumes create_ok:
    "create t f ti d = (Inr (Some a), d') \<Longrightarrow> \<forall>b. dk_next d \<le> b \<longrightarrow> dk_heap d b = None \<Longrightarrow>
       dk_heap d a = None \<and> (\<forall>b. dk_next d' \<le> b \<longrightarrow> dk_heap d' b = None) \<and>
       (\<exists>w. dk_heap d' = (dk_heap d)(a \<mapsto> w) \<and> wi_task w = t \<and> wi_frame w = f \<and>
            wi_title w = ti \<and> \<not> wi_attached w)"
  and create_null: "create t f ti d = (Inr None, d') \<Longrightarrow> dk_heap d' = dk_heap d \<and> dk_next d' = dk_next d"
  and create_exn: "create t f ti d = (Inl e, d') \<Longrightarrow> dk_heap d' = dk_heap d \<and> dk_next d' = dk_next d"
  and create_tables: "dk_tasks (snd (create t f ti d)) = dk_tasks d"
    "dk_effects (snd (create t f ti d)) = dk_effects d"
begin

lemma create_inv:
  assumes "desk_inv d" "create t f ti d = (x, d')"
  shows "desk_inv d'"
proof -
  have tabs: "dk_tasks d' = dk_tasks d"
    using create_tables [of t f ti d] assms(2) by simp
  have free: "\<forall>b. dk_next d \<le> b \<longrightarrow> dk_heap d b = None"
    using assms(1) by (simp add: desk_inv_def)
  show ?thesis
  proof (cases x)
    case (Inl e)
    with assms tabs create_exn [of t f ti d e d'] show ?thesis by (simp add: desk_inv_def)
  next
    case (Inr o')
    show ?thesis
    proof (cases o')
      case None
      with assms tabs Inr create_null [of t f ti d d'] show ?thesis by (simp add: desk_inv_def)
    next
      case (Some a)
      with assms(2) Inr create_ok [of t f ti d a d'] free obtain w where
        "dk_heap d a = None" "\<forall>b. dk_next d' \<le> b \<longrightarrow> dk_heap d' b = None"
        "dk_heap d' = (dk_heap d)(a \<mapsto> w)" by blast
      with assms(1) tabs show ?thesis unfolding desk_inv_def by fastforce
    qed
  qed
qed

lemma created_entry:
  assumes "desk_inv d" "create t f ti d = (Inr (Some a), d')"
  shows "desk_inv ((attach_at api a d')\<lparr>dk_tasks := om_insert t a (dk_tasks (attach_at api a d'))\<rparr>)"
proof -
  have "map_option wi_task (dk_heap d' a) = Some t"
    using create_ok [OF assms(2)] assms(1) by (auto simp: desk_inv_def)
  then show ?thesis
    using create_inv [OF assms] by (intro desk_inv_insert_task desk_inv_attach) simp_all
qed

end

section \<open>What an update does\<close>

text \<open>The tasks an update asks windows for, one entry per window state.\<close>

definition requested :: "window_state list \<Rightarrow> int list" where
  "requested ws = map st_task (filter (\<lambda>w. st_stack w = Stack_Freeform \<and> st_has_surface w) ws)"

lemma add_task_update_keys:
  "om_wf tu \<Longrightarrow> om_wf (add_task_update w tu) \<and>
     dom (map_of (add_task_update w tu)) = insert (st_task w) (dom (map_of tu))"
  by (auto simp: add_task_update_def om_lookup_insert dom_def split: option.splits)

lemma om_insert_dom:
  "om_wf m \<Longrightarrow> dom (map_of (om_insert k v m)) = insert k (dom (map_of m))"
  by (auto simp: om_lookup_insert dom_def)

lemma desk_inv_effects [simp]: "desk_inv (d\<lparr>dk_effects := es\<rparr>) = desk_inv d"
  by (simp add: desk_inv_def)

lemma repeated_new:
  assumes "t \<notin> D"
  shows "{u \<in> set rs. u \<in> insert t D \<or> 2 \<le> count_list rs u} =
    {u \<in> set (t # rs). u \<in> D \<or> 2 \<le> count_list (t # rs) u}"
proof -
  have "t \<in> set rs \<longleftrightarrow> 1 \<le> count_list rs t"
    by (metis count_list_0_iff less_one linorder_not_less)
  with assms show ?thesis by auto
qed

lemma repeated_known:
  "t \<in> D \<Longrightarrow> {u \<in> set (t # rs). u \<in> D \<or> 2 \<le> count_list (t # rs) u} =
    insert t {u \<in> set rs. u \<in> D \<or> 2 \<le> count_list rs u}"
  by auto

context window_platform
begin

lemma apply_updated_inv:
  "desk_inv d \<Longrightarrow> apply_updated api (Some create) app_db ws tu d = (x, tu', d') \<Longrightarrow>
     desk_inv d' \<and> (\<exists>es. dk_effects d' = dk_effects d @ es)"
proof (induction ws arbitrary: tu d)
  case (Cons w ws)
  let ?skip = "st_stack w \<noteq> Stack_Freeform \<or> \<not> st_has_surface w"
  consider (skip) "?skip" | (known) "\<not> ?skip" "map_of (dk_tasks d) (st_task w) \<noteq> None"
    | (new) "\<not> ?skip" "map_of (dk_tasks d) (st_task w) = None" by blast
  then show ?case
  proof cases
    case new
    obtain y d1 where c: "create (st_task w) (st_frame w) (window_title app_db w) d = (y, d1)"
      by (metis surj_pair)
    have i: "desk_inv d1" and e: "dk_effects d1 = dk_effects d"
      using create_inv [OF Cons.prems(1) c]
        create_tables(2) [of "st_task w" "st_frame w" "window_title app_db w" d] c by simp_all
    show ?thesis
    proof (cases y)
      case (Inl ex)
      with new c i e Cons.prems(2) show ?thesis by auto
    next
      case (Inr o')
      show ?thesis
      proof (cases o')
        case None
        with Inr new c Cons.prems(2) have
          "apply_updated api (Some create) app_db ws tu (multi_remove_task (st_task w) d1) = (x, tu', d')"
          by simp
        from Cons.IH [OF _ this] i e show ?thesis by (auto simp: multi_remove_task_def)
      next
        case (Some a)
        with Inr new c Cons.prems(2) have
          "apply_updated api (Some create) app_db ws tu
             ((attach_at api a d1)\<lparr>dk_tasks := om_insert (st_task w) a (dk_tasks (attach_at api a d1))\<rparr>)
             = (x, tu', d')"
          by (simp add: Let_def)
        from Cons.IH [OF _ this] created_entry [OF Cons.prems(1), of _ _ _ a d1] c Inr Some e
        show ?thesis by auto
      qed
    qed
  qed (use Cons in \<open>auto split: if_splits\<close>)
qed simp

text \<open>
  When every window asked for was created (no exception, no task sent back to Android), the
  loop adds the requested tasks, and collects updates for exactly those that were known or were
  requested more than once.
\<close>

lemma apply_updated_keys:
  "desk_inv d \<Longrightarrow> om_wf tu \<Longrightarrow>
   apply_updated api (Some create) app_db ws tu d = (None, tu', d') \<Longrightarrow>
   dk_effects d' = dk_effects d \<Longrightarrow>
     dom (map_of (dk_tasks d')) = dom (map_of (dk_tasks d)) \<union> set (requested ws) \<and>
     dom (map_of tu') = dom (map_of tu) \<union>
       {t \<in> set (requested ws). t \<in> dom (map_of (dk_tasks d)) \<or> 2 \<le> count_list (requested ws) t}"
proof (induction ws arbitrary: tu d)
  case Nil
  then show ?case by (simp add: requested_def)
next
  case (Cons w ws)
  let ?skip = "st_stack w \<noteq> Stack_Freeform \<or> \<not> st_has_surface w"
  consider (skip) "?skip" | (known) "\<not> ?skip" "map_of (dk_tasks d) (st_task w) \<noteq> None"
    | (new) "\<not> ?skip" "map_of (dk_tasks d) (st_task w) = None" by blast
  then show ?case
  proof cases
    case skip
    then have "requested (w # ws) = requested ws" by (auto simp: requested_def)
    with skip Cons show ?thesis by (auto split: if_splits)
  next
    case known
    then have r: "requested (w # ws) = st_task w # requested ws" by (simp add: requested_def)
    have k: "om_wf (add_task_update w tu)"
      "dom (map_of (add_task_update w tu)) = insert (st_task w) (dom (map_of tu))"
      using add_task_update_keys [OF Cons.prems(2)] by auto
    from known Cons.prems(3) have
      "apply_updated api (Some create) app_db ws (add_task_update w tu) d = (None, tu', d')" by simp
    from Cons.IH [OF Cons.prems(1) k(1) this Cons.prems(4)] known show ?thesis
      unfolding r k(2) using repeated_known [of "st_task w" "dom (map_of (dk_tasks d))"] by auto
  next
    case new
    then have r: "requested (w # ws) = st_task w # requested ws" by (simp add: requested_def)
    obtain y d1 where c: "create (st_task w) (st_frame w) (window_title app_db w) d = (y, d1)"
      by (metis surj_pair)
    have tabs: "dk_tasks d1 = dk_tasks d" "dk_effects d1 = dk_effects d"
      using create_tables [of "st_task w" "st_frame w" "window_title app_db w" d] c by simp_all
    have i: "desk_inv d1" using create_inv [OF Cons.prems(1) c] .
    consider (exn) e where "y = Inl e" | (null) "y = Inr None" | (ok) a where "y = Inr (Some a)"
      by (metis option.exhaust sum.exhaust)
    then show ?thesis
    proof cases
      case exn
      with new c Cons.prems(3) show ?thesis by simp
    next
      case null
      with new c Cons.prems(3) have s:
        "apply_updated api (Some create) app_db ws tu (multi_remove_task (st_task w) d1) = (None, tu', d')"
        by simp
      have "desk_inv (multi_remove_task (st_task w) d1)" using i by (simp add: multi_remove_task_def)
      from apply_updated_inv [OF this s] tabs(2) Cons.prems(4) show ?thesis
        by (auto simp: multi_remove_task_def)
    next
      case ok
      let ?d = "(attach_at api a d1)\<lparr>dk_tasks := om_insert (st_task w) a (dk_tasks d)\<rparr>"
      have inv: "desk_inv ?d"
        using created_entry [OF Cons.prems(1)] c ok tabs(1) by (metis attach_at_tables(1))
      have run: "apply_updated api (Some create) app_db ws tu ?d = (None, tu', d')"
        using new c ok Cons.prems(3) tabs(1) by (simp add: Let_def)
      have eff: "dk_effects d' = dk_effects ?d" using Cons.prems(4) tabs(2) by simp
      have keys: "dom (map_of (dk_tasks ?d)) = insert (st_task w) (dom (map_of (dk_tasks d)))"
        using Cons.prems(1) by (simp add: desk_inv_def om_insert_dom del: dom_fun_upd)
      note ih = Cons.IH [OF inv Cons.prems(2) run eff, unfolded keys]
      have nd: "st_task w \<notin> dom (map_of (dk_tasks d))" using new(2) by blast
      show ?thesis unfolding r conjunct1 [OF ih] conjunct2 [OF ih] repeated_new [OF nd] by simp
    qed
  qed
qed

lemma update_inv:
  assumes "desk_inv d" "apply_window_state_update api (Some create) app_db updated removed d = (x, d')"
  shows "desk_inv d'"
proof -
  obtain y tu d1 where u: "apply_updated api (Some create) app_db updated [] d = (y, tu, d1)"
    by (metis surj_pair)
  from apply_updated_inv [OF assms(1) u] have "desk_inv d1" by simp
  with u assms(2) show ?thesis
    using apply_removed_spec [of d1 api tu removed]
    by (auto simp: apply_window_state_update_def split: option.splits)
qed

lemma update_tasks:
  assumes "desk_inv d" "apply_window_state_update api (Some create) app_db updated removed d = (None, d')"
    and "dk_effects d' = dk_effects d"
  shows "find_window_for_task d' t \<noteq> None \<longleftrightarrow>
    (find_window_for_task d t \<noteq> None \<or> t \<in> set (requested updated)) \<and>
    (t \<in> st_task ` set removed \<longrightarrow> t \<in> set (requested updated) \<and>
       (find_window_for_task d t \<noteq> None \<or> 2 \<le> count_list (requested updated) t))"
proof -
  obtain y tu d1 where u: "apply_updated api (Some create) app_db updated [] d = (y, tu, d1)"
    by (metis surj_pair)
  with assms(2) have y: "y = None" and d': "d' = apply_removed api tu removed d1"
    by (auto simp: apply_window_state_update_def split: option.splits)
  have i: "desk_inv d1" using apply_updated_inv [OF assms(1) u] by simp
  note s = apply_removed_spec [OF i, of api tu removed]
  have k: "dom (map_of (dk_tasks d1)) = dom (map_of (dk_tasks d)) \<union> set (requested updated)"
    "dom (map_of tu) = {t \<in> set (requested updated).
       t \<in> dom (map_of (dk_tasks d)) \<or> 2 \<le> count_list (requested updated) t}"
    using apply_updated_keys [OF assms(1) _ u [unfolded y]] assms(3) s [of t] unfolding d' by auto
  have "map_of (dk_tasks d') t \<noteq> None \<longleftrightarrow>
    (map_of (dk_tasks d) t \<noteq> None \<or> t \<in> set (requested updated)) \<and>
    (t \<in> st_task ` set removed \<longrightarrow> t \<in> set (requested updated) \<and>
       (map_of (dk_tasks d) t \<noteq> None \<or> 2 \<le> count_list (requested updated) t))"
  proof -
    have "map_of (dk_tasks d1) t \<noteq> None \<longleftrightarrow> map_of (dk_tasks d) t \<noteq> None \<or> t \<in> set (requested updated)"
      "map_of tu t = None \<longleftrightarrow> \<not> (t \<in> set (requested updated) \<and>
         (map_of (dk_tasks d) t \<noteq> None \<or> 2 \<le> count_list (requested updated) t))"
      using k unfolding dom_def set_eq_iff by blast+
    with s [of t] show ?thesis unfolding d' by presburger
  qed
  with find_window_eq_map_of [OF assms(1)] find_window_eq_map_of [OF update_inv [OF assms(1,2)]]
  show ?thesis by simp
qed

end

text \<open>The null platform is a platform: its windows have no renderer and never fail.\<close>

interpretation null_platform: window_platform null_create_window
  by unfold_locales (auto simp: null_create_window_def new_window_def)

section \<open>The interface of a window manager\<close>

text \<open>
  The calls a platform makes on the manager (\<open>wm/manager.h\<close>). Neither manager changes its windows
  in them: a request only adds to the trace.
\<close>

record 'd wm_ops =
  op_resize_task :: "int \<Rightarrow> rect \<Rightarrow> int \<Rightarrow> 'd \<Rightarrow> 'd"
  op_set_focused_task :: "int \<Rightarrow> 'd \<Rightarrow> 'd"
  op_remove_task :: "int \<Rightarrow> 'd \<Rightarrow> 'd"

definition multi_ops :: "('e, 'p) desktop_scheme wm_ops" where
  "multi_ops = \<lparr>op_resize_task = multi_resize_task, op_set_focused_task = multi_set_focused_task,
     op_remove_task = multi_remove_task\<rparr>"

definition single_ops :: "('e, 'p) desktop_scheme wm_ops" where
  "single_ops = \<lparr>op_resize_task = single_resize_task, op_set_focused_task = single_set_focused_task,
     op_remove_task = single_remove_task\<rparr>"

definition only_effects :: "('e, 'p) desktop_scheme \<Rightarrow> ('e, 'p) desktop_scheme \<Rightarrow> bool" where
  "only_effects d d' \<longleftrightarrow> (\<exists>es. d' = d\<lparr>dk_effects := dk_effects d @ es\<rparr>)"

lemma only_effects_inv: "only_effects d d' \<Longrightarrow> desk_inv d' = desk_inv d"
  by (auto simp: only_effects_def)

locale window_manager =
  fixes ops :: "('e, 'p) desktop_scheme wm_ops"
  assumes resize_effects: "only_effects d (op_resize_task ops t r m d)"
  and focus_effects: "only_effects d (op_set_focused_task ops t d)"
  and remove_effects: "only_effects d (op_remove_task ops t d)"

lemma only_effects_refl: "only_effects d d"
  unfolding only_effects_def by (rule exI [of _ "[]"]) simp

interpretation multi_manager: window_manager multi_ops
  by unfold_locales
    (auto simp: multi_ops_def multi_resize_task_def multi_set_focused_task_def multi_remove_task_def
      only_effects_def)

interpretation single_manager: window_manager single_ops
  by unfold_locales
    (auto simp: single_ops_def single_resize_task_def single_set_focused_task_def single_remove_task_def
      only_effects_refl, auto simp: only_effects_def)

end
