(* ===== verification/Sdl_Platform.thy ===== *)
theory Sdl_Platform
  imports Window_Manager
begin

text \<open>
  The windows of the SDL platform (\<open>platform/sdl/window.cpp\<close> and the window part of
  \<open>platform/sdl/platform.cpp\<close>). SDL is a parameter: the record \<open>sdl_api\<close> holds what its calls
  answer. \<open>SDL_CreateWindow\<close> is given the number of the window it is called for, so that
  different calls may answer differently. The platform keeps weak pointers to its windows: a
  pointer can be locked while the window manager keeps the window alive.
\<close>

section \<open>SDL\<close>

record sdl_api =
  sdl_CreateWindow :: "int \<Rightarrow> string \<Rightarrow> rect \<Rightarrow> bool \<Rightarrow> bool \<Rightarrow> nat option"
  sdl_SetWindowHitTest :: "nat \<Rightarrow> bool"              \<comment> \<open>false: the call failed\<close>
  sdl_native_window :: "nat \<Rightarrow> nat option"           \<comment> \<open>window system handle; None: unknown subsystem\<close>
  sdl_GetWindowID :: "nat \<Rightarrow> u32"
  sdl_no_hit_test :: string                           \<comment> \<open>\<open>ANBOX_NO_SDL_WINDOW_HIT_TEST\<close>, default \<open>false\<close>\<close>

section \<open>Platform state\<close>

record sdl_object =
  so_id :: int
  so_window :: nat

record 'e sdl_desktop = "'e desktop" +
  sp_renderer :: bool
  sp_windows :: "(int, nat) omap"          \<comment> \<open>weak pointers by window number\<close>
  sp_objects :: "nat \<rightharpoonup> sdl_object"        \<comment> \<open>the SDL part of a window object\<close>
  sp_next_id :: int
  sp_focused :: u32
  sp_size_immutable :: bool
  sp_server_side_decoration :: bool

definition set_renderer :: "'e sdl_desktop \<Rightarrow> 'e sdl_desktop" where
  "set_renderer d = d\<lparr>sp_renderer := True\<rparr>"

section \<open>Creating windows\<close>

text \<open>The constructor of \<open>Window\<close>: the SDL window and its native handle, or an exception.\<close>

definition sdl_window_new :: "sdl_api \<Rightarrow> int \<Rightarrow> rect \<Rightarrow> string \<Rightarrow> bool \<Rightarrow> bool \<Rightarrow> (nat \<times> nat) res" where
  "sdl_window_new sdl wid frame title resizable borderless =
     (case sdl_CreateWindow sdl wid title frame borderless resizable of
        None \<Rightarrow> Inl (Runtime_error ''Failed to create window'')
      | Some h \<Rightarrow>
          (if borderless \<and> sdl_no_hit_test sdl = ''false'' \<and> \<not> sdl_SetWindowHitTest sdl h
           then Inl (Runtime_error ''Failed to register for window hit test'')
           else
             (case sdl_native_window sdl h of
                None \<Rightarrow> Inl (Runtime_error ''SDL subsystem not supported'')
              | Some native \<Rightarrow> Inr (h, native))))"

definition next_window_id :: "'e sdl_desktop \<Rightarrow> int \<times> 'e sdl_desktop" where
  "next_window_id d = (sp_next_id d, d\<lparr>sp_next_id := s32 (sp_next_id d + 1)\<rparr>)"

definition sdl_create_window ::
  "sdl_api \<Rightarrow> int \<Rightarrow> rect \<Rightarrow> string \<Rightarrow> 'e sdl_desktop \<Rightarrow> nat option res \<times> 'e sdl_desktop" where
  "sdl_create_window sdl task frame title d =
     (if \<not> sp_renderer d then (Inr None, d)
      else
        (case next_window_id d of
           (wid, d) \<Rightarrow>
             (case sdl_window_new sdl wid frame title (\<not> sp_size_immutable d)
                     (\<not> sp_server_side_decoration d) of
                Inl e \<Rightarrow> (Inl e, d)
              | Inr (h, native) \<Rightarrow>
                  (let a = dk_next d
                   in (Inr (Some a),
                       d\<lparr>dk_heap := (dk_heap d)(a \<mapsto> new_window True task frame title native),
                         dk_next := Suc a,
                         sp_objects := (sp_objects d)(a \<mapsto> \<lparr>so_id = wid, so_window = h\<rparr>),
                         sp_focused := sdl_GetWindowID sdl h,
                         sp_windows := om_insert wid a (sp_windows d)\<rparr>)))))"

section \<open>Events of a window\<close>

text \<open>\<open>lock\<close>: the address a weak pointer refers to, while the window lives.\<close>

definition lock_window :: "int \<Rightarrow> 'e sdl_desktop \<Rightarrow> (nat \<times> window) option" where
  "lock_window wid d =
     (case map_of (sp_windows d) wid of
        None \<Rightarrow> None
      | Some a \<Rightarrow> map_option (Pair a) (dk_heap d a))"

definition window_deleted :: "'e sdl_desktop wm_ops \<Rightarrow> int \<Rightarrow> 'e sdl_desktop \<Rightarrow> 'e sdl_desktop" where
  "window_deleted wm wid d =
     (case map_of (sp_windows d) wid of
        None \<Rightarrow> d
      | Some _ \<Rightarrow>
          (let d = (case lock_window wid d of
                      None \<Rightarrow> d
                    | Some (_, w) \<Rightarrow> op_remove_task wm (wi_task w) d)
           in d\<lparr>sp_windows := om_erase wid (sp_windows d)\<rparr>))"

definition window_wants_focus ::
  "sdl_api \<Rightarrow> 'e sdl_desktop wm_ops \<Rightarrow> int \<Rightarrow> 'e sdl_desktop \<Rightarrow> 'e sdl_desktop" where
  "window_wants_focus sdl wm wid d =
     (case lock_window wid d of
        None \<Rightarrow> d
      | Some (a, w) \<Rightarrow>
          (let d = (case sp_objects d a of
                      None \<Rightarrow> d
                    | Some ob \<Rightarrow> d\<lparr>sp_focused := sdl_GetWindowID sdl (so_window ob)\<rparr>)
           in op_set_focused_task wm (wi_task w) d))"

definition window_moved ::
  "'e sdl_desktop wm_ops \<Rightarrow> int \<Rightarrow> int \<Rightarrow> int \<Rightarrow> 'e sdl_desktop \<Rightarrow> 'e sdl_desktop" where
  "window_moved wm wid x y d =
     (case lock_window wid d of
        None \<Rightarrow> d
      | Some (a, w) \<Rightarrow>
          (let new_frame = rect_translate x y (wi_frame w);
               d = d\<lparr>dk_heap := (dk_heap d)(a \<mapsto> window_update_frame new_frame w)\<rparr>
           in op_resize_task wm (wi_task w) new_frame 3 d))"

definition window_resized ::
  "'e sdl_desktop wm_ops \<Rightarrow> int \<Rightarrow> int \<Rightarrow> int \<Rightarrow> 'e sdl_desktop \<Rightarrow> 'e sdl_desktop" where
  "window_resized wm wid width height d =
     (case lock_window wid d of
        None \<Rightarrow> d
      | Some (a, w) \<Rightarrow>
          (let new_frame = rect_resize width height (wi_frame w);
               d = d\<lparr>dk_heap := (dk_heap d)(a \<mapsto> window_update_frame new_frame w)\<rparr>
           in op_resize_task wm (wi_task w) new_frame 3 d))"

datatype sdl_window_event =
    Focus_gained
  | Focus_lost
  | Size_changed int int
  | Moved int int
  | Shown
  | Hidden
  | Close_requested
  | Other_window_event

fun window_process_event ::
  "sdl_api \<Rightarrow> 'e sdl_desktop wm_ops \<Rightarrow> int \<Rightarrow> sdl_window_event \<Rightarrow> 'e sdl_desktop \<Rightarrow> 'e sdl_desktop" where
  "window_process_event sdl wm wid Focus_gained d = window_wants_focus sdl wm wid d"
| "window_process_event sdl wm wid Focus_lost d = d"
| "window_process_event sdl wm wid (Size_changed w h) d = window_resized wm wid w h d"
| "window_process_event sdl wm wid (Moved x y) d = window_moved wm wid x y d"
| "window_process_event sdl wm wid Shown d = d"
| "window_process_event sdl wm wid Hidden d = d"
| "window_process_event sdl wm wid Close_requested d = window_deleted wm wid d"
| "window_process_event sdl wm wid Other_window_event d = d"

text \<open>
  The \<open>SDL_WINDOWEVENT\<close> case of \<open>process_events\<close>: the first live window whose SDL number is the
  event's one gets the event.
\<close>

definition is_window :: "sdl_api \<Rightarrow> u32 \<Rightarrow> 'e sdl_desktop \<Rightarrow> nat \<Rightarrow> bool" where
  "is_window sdl window_id d a \<longleftrightarrow> dk_heap d a \<noteq> None \<and>
     (case sp_objects d a of None \<Rightarrow> False | Some ob \<Rightarrow> sdl_GetWindowID sdl (so_window ob) = window_id)"

definition dispatch_window_event ::
  "sdl_api \<Rightarrow> 'e sdl_desktop wm_ops \<Rightarrow> u32 \<Rightarrow> sdl_window_event \<Rightarrow> 'e sdl_desktop \<Rightarrow> 'e sdl_desktop" where
  "dispatch_window_event sdl wm window_id ev d =
     (case find (\<lambda>(_, a). is_window sdl window_id d a) (sp_windows d) of
        None \<Rightarrow> d
      | Some (_, a) \<Rightarrow>
          (case sp_objects d a of
             None \<Rightarrow> d
           | Some ob \<Rightarrow> window_process_event sdl wm (so_id ob) ev d))"

section \<open>Hit tests\<close>

datatype hit_result =
    Hit_normal
  | Hit_draggable
  | Resize_topleft | Resize_top | Resize_topright | Resize_right
  | Resize_bottomright | Resize_bottom | Resize_bottomleft | Resize_left

datatype hit_action = No_action | Close_window | Switch_window_state

record window_flags =
  wf_fullscreen :: bool
  wf_resizable :: bool
  wf_maximized :: bool

definition window_resize_border :: u32 where "window_resize_border = 10"
definition top_drag_area :: u32 where "top_drag_area = 42"
definition button_size :: u32 where "button_size = 32"
definition button_margin :: u32 where "button_margin = 5"
definition button_padding :: u32 where "button_padding = 0"

definition on_window_hit :: "window_flags \<Rightarrow> int \<times> int \<Rightarrow> int \<times> int \<Rightarrow> hit_action \<times> hit_result" where
  "on_window_hit flags dims pt =
     (let (w, h) = dims; (x, y) = pt;
          border_size = dp_to_pixel window_resize_border;
          top_drag_area_height = dp_to_pixel top_drag_area;
          button_area_width = dp_to_pixel (button_size + button_padding * 2 + button_margin * 2)
      in if wf_fullscreen flags then (No_action, Hit_normal)
         else if \<not> wf_resizable flags
         then (No_action, if y < border_size then Hit_draggable else Hit_normal)
         else if y < top_drag_area_height
         then (if x > w - button_area_width \<and> x < w then (Close_window, Hit_normal)
               else if x > w - button_area_width * 2 \<and> x < w - button_area_width
               then (Switch_window_state, Hit_normal)
               else (No_action, Hit_draggable))
         else if wf_maximized flags then (No_action, Hit_normal)
         else
           (No_action,
            if x < border_size \<and> y < border_size then Resize_topleft
            else if x > border_size \<and> x < w - border_size \<and> y < border_size then Resize_top
            else if x > w - border_size \<and> y < border_size then Resize_topright
            else if x > w - border_size \<and> y > border_size \<and> y < h - border_size then Resize_right
            else if x > w - border_size \<and> y > h - border_size then Resize_bottomright
            else if x < w - border_size \<and> x > border_size \<and> y > h - border_size then Resize_bottom
            else if x < border_size \<and> y > h - border_size then Resize_bottomleft
            else if x < border_size \<and> y < h - border_size \<and> y > border_size then Resize_left
            else Hit_normal))"

section \<open>The SDL platform provides the interface of the managers\<close>

lemma next_window_id_desktop [simp]:
  "next_window_id d = (wid, d') \<Longrightarrow>
     dk_heap d' = dk_heap d \<and> dk_next d' = dk_next d \<and> dk_tasks d' = dk_tasks d \<and>
     dk_effects d' = dk_effects d \<and> dk_renderer d' = dk_renderer d"
  by (auto simp: next_window_id_def)

interpretation sdl_platform: window_platform "sdl_create_window sdl" for sdl
  by unfold_locales
    (auto simp: sdl_create_window_def new_window_def Let_def
      split: if_splits prod.splits sum.splits)

section \<open>Runs of the desktop\<close>

text \<open>
  One step: an update from the Android window manager (which may end in an exception of the
  platform) or an event of an SDL window. The managers are reached through their interface.
\<close>

inductive desk_step ::
  "'e egl_api \<Rightarrow> sdl_api \<Rightarrow> (string \<Rightarrow> string option) \<Rightarrow> 'e sdl_desktop \<Rightarrow> 'e sdl_desktop \<Rightarrow> bool"
  for api sdl app_db where
  step_update: "apply_window_state_update api (Some (sdl_create_window sdl)) app_db updated removed d = (x, d') \<Longrightarrow>
     desk_step api sdl app_db d d'"
| step_event: "desk_step api sdl app_db d (dispatch_window_event sdl multi_ops window_id ev d)"
| step_set_renderer: "desk_step api sdl app_db d (set_renderer d)"

inductive_cases desk_step_cases: "desk_step api sdl app_db d d'"

lemma lock_window_Some:
  "lock_window wid d = Some (a, w) \<Longrightarrow> map_of (sp_windows d) wid = Some a \<and> dk_heap d a = Some w"
  by (auto simp: lock_window_def split: option.splits)

lemma update_frame_task [simp]:
  "wi_task (window_update_frame f w) = wi_task w" "wi_frame (window_update_frame f w) = f"
  "wi_native (window_update_frame f w) = wi_native w"
  by (auto simp: window_update_frame_def)

lemma desk_inv_reframe:
  assumes "desk_inv d" "dk_heap d a = Some w" "wi_task w' = wi_task w"
  shows "desk_inv (d\<lparr>dk_heap := (dk_heap d)(a \<mapsto> w')\<rparr>)"
  using assms unfolding desk_inv_def by (fastforce simp: linorder_not_le)

context window_manager
begin

lemma keeps_inv:
  "desk_inv (op_resize_task ops t r m d) = desk_inv d"
  "desk_inv (op_set_focused_task ops t d) = desk_inv d"
  "desk_inv (op_remove_task ops t d) = desk_inv d"
  using resize_effects focus_effects remove_effects only_effects_inv by blast+

end

lemma desk_inv_sdl_fields [simp]:
  "desk_inv (d\<lparr>sp_windows := v\<rparr>) = desk_inv d" "desk_inv (d\<lparr>sp_focused := f\<rparr>) = desk_inv d"
  "desk_inv (d\<lparr>sp_renderer := b\<rparr>) = desk_inv d"
  by (simp_all add: desk_inv_def)

lemma process_event_inv:
  assumes "desk_inv d"
  shows "desk_inv (window_process_event sdl multi_ops wid ev d)"
proof (cases ev)
  case Focus_gained
  then show ?thesis
    using assms by (simp add: window_wants_focus_def Let_def multi_manager.keeps_inv split: option.split)
next
  case (Size_changed w h)
  then show ?thesis
    using assms lock_window_Some [of wid d]
    by (auto simp: window_resized_def Let_def multi_manager.keeps_inv intro: desk_inv_reframe split: option.split)
next
  case (Moved x y)
  then show ?thesis
    using assms lock_window_Some [of wid d]
    by (auto simp: window_moved_def Let_def multi_manager.keeps_inv intro: desk_inv_reframe split: option.split)
next
  case Close_requested
  then show ?thesis
    using assms by (simp add: window_deleted_def Let_def multi_manager.keeps_inv split: option.split)
qed (use assms in simp_all)

lemma desk_step_inv: "desk_step api sdl app_db d d' \<Longrightarrow> desk_inv d \<Longrightarrow> desk_inv d'"
proof (induction rule: desk_step.induct)
  case (step_update updated removed d x d')
  then show ?case using sdl_platform.update_inv by blast
next
  case (step_event d window_id ev)
  then show ?case
    by (auto simp: dispatch_window_event_def process_event_inv split: option.split)
next
  case (step_set_renderer d)
  then show ?case by (simp add: set_renderer_def)
qed

lemma hit_sizes:
  "dp_to_pixel window_resize_border = 10" "dp_to_pixel top_drag_area = 42"
  "dp_to_pixel (button_size + button_padding * 2 + button_margin * 2) = 42"
  by (simp_all add: dp_to_pixel_exact window_resize_border_def top_drag_area_def button_size_def
      button_padding_def button_margin_def)

section \<open>Properties\<close>

text \<open>
  C36. Whatever updates arrive from Android and whatever events SDL delivers, in any order and
  including updates that end in an exception of the platform, the table of the multi window
  manager stays consistent: every entry is a live window of its own task, no window serves two
  tasks, and looking a task up by walking over the windows finds the entry of that task.
\<close>

theorem desktop_tables_consistent:
  assumes "(desk_step api sdl app_db)\<^sup>*\<^sup>* d d'" "desk_inv d"
  shows "desk_inv d' \<and> find_window_for_task d' t = map_of (dk_tasks d') t \<and>
    (find_window_for_task d' t = Some a \<and> find_window_for_task d' u = Some a \<longrightarrow> t = u)"
proof -
  have "desk_inv d'"
    using assms by (induction rule: rtranclp_induct) (auto intro: desk_step_inv)
  then show ?thesis
    using find_window_eq_map_of find_window_sound by (metis option.inject)
qed

text \<open>A desktop without windows, and an SDL whose calls all succeed.\<close>

definition empty_desktop :: "(nat \<times> nat \<times> nat) sdl_desktop" where
  "empty_desktop = \<lparr>dk_heap = Map.empty, dk_next = 0, dk_renderer = empty_renderer nothing_current,
     dk_tasks = [], dk_single = None, dk_effects = [],
     sp_renderer = True, sp_windows = [], sp_objects = Map.empty, sp_next_id = 0, sp_focused = 0,
     sp_size_immutable = False, sp_server_side_decoration = False\<rparr>"

definition plain_sdl :: sdl_api where
  "plain_sdl = \<lparr>sdl_CreateWindow = (\<lambda>wid _ _ _ _. Some (nat wid)), sdl_SetWindowHitTest = (\<lambda>_. True),
     sdl_native_window = (\<lambda>h. Some (100 + h)), sdl_GetWindowID = (\<lambda>h. of_nat h),
     sdl_no_hit_test = ''false''\<rparr>"

definition shown_window :: "int \<Rightarrow> window_state" where
  "shown_window task = \<lparr>st_display = 0, st_has_surface = True, st_frame = mk_rect 10 20 110 220,
     st_package_name = ''app'', st_task = task, st_stack = Stack_Freeform\<rparr>"

lemma empty_desktop_inv: "desk_inv empty_desktop"
  by (simp add: desk_inv_def empty_desktop_def)

abbreviation first_update :: "window_state list \<Rightarrow> exn option \<times> (nat \<times> nat \<times> nat) sdl_desktop" where
  "first_update removed \<equiv> apply_window_state_update simple_egl (Some (sdl_create_window plain_sdl))
     (\<lambda>_. None) [shown_window 7] removed empty_desktop"

theorem desktop_tables_consistent_witness:
  "find_window_for_task (snd (first_update [])) 7 = Some 0"
proof -
  have "desk_step simple_egl plain_sdl (\<lambda>_. None) empty_desktop (snd (first_update []))"
    by (rule step_update [of _ _ _ "[shown_window 7]" "[]" _ "fst (first_update [])"]) simp
  then have "find_window_for_task (snd (first_update [])) 7 = map_of (dk_tasks (snd (first_update []))) 7"
    using desktop_tables_consistent [OF r_into_rtranclp empty_desktop_inv] by blast
  also have "\<dots> = Some 0" by code_simp
  finally show ?thesis .
qed

text \<open>
  C37. When an update of the Android window manager is applied and the platform can create the
  windows asked for (no exception, and no task is sent back with a remove request), a task has a
  window afterwards exactly when it had one or the update shows a surface for it in the freeform
  stack, unless the update removes a window of the task: then the window survives exactly when
  the update also shows a window of that task and the task was known before, or is shown at
  least twice. In particular a window that is created by an update which removes another window
  of the same task is destroyed at once, although the task is in use.
\<close>

theorem update_follows_tasks:
  assumes "desk_inv d"
    and "apply_window_state_update api (Some (sdl_create_window sdl)) app_db updated removed d = (None, d')"
    and "dk_effects d' = dk_effects d"
  shows "find_window_for_task d' t \<noteq> None \<longleftrightarrow>
    (find_window_for_task d t \<noteq> None \<or> t \<in> set (requested updated)) \<and>
    (t \<in> st_task ` set removed \<longrightarrow> t \<in> set (requested updated) \<and>
       (find_window_for_task d t \<noteq> None \<or> 2 \<le> count_list (requested updated) t))"
  using sdl_platform.update_tasks [OF assms] .

theorem update_follows_tasks_witness:
  "find_window_for_task (snd (first_update [shown_window 7])) 7 = None"
proof -
  have "fst (first_update [shown_window 7]) = None" by code_simp
  then have run: "first_update [shown_window 7] = (None, snd (first_update [shown_window 7]))"
    by (metis prod.collapse)
  have eff: "dk_effects (snd (first_update [shown_window 7])) = dk_effects empty_desktop"
    by code_simp
  have "find_window_for_task empty_desktop 7 = None" "7 \<in> st_task ` set [shown_window 7]"
    "count_list (requested [shown_window 7]) 7 = 1"
    by (simp_all add: requested_def shown_window_def find_window_for_task_def empty_desktop_def)
  with update_follows_tasks [OF empty_desktop_inv run eff, of 7] show ?thesis by linarith
qed

text \<open>
  Moving or resizing a live SDL window sends Android exactly one request, for the task of that
  window and with the frame the window stores from then on; a move puts the corner where SDL
  says and keeps the size, also when a coordinate wraps around, and a resize keeps the corner and
  takes the size SDL says. Events for a window the manager has dropped change nothing.
\<close>

theorem window_events_reach_task:
  assumes "in_s32 x" "in_s32 y"
  shows "(lock_window wid d = Some (a, w) \<longrightarrow>
      (\<exists>f. map_option wi_frame (dk_heap (window_process_event sdl multi_ops wid (Moved x y) d) a) = Some f \<and>
         dk_effects (window_process_event sdl multi_ops wid (Moved x y) d) =
           dk_effects d @ [Resize_task (wi_task w) f 3] \<and>
         rc_left f = x \<and> rc_top f = y \<and>
         rect_width f = rect_width (wi_frame w) \<and> rect_height f = rect_height (wi_frame w)) \<and>
      (\<exists>f. map_option wi_frame (dk_heap (window_process_event sdl multi_ops wid (Size_changed x y) d) a) = Some f \<and>
         dk_effects (window_process_event sdl multi_ops wid (Size_changed x y) d) =
           dk_effects d @ [Resize_task (wi_task w) f 3] \<and>
         rect_width f = x \<and> rect_height f = y \<and>
         rc_left f = rc_left (wi_frame w) \<and> rc_top f = rc_top (wi_frame w))) \<and>
    (lock_window wid d = None \<longrightarrow>
      window_process_event sdl multi_ops wid (Moved x y) d = d \<and>
      window_process_event sdl multi_ops wid (Size_changed x y) d = d)"
  (is "(_ \<longrightarrow> ?moved \<and> ?resized) \<and> (_ \<longrightarrow> ?kept)")
proof (intro conjI impI)
  assume "lock_window wid d = Some (a, w)"
  then show ?moved ?resized
    using rect_translate_size [of x y "wi_frame w"] rect_resize_size [OF assms, of "wi_frame w"]
    by (simp_all add: window_moved_def window_resized_def multi_ops_def multi_resize_task_def Let_def)
      (simp add: rect_translate_def)
qed (simp_all add: window_moved_def window_resized_def)

theorem window_events_reach_task_witness:
  "dk_effects (window_process_event plain_sdl multi_ops 0 (Moved 5 6) (snd (first_update []))) =
     [Resize_task 7 (mk_rect 5 6 105 206) 3]"
proof -
  let ?d = "snd (first_update [])"
  let ?w = "\<lparr>wi_renderer = True, wi_task = 7, wi_frame = mk_rect 10 20 110 220, wi_title = ''app'',
    wi_attached = True, wi_native = 100\<rparr>"
  have l: "lock_window 0 ?d = Some (0, ?w)" by code_simp
  have e: "dk_effects ?d = []" by code_simp
  have s: "in_s32 5" "in_s32 6" by (simp_all add: in_s32_def)
  have wd: "rect_width (mk_rect 10 20 110 220) = 100" "rect_height (mk_rect 10 20 110 220) = 200"
    by (simp_all add: rect_width_def rect_height_def in_s32_def)
  have "dk_effects (window_process_event plain_sdl multi_ops 0 (Moved 5 6) ?d) =
     [Resize_task 7 (rect_translate 5 6 (mk_rect 10 20 110 220)) 3]"
    using window_events_reach_task [OF s, of 0 ?d 0 ?w plain_sdl] l e
    by (simp add: window_moved_def multi_ops_def multi_resize_task_def Let_def)
  then show ?thesis by (simp add: rect_translate_def wd in_s32_def)
qed

text \<open>
  The hit test of a borderless window never answers one of the three resize results of the top
  edge, whatever the size of the window, its state and the position: the strip that drags the
  window is higher than the resize border and is tested first. The other five resize results are
  answered exactly on their part of the border of a resizable window that is neither fullscreen
  nor maximized, when the window is larger than the two borders.
\<close>

theorem hit_test_regions:
  "snd (on_window_hit flags (w, h) (x, y)) \<notin> {Resize_topleft, Resize_top, Resize_topright} \<and>
   (\<not> wf_fullscreen flags \<and> wf_resizable flags \<and> \<not> wf_maximized flags \<and> 20 < w \<and> 52 < h \<longrightarrow>
     (snd (on_window_hit flags (w, h) (x, y)) = Resize_left \<longleftrightarrow> x < 10 \<and> 42 \<le> y \<and> y < h - 10) \<and>
     (snd (on_window_hit flags (w, h) (x, y)) = Resize_right \<longleftrightarrow> w - 10 < x \<and> 42 \<le> y \<and> y < h - 10) \<and>
     (snd (on_window_hit flags (w, h) (x, y)) = Resize_bottom \<longleftrightarrow> 10 < x \<and> x < w - 10 \<and> h - 10 < y) \<and>
     (snd (on_window_hit flags (w, h) (x, y)) = Resize_bottomleft \<longleftrightarrow> x < 10 \<and> h - 10 < y) \<and>
     (snd (on_window_hit flags (w, h) (x, y)) = Resize_bottomright \<longleftrightarrow> w - 10 < x \<and> h - 10 < y))"
  by (auto simp: on_window_hit_def hit_sizes Let_def split: prod.splits)

theorem hit_test_regions_witness:
  "snd (on_window_hit \<lparr>wf_fullscreen = False, wf_resizable = True, wf_maximized = False\<rparr> (100, 100) (3, 60)) = Resize_left"
  using hit_test_regions [of "\<lparr>wf_fullscreen = False, wf_resizable = True, wf_maximized = False\<rparr>" 100 100 3 60]
  by simp

end
