(* ===== verification/Layer_Composer.thy ===== *)
theory Layer_Composer
  imports Window_Manager Text_Utils
begin

text \<open>
  Composition of the layers SurfaceFlinger submits (\<open>graphics/layer_composer.cpp\<close>,
  \<open>graphics/multi_window_composer_strategy.cpp\<close>,
  \<open>graphics/single_window_composer_strategy.cpp\<close>, \<open>graphics/emugl/Renderable.cpp\<close>). A
  strategy maps layers to windows; it reaches the window manager through
  \<open>find_window_for_task\<close>, a parameter of the strategy with the contract \<open>task_lookup\<close>. Windows are
  addresses, and the map from windows to layers is ordered by address as \<open>std::map\<close> orders
  shared pointers. The alpha value and the transformation of a layer are kept abstract.
\<close>

section \<open>Renderables\<close>

record 'x renderable =
  ra_name :: string
  ra_buffer :: u32
  ra_screen_position :: rect
  ra_crop :: rect
  ra_rest :: 'x              \<comment> \<open>transformation and alpha\<close>

definition set_screen_position :: "rect \<Rightarrow> 'x renderable \<Rightarrow> 'x renderable" where
  "set_screen_position r l = l\<lparr>ra_screen_position := r\<rparr>"

section \<open>Names of task surfaces\<close>

definition is_digit :: "char \<Rightarrow> bool" where
  "is_digit c \<longleftrightarrow> 48 \<le> (of_char c :: nat) \<and> (of_char c :: nat) \<le> 57"

definition is_blank :: "char \<Rightarrow> bool" where
  "is_blank c \<longleftrightarrow> (of_char c :: nat) \<in> {9, 10, 11, 12, 13, 32}"

definition decimal :: "string \<Rightarrow> int" where
  "decimal ds = foldl (\<lambda>v c. v * 10 + (int (of_char c) - 48)) 0 ds"

text \<open>
  The conversion \<open>%d\<close> of \<open>sscanf\<close>: blanks, an optional sign and digits. The value is read as a
  \<open>long\<close>, saturating at its limits, and stored in an \<open>int\<close>. The subject ends at the first NUL
  byte.
\<close>

definition saturate64 :: "int \<Rightarrow> int" where
  "saturate64 v = max (- (2 ^ 63)) (min (2 ^ 63 - 1) v)"

definition scan_d :: "string \<Rightarrow> int option" where
  "scan_d s =
     (let s = dropWhile is_blank s;
          (neg, s) = (case s of
             c # r \<Rightarrow> if c = CHR ''-'' then (True, r) else if c = CHR ''+'' then (False, r) else (False, s)
           | [] \<Rightarrow> (False, s));
          ds = takeWhile is_digit s
      in if ds = [] then None else Some (s32 (saturate64 (if neg then - decimal ds else decimal ds))))"

definition surface_prefix :: string where "surface_prefix = ''org.anbox.surface.''"

definition c_str :: "string \<Rightarrow> string" where
  "c_str s = takeWhile (\<lambda>c. of_char c \<noteq> (0 :: nat)) s"

text \<open>Lines 29 to 35: the task a layer belongs to.\<close>

definition layer_task :: "string \<Rightarrow> int option" where
  "layer_task name =
     (if \<not> string_starts_with name surface_prefix then None
      else
        (case scan_d (c_str (drop (length surface_prefix) name)) of
           None \<Rightarrow> None
         | Some task_id \<Rightarrow> if task_id = 0 then None else Some task_id))"

section \<open>Layers per window\<close>

type_synonym 'x window_layers = "(nat, 'x renderable list) omap"

fun collect_layers ::
  "(int \<Rightarrow> nat option) \<Rightarrow> 'x renderable list \<Rightarrow> 'x window_layers \<Rightarrow> 'x window_layers" where
  "collect_layers find_window [] win_layers = win_layers"
| "collect_layers find_window (r # rest) win_layers =
     (case layer_task (ra_name r) of
        None \<Rightarrow> collect_layers find_window rest win_layers
      | Some task_id \<Rightarrow>
          (case find_window task_id of
             None \<Rightarrow> collect_layers find_window rest win_layers
           | Some w \<Rightarrow>
               (case map_of win_layers w of
                  None \<Rightarrow> collect_layers find_window rest (om_insert w [r] win_layers)
                | Some ls \<Rightarrow> collect_layers find_window rest (om_put w (ls @ [r]) win_layers))))"

definition layer_area :: "'x renderable \<Rightarrow> int" where
  "layer_area r = s32 (rect_width (ra_screen_position r) * rect_height (ra_screen_position r))"

text \<open>The layer that gives the window its frame: the last of the largest ones.\<close>

fun window_frame_loop :: "'x renderable list \<Rightarrow> rect \<Rightarrow> int \<Rightarrow> rect" where
  "window_frame_loop [] frame max_area = frame"
| "window_frame_loop (r # rs) frame max_area =
     (if layer_area r < max_area then window_frame_loop rs frame max_area
      else window_frame_loop rs (ra_screen_position r) (layer_area r))"

definition new_window_frame :: "'x renderable list \<Rightarrow> rect" where
  "new_window_frame rs = window_frame_loop rs rect_Invalid (- 1)"

definition relative_rect :: "rect \<Rightarrow> 'x renderable \<Rightarrow> rect" where
  "relative_rect frame r =
     mk_rect
       (s32 (s32 (rc_left (ra_screen_position r) - rc_left frame) + rc_left (ra_crop r)))
       (s32 (s32 (rc_top (ra_screen_position r) - rc_top frame) + rc_top (ra_crop r)))
       (s32 (s32 (rc_right (ra_screen_position r) - rc_left frame) + rc_left (ra_crop r)))
       (s32 (s32 (rc_bottom (ra_screen_position r) - rc_top frame) + rc_top (ra_crop r)))"

definition relative_layers :: "'x renderable list \<Rightarrow> 'x renderable list" where
  "relative_layers rs =
     map (\<lambda>r. set_screen_position (relative_rect (new_window_frame rs) r) r) rs"

definition multi_process_layers ::
  "(int \<Rightarrow> nat option) \<Rightarrow> 'x renderable list \<Rightarrow> 'x window_layers" where
  "multi_process_layers find_window rs =
     map (\<lambda>(w, ls). (w, relative_layers ls)) (collect_layers find_window rs [])"

text \<open>
  The single window strategy. Its window may be null (before \<open>setup\<close>): the key is the answer of
  the manager as it is.
\<close>

definition single_process_layers ::
  "(int \<Rightarrow> nat option) \<Rightarrow> 'x renderable list \<Rightarrow> (nat option \<times> 'x renderable list) list" where
  "single_process_layers find_window rs =
     [(find_window 0, filter (\<lambda>r. ra_name r \<noteq> ''Sprite'') rs)]"

section \<open>Submitting layers\<close>

text \<open>
  One draw call per window: its native handle, the rectangle of the window's size at the origin,
  and its layers. A null window is called through a null pointer.
\<close>

fun submit_calls ::
  "('e, 'p) desktop_scheme \<Rightarrow> (nat option \<times> 'x renderable list) list \<Rightarrow>
   (nat \<times> rect \<times> 'x renderable list) list res" where
  "submit_calls d [] = Inr []"
| "submit_calls d ((p, ls) # rest) =
     (case Option.bind p (dk_heap d) of
        None \<Rightarrow> Inl (Undefined ''call through a null window'')
      | Some w \<Rightarrow>
          rbind (submit_calls d rest) (\<lambda>calls. Inr ((wi_native w,
            mk_rect 0 0 (rect_width (wi_frame w)) (rect_height (wi_frame w)), ls) # calls)))"

definition multi_submit_layers ::
  "('e, 'p) desktop_scheme \<Rightarrow> 'x renderable list \<Rightarrow> (nat \<times> rect \<times> 'x renderable list) list res" where
  "multi_submit_layers d rs =
     submit_calls d (map (\<lambda>(w, ls). (Some w, ls)) (multi_process_layers (find_window_for_task d) rs))"

definition single_submit_layers ::
  "('e, 'p) desktop_scheme \<Rightarrow> 'x renderable list \<Rightarrow> (nat \<times> rect \<times> 'x renderable list) list res" where
  "single_submit_layers d rs =
     submit_calls d (single_process_layers (single_find_window_for_task d) rs)"

section \<open>Collecting layers\<close>

definition goes_to :: "(int \<Rightarrow> nat option) \<Rightarrow> nat \<Rightarrow> 'x renderable \<Rightarrow> bool" where
  "goes_to find_window w r \<longleftrightarrow> Option.bind (layer_task (ra_name r)) find_window = Some w"

lemma collect_layers_spec:
  "om_wf wl \<Longrightarrow> om_wf (collect_layers find_window rs wl) \<and>
     map_of (collect_layers find_window rs wl) w =
       (case map_of wl w of
          None \<Rightarrow> (if filter (goes_to find_window w) rs = [] then None
                   else Some (filter (goes_to find_window w) rs))
        | Some ls \<Rightarrow> Some (ls @ filter (goes_to find_window w) rs))"
proof (induction rs arbitrary: wl)
  case (Cons r rs)
  show ?case
  proof (cases "Option.bind (layer_task (ra_name r)) find_window")
    case None
    then have "collect_layers find_window (r # rs) wl = collect_layers find_window rs wl"
      by (auto split: option.splits)
    moreover have "filter (goes_to find_window w) (r # rs) = filter (goes_to find_window w) rs"
      using None by (simp add: goes_to_def)
    ultimately show ?thesis using Cons by presburger
  next
    case (Some v)
    let ?wl = "case map_of wl v of None \<Rightarrow> om_insert v [r] wl | Some ls \<Rightarrow> om_put v (ls @ [r]) wl"
    from Some have c: "collect_layers find_window (r # rs) wl = collect_layers find_window rs ?wl"
      by (auto simp: bind_eq_Some_conv split: option.splits)
    have wf: "om_wf ?wl" using Cons.prems by (simp split: option.split)
    have m: "map_of ?wl w =
        (if w = v then Some ((case map_of wl v of None \<Rightarrow> [] | Some ls \<Rightarrow> ls) @ [r]) else map_of wl w)"
      using Cons.prems by (auto simp: om_lookup_insert split: option.split)
    show ?thesis
      using Cons.IH [OF wf] Some unfolding c m by (cases "map_of wl w") (auto simp: goes_to_def)
  qed
qed (auto split: option.split)

lemma map_of_map_values: "map_of (map (\<lambda>(w, ls). (w, f ls)) m) w = map_option f (map_of m w)"
  by (induction m) auto

text \<open>Every window that gets layers was an answer of the manager.\<close>

lemma collect_layers_windows:
  assumes "w \<in> fst ` set (collect_layers find_window rs [])"
  shows "\<exists>t. find_window t = Some w"
proof -
  have "map_of (collect_layers find_window rs []) w \<noteq> None"
    using assms by (auto simp: map_of_eq_None_iff)
  then have "filter (goes_to find_window w) rs \<noteq> []"
    using collect_layers_spec [of "[]" find_window rs w] by (auto split: if_splits)
  then show ?thesis by (auto simp: filter_empty_conv goes_to_def bind_eq_Some_conv)
qed

section \<open>The contract of the window lookup\<close>

text \<open>A window found for a task is a window of that task.\<close>

locale task_lookup =
  fixes find_window :: "int \<Rightarrow> nat option" and task_of :: "nat \<Rightarrow> int option"
  assumes lookup_task: "find_window t = Some w \<Longrightarrow> task_of w = Some t"
begin

lemma goes_to_task:
  "find_window t = Some w \<Longrightarrow> goes_to find_window w r \<longleftrightarrow> layer_task (ra_name r) = Some t"
  unfolding goes_to_def bind_eq_Some_conv using lookup_task by (metis option.inject)

lemma layers_of_window:
  assumes "find_window t = Some w"
  shows "map_of (multi_process_layers find_window rs) w =
    (let ls = filter (\<lambda>r. layer_task (ra_name r) = Some t) rs
     in if ls = [] then None else Some (relative_layers ls))"
proof -
  have "filter (goes_to find_window w) rs = filter (\<lambda>r. layer_task (ra_name r) = Some t) rs"
    by (intro filter_cong refl goes_to_task [OF assms])
  then show ?thesis
    using collect_layers_spec [of "[]" find_window rs w]
    unfolding multi_process_layers_def map_of_map_values Let_def by simp
qed

end

interpretation multi_lookup: task_lookup "find_window_for_task d" "\<lambda>a. map_option wi_task (dk_heap d a)" for d
  by unfold_locales (auto dest: find_window_sound)

section \<open>Frames\<close>

lemma relative_rect_size:
  "rect_width (relative_rect frame r) = rect_width (ra_screen_position r)"
  "rect_height (relative_rect frame r) = rect_height (ra_screen_position r)"
  by (simp_all add: rect_width_def rect_height_def relative_rect_def s32_cong_add s32_cong_diff)

lemma window_frame_loop_spec:
  "window_frame_loop rs f m = f \<and> (\<forall>r \<in> set rs. layer_area r < m) \<or>
   (\<exists>i < length rs. window_frame_loop rs f m = ra_screen_position (rs ! i) \<and> m \<le> layer_area (rs ! i) \<and>
      (\<forall>j < length rs. layer_area (rs ! j) \<le> layer_area (rs ! i)) \<and>
      (\<forall>j < length rs. i < j \<longrightarrow> layer_area (rs ! j) < layer_area (rs ! i)))"
proof (induction rs f m rule: window_frame_loop.induct)
  case (2 r rs f m)
  show ?case
  proof (cases "layer_area r < m")
    case True
    from "2.IH"(1) [OF True] show ?thesis
    proof (elim disjE exE conjE)
      fix i assume i: "i < length rs" "window_frame_loop rs f m = ra_screen_position (rs ! i)"
        "m \<le> layer_area (rs ! i)" "\<forall>j < length rs. layer_area (rs ! j) \<le> layer_area (rs ! i)"
        "\<forall>j < length rs. i < j \<longrightarrow> layer_area (rs ! j) < layer_area (rs ! i)"
      then show ?thesis
        using True by (intro disjI2 exI [of _ "Suc i"]) (auto simp: less_Suc_eq_0_disj)
    qed (use True in auto)
  next
    case False
    from "2.IH"(2) [OF False] show ?thesis
    proof (elim disjE exE conjE)
      assume a: "window_frame_loop rs (ra_screen_position r) (layer_area r) = ra_screen_position r"
        "\<forall>x \<in> set rs. layer_area x < layer_area r"
      have "layer_area ((r # rs) ! j) \<le> layer_area r" if "j < length (r # rs)" for j
        using a(2) that by (cases j) (auto intro: order.strict_implies_order)
      moreover have "layer_area ((r # rs) ! j) < layer_area r" if "j < length (r # rs)" "0 < j" for j
        using a(2) that by (cases j) auto
      ultimately show ?thesis
        using False a(1) by (intro disjI2 exI [of _ 0]) auto
    next
      fix i assume i: "i < length rs"
        "window_frame_loop rs (ra_screen_position r) (layer_area r) = ra_screen_position (rs ! i)"
        "layer_area r \<le> layer_area (rs ! i)" "\<forall>j < length rs. layer_area (rs ! j) \<le> layer_area (rs ! i)"
        "\<forall>j < length rs. i < j \<longrightarrow> layer_area (rs ! j) < layer_area (rs ! i)"
      then show ?thesis
        using False by (intro disjI2 exI [of _ "Suc i"]) (auto simp: less_Suc_eq_0_disj)
    qed
  qed
qed simp

lemma new_window_frame_spec:
  assumes "rs \<noteq> []" "\<forall>r \<in> set rs. 0 \<le> layer_area r"
  shows "\<exists>i < length rs. new_window_frame rs = ra_screen_position (rs ! i) \<and>
      (\<forall>j < length rs. layer_area (rs ! j) \<le> layer_area (rs ! i)) \<and>
      (\<forall>j < length rs. i < j \<longrightarrow> layer_area (rs ! j) < layer_area (rs ! i))"
proof -
  have "\<not> (\<forall>r \<in> set rs. layer_area r < - 1)" using assms by (cases rs) auto
  then show ?thesis
    using window_frame_loop_spec [of rs rect_Invalid "- 1"] unfolding new_window_frame_def by blast
qed

lemma submit_calls_live:
  "\<forall>(p, ls) \<in> set wls. \<exists>a w. p = Some a \<and> dk_heap d a = Some w \<Longrightarrow>
     \<exists>calls. submit_calls d wls = Inr calls \<and> map (\<lambda>(_, _, ls). ls) calls = map snd wls"
  by (induction d wls rule: submit_calls.induct) fastforce+

section \<open>Properties\<close>


definition layer :: "string \<Rightarrow> rect \<Rightarrow> unit renderable" where
  "layer name pos = \<lparr>ra_name = name, ra_buffer = 1, ra_screen_position = pos,
     ra_crop = mk_rect 0 0 0 0, ra_rest = ()\<rparr>"

definition one_window :: "(nat \<times> nat \<times> nat) desktop" where
  "one_window = \<lparr>dk_heap = [0 \<mapsto> new_window True 7 (mk_rect 10 20 110 220) ''app'' 100], dk_next = 1,
     dk_renderer = empty_renderer nothing_current, dk_tasks = [(7, 0)], dk_single = None, dk_effects = []\<rparr>"


text \<open>
  Moving the layers of a window into its coordinates keeps their number, order, names, buffers
  and sizes, also when a coordinate wraps around. When no area overflows, the layer that gives
  the window its frame is the last one among those of the largest area, and that layer starts at
  its own crop offset.
\<close>

theorem relative_layers_keep_sizes:
  "map ra_name (relative_layers rs) = map ra_name rs \<and>
   map ra_buffer (relative_layers rs) = map ra_buffer rs \<and>
   map (rect_width \<circ> ra_screen_position) (relative_layers rs) = map (rect_width \<circ> ra_screen_position) rs \<and>
   map (rect_height \<circ> ra_screen_position) (relative_layers rs) = map (rect_height \<circ> ra_screen_position) rs \<and>
   (rs \<noteq> [] \<and> (\<forall>r \<in> set rs. 0 \<le> layer_area r \<and> in_s32 (rc_left (ra_crop r)) \<and> in_s32 (rc_top (ra_crop r))) \<longrightarrow>
    (\<exists>i < length rs.
     (\<forall>j < length rs. layer_area (rs ! j) \<le> layer_area (rs ! i)) \<and>
     (\<forall>j < length rs. i < j \<longrightarrow> layer_area (rs ! j) < layer_area (rs ! i)) \<and>
     rc_left (ra_screen_position (relative_layers rs ! i)) = rc_left (ra_crop (rs ! i)) \<and>
     rc_top (ra_screen_position (relative_layers rs ! i)) = rc_top (ra_crop (rs ! i))))"
  (is "_ \<and> _ \<and> _ \<and> _ \<and> (?ok \<longrightarrow> ?frame)")
proof (intro conjI impI)
  assume a: ?ok
  then obtain i where i: "i < length rs" "new_window_frame rs = ra_screen_position (rs ! i)"
      "\<forall>j < length rs. layer_area (rs ! j) \<le> layer_area (rs ! i)"
      "\<forall>j < length rs. i < j \<longrightarrow> layer_area (rs ! j) < layer_area (rs ! i)"
    using new_window_frame_spec [of rs] by blast
  with a show ?frame
    by (intro exI [of _ i])
      (simp add: relative_layers_def set_screen_position_def relative_rect_def s32_cong_add)
qed (simp_all add: relative_layers_def set_screen_position_def relative_rect_size)

theorem relative_layers_keep_sizes_witness:
  "rc_left (ra_screen_position (relative_layers [layer ''a'' (mk_rect 10 20 110 220)] ! 0)) = 0"
proof -
  have "layer_area (layer ''a'' (mk_rect 10 20 110 220)) = 20000" by code_simp
  then show ?thesis
    using relative_layers_keep_sizes [of "[layer ''a'' (mk_rect 10 20 110 220)]"]
    by (auto simp: in_s32_def layer_def)
qed

end
