(* ===== verification/Keycode_Map.thy ===== *)
theory Keycode_Map
  imports Anbox_Prelude
begin

text \<open>
  The keyboard table (\<open>platform/sdl/keycode_converter.cpp\<close>): position \<open>n\<close> of the table is the SDL
  scan code of the Linux key code \<open>n\<close>. A scan code is written as the name of its SDL constant
  without the prefix \<open>SDL_SCANCODE_\<close>; different constants are different codes. The table is given
  in two halves.
\<close>

definition code_map_low :: "string list" where
  "code_map_low = [
    ''UNKNOWN'', ''ESCAPE'', ''1'', ''2'', ''3'', ''4'', ''5'', ''6'', ''7'', ''8'', ''9'',
    ''0'', ''MINUS'', ''EQUALS'', ''BACKSPACE'', ''TAB'', ''Q'', ''W'', ''E'', ''R'', ''T'',
    ''Y'', ''U'', ''I'', ''O'', ''P'', ''LEFTBRACKET'', ''RIGHTBRACKET'', ''RETURN'',
    ''LCTRL'', ''A'', ''S'', ''D'', ''F'', ''G'', ''H'', ''J'', ''K'', ''L'', ''SEMICOLON'',
    ''APOSTROPHE'', ''GRAVE'', ''LSHIFT'', ''BACKSLASH'', ''Z'', ''X'', ''C'', ''V'', ''B'',
    ''N'', ''M'', ''COMMA'', ''PERIOD'', ''SLASH'', ''RSHIFT'', ''KP_MULTIPLY'', ''LALT'',
    ''SPACE'', ''CAPSLOCK'', ''F1'', ''F2'', ''F3'', ''F4'', ''F5'', ''F6'', ''F7'', ''F8'',
    ''F9'', ''F10'', ''NUMLOCKCLEAR'', ''SCROLLLOCK'', ''KP_7'', ''KP_8'', ''KP_9'',
    ''KP_MINUS'', ''KP_4'', ''KP_5'', ''KP_6'', ''KP_PLUS'', ''KP_1'', ''KP_2'', ''KP_3'',
    ''KP_0'', ''KP_PERIOD'', ''UNKNOWN'', ''LANG5'', ''UNKNOWN'', ''F11'', ''F12'',
    ''UNKNOWN'', ''LANG3'', ''LANG4'', ''UNKNOWN'', ''LANG3'', ''UNKNOWN'', ''KP_COMMA'',
    ''KP_ENTER'', ''RCTRL'', ''KP_DIVIDE'', ''SYSREQ'', ''RALT'', ''UNKNOWN'', ''HOME'',
    ''UP'', ''PAGEUP'', ''LEFT'', ''RIGHT'', ''END'', ''DOWN'', ''PAGEDOWN'', ''INSERT'',
    ''DELETE'', ''UNKNOWN'', ''MUTE'', ''VOLUMEDOWN'', ''VOLUMEUP'', ''POWER'', ''KP_EQUALS'',
    ''KP_MINUS'', ''PAUSE'', ''UNKNOWN'', ''KP_COMMA'', ''LANG1'', ''LANG2'',
    ''INTERNATIONAL3'']"

definition code_map_high :: "string list" where
  "code_map_high = [
    ''LGUI'', ''RGUI'', ''APPLICATION'', ''STOP'', ''AGAIN'', ''UNKNOWN'', ''UNDO'',
    ''UNKNOWN'', ''COPY'', ''UNKNOWN'', ''PASTE'', ''FIND'', ''CUT'', ''HELP'', ''MENU'',
    ''CALCULATOR'', ''UNKNOWN'', ''SLEEP'', ''UNKNOWN'', ''UNKNOWN'', ''UNKNOWN'', ''UNKNOWN'',
    ''UNKNOWN'', ''APP1'', ''APP1'', ''WWW'', ''UNKNOWN'', ''UNKNOWN'', ''UNKNOWN'',
    ''UNKNOWN'', ''MAIL'', ''AC_BOOKMARKS'', ''COMPUTER'', ''AC_BACK'', ''AC_FORWARD'',
    ''UNKNOWN'', ''EJECT'', ''UNKNOWN'', ''AUDIONEXT'', ''AUDIOPLAY'', ''AUDIOPREV'',
    ''AUDIOSTOP'', ''UNKNOWN'', ''UNKNOWN'', ''UNKNOWN'', ''UNKNOWN'', ''UNKNOWN'',
    ''AC_HOME'', ''AC_REFRESH'', ''UNKNOWN'', ''UNKNOWN'', ''UNKNOWN'', ''UNKNOWN'',
    ''UNKNOWN'', ''KP_LEFTPAREN'', ''KP_RIGHTPAREN'', ''UNKNOWN'', ''AGAIN'', ''F13'', ''F14'',
    ''F15'', ''F16'', ''F17'', ''F18'', ''F19'', ''F20'', ''F21'', ''F22'', ''F23'', ''F24'',
    ''UNKNOWN'', ''UNKNOWN'', ''UNKNOWN'', ''UNKNOWN'', ''UNKNOWN'', ''UNKNOWN'', ''UNKNOWN'',
    ''UNKNOWN'', ''UNKNOWN'', ''UNKNOWN'', ''UNKNOWN'', ''UNKNOWN'', ''UNKNOWN'', ''UNKNOWN'',
    ''UNKNOWN'', ''UNKNOWN'', ''UNKNOWN'', ''UNKNOWN'', ''UNKNOWN'', ''UNKNOWN'', ''UNKNOWN'',
    ''UNKNOWN'', ''UNKNOWN'', ''UNKNOWN'', ''UNKNOWN'', ''UNKNOWN'', ''UNKNOWN'', ''UNKNOWN'',
    ''UNKNOWN'', ''UNKNOWN'', ''UNKNOWN'', ''UNKNOWN'', ''UNKNOWN'', ''UNKNOWN'', ''UNKNOWN'',
    ''UNKNOWN'', ''UNKNOWN'', ''UNKNOWN'', ''UNKNOWN'', ''UNKNOWN'', ''UNKNOWN'', ''UNKNOWN'',
    ''UNKNOWN'', ''UNKNOWN'', ''UNKNOWN'', ''UNKNOWN'', ''UNKNOWN'', ''UNKNOWN'', ''UNKNOWN'',
    ''UNKNOWN'', ''UNKNOWN'', ''UNKNOWN'', ''UNKNOWN'', ''UNKNOWN'']"

definition code_map :: "string list" where
  "code_map = code_map_low @ code_map_high"

text \<open>\<open>convert\<close>: the first position that holds the scan code, or \<open>KEY_RESERVED\<close>, which is 0.\<close>

fun convert_from :: "string list \<Rightarrow> string \<Rightarrow> nat \<Rightarrow> nat" where
  "convert_from [] scan_code n = 0"
| "convert_from (c # cs) scan_code n = (if c = scan_code then n else convert_from cs scan_code (n + 1))"

definition convert :: "string \<Rightarrow> nat" where
  "convert scan_code = convert_from code_map scan_code 0"

section \<open>Lemmas\<close>

lemma convert_from_first:
  "scan_code \<in> set cs \<Longrightarrow> \<exists>k < length cs. convert_from cs scan_code n = n + k \<and> cs ! k = scan_code \<and>
     (\<forall>j < k. cs ! j \<noteq> scan_code)"
proof (induction cs arbitrary: n)
  case (Cons c cs)
  show ?case
  proof (cases "c = scan_code")
    case False
    with Cons obtain k where "k < length cs" "convert_from cs scan_code (n + 1) = n + 1 + k"
      "cs ! k = scan_code" "\<forall>j < k. cs ! j \<noteq> scan_code" by fastforce
    with False show ?thesis
      by (intro exI [of _ "Suc k"]) (auto simp: less_Suc_eq_0_disj)
  qed (auto intro: exI [of _ 0])
qed simp

lemma convert_from_absent: "scan_code \<notin> set cs \<Longrightarrow> convert_from cs scan_code n = 0"
  by (induction cs arbitrary: n) auto

lemma convert_first:
  assumes "scan_code \<in> set code_map"
  shows "convert scan_code < length code_map" "code_map ! convert scan_code = scan_code"
    "\<forall>j < convert scan_code. code_map ! j \<noteq> scan_code"
  using convert_from_first [OF assms, of 0] by (auto simp: convert_def)

lemma convert_absent: "scan_code \<notin> set code_map \<Longrightarrow> convert scan_code = 0"
  by (simp add: convert_def convert_from_absent)

lemmas code_map_defs = code_map_def code_map_low_def code_map_high_def

lemma code_map_length: "length code_map = 249"
  by (simp add: code_map_defs)

lemma code_map_repeats:
  "code_map ! 74 = code_map ! 118" "code_map ! 90 = code_map ! 93" "code_map ! 95 = code_map ! 121"
  "code_map ! 129 = code_map ! 182" "code_map ! 148 = code_map ! 149"
  by (simp_all add: code_map_defs)

text \<open>A key code whose scan code stands at an earlier position is never answered.\<close>

lemma convert_not_repeated:
  assumes "i < n" "code_map ! i = code_map ! n"
  shows "convert scan_code \<noteq> n"
proof
  assume "convert scan_code = n"
  moreover from this have "scan_code \<in> set code_map" using assms(1) convert_absent by force
  ultimately show False using convert_first [of scan_code] assms by simp
qed

section \<open>Properties\<close>

text \<open>
  Converting a scan code answers a Linux key code below 249 whose place in the table holds that
  scan code, so two scan codes of the table never share a key code; a scan code outside the
  table is reported as the reserved key 0, which the platform drops. Five key codes can never be
  answered, although the table means to provide them: 93 (KATAKANAHIRAGANA), 118 (KPPLUSMINUS),
  121 (KPCOMMA), 149 (PROG2) and 182 (REDO), because their scan codes stand at an earlier place
  too. In particular the comma of a keypad is reported as the Japanese keypad comma.
\<close>

theorem convert_table:
  "(scan_code \<in> set code_map \<longrightarrow> convert scan_code < 249 \<and> code_map ! convert scan_code = scan_code) \<and>
   (scan_code \<notin> set code_map \<longrightarrow> convert scan_code = 0) \<and>
   convert scan_code \<notin> {93, 118, 121, 149, 182}"
  using convert_first [of scan_code] convert_absent [of scan_code]
    convert_not_repeated [OF _ code_map_repeats(1), of scan_code]
    convert_not_repeated [OF _ code_map_repeats(2), of scan_code]
    convert_not_repeated [OF _ code_map_repeats(3), of scan_code]
    convert_not_repeated [OF _ code_map_repeats(4), of scan_code]
    convert_not_repeated [OF _ code_map_repeats(5), of scan_code]
  by (simp add: code_map_length)

theorem convert_table_witness: "convert ''KP_COMMA'' \<noteq> 121 \<and> code_map ! convert ''KP_COMMA'' = ''KP_COMMA''"
proof -
  have "code_map ! 121 = ''KP_COMMA''" by (simp add: code_map_defs)
  then have "''KP_COMMA'' \<in> set code_map" using nth_mem [of 121 code_map] by (simp add: code_map_length)
  then show ?thesis using convert_table [of "''KP_COMMA''"] by simp
qed

end
