(* ===== verification/Touch_Input.thy ===== *)
theory Touch_Input
  imports Geometry Keycode_Map "HOL-Library.Signed_Division"
begin

text \<open>
  Input of the SDL platform (\<open>platform/sdl/platform.cpp\<close>, input part): the events of SDL become
  Linux input events for the pointer, the keyboard and the touch screen device. The touch screen
  speaks the multi-touch protocol with slots: the platform keeps which finger has which slot and
  which slot was announced last. SDL's answers and its floating point coordinates are
  parameters.
\<close>

section \<open>Input events\<close>

record input_event =
  ie_type :: nat
  ie_code :: nat
  ie_value :: int

definition input_ev :: "nat \<Rightarrow> nat \<Rightarrow> int \<Rightarrow> input_event" where
  "input_ev t c v = \<lparr>ie_type = t, ie_code = c, ie_value = v\<rparr>"

definition EV_SYN :: nat where "EV_SYN = 0"
definition EV_KEY :: nat where "EV_KEY = 1"
definition EV_REL :: nat where "EV_REL = 2"
definition EV_ABS :: nat where "EV_ABS = 3"
definition SYN_REPORT :: nat where "SYN_REPORT = 0"
definition BTN_LEFT :: nat where "BTN_LEFT = 0x110"
definition REL_X :: nat where "REL_X = 0"
definition REL_Y :: nat where "REL_Y = 1"
definition REL_WHEEL :: nat where "REL_WHEEL = 8"
definition ABS_X :: nat where "ABS_X = 0"
definition ABS_Y :: nat where "ABS_Y = 1"
definition ABS_MT_SLOT :: nat where "ABS_MT_SLOT = 0x2f"
definition ABS_MT_POSITION_X :: nat where "ABS_MT_POSITION_X = 0x35"
definition ABS_MT_POSITION_Y :: nat where "ABS_MT_POSITION_Y = 0x36"
definition ABS_MT_TRACKING_ID :: nat where "ABS_MT_TRACKING_ID = 0x39"
definition KEY_RESERVED :: nat where "KEY_RESERVED = 0"

lemmas input_codes = EV_SYN_def EV_KEY_def EV_REL_def EV_ABS_def SYN_REPORT_def ABS_X_def ABS_Y_def
  ABS_MT_SLOT_def ABS_MT_POSITION_X_def ABS_MT_POSITION_Y_def ABS_MT_TRACKING_ID_def

section \<open>Touch slots\<close>

definition MAX_FINGERS :: nat where "MAX_FINGERS = 10"
definition MAX_TRACKING_ID :: int where "MAX_TRACKING_ID = 10"
definition emulated_touch_id :: int where "emulated_touch_id = 0"

record touch_state =
  tp_slots :: "int list"
  tp_last :: int

definition new_touch_state :: touch_state where
  "new_touch_state = \<lparr>tp_slots = replicate MAX_FINGERS (- 1), tp_last = - 1\<rparr>"

text \<open>The first slot that holds the number, or -1.\<close>

fun slot_index :: "int list \<Rightarrow> int \<Rightarrow> int \<Rightarrow> int" where
  "slot_index [] fid i = - 1"
| "slot_index (s # ss) fid i = (if s = fid then i else slot_index ss fid (i + 1))"

definition find_touch_slot :: "int \<Rightarrow> touch_state \<Rightarrow> int" where
  "find_touch_slot fid t = slot_index (tp_slots t) fid 0"

definition push_slot :: "int \<Rightarrow> touch_state \<Rightarrow> input_event list \<times> touch_state" where
  "push_slot slot t =
     (if tp_last t \<noteq> slot then ([input_ev EV_ABS ABS_MT_SLOT slot], t\<lparr>tp_last := slot\<rparr>) else ([], t))"

definition tracking_id :: "int \<Rightarrow> int" where
  "tracking_id finger_id = finger_id smod MAX_TRACKING_ID + 1"

definition push_finger_down :: "int \<Rightarrow> int \<Rightarrow> int \<Rightarrow> touch_state \<Rightarrow> input_event list \<times> touch_state" where
  "push_finger_down x y finger_id t =
     (let slot = find_touch_slot (- 1) t
      in if slot = - 1 then ([], t)
         else
           (case push_slot slot (t\<lparr>tp_slots := (tp_slots t)[nat slot := finger_id]\<rparr>) of
              (evs, t) \<Rightarrow>
                (evs @ [input_ev EV_ABS ABS_MT_TRACKING_ID (tracking_id finger_id),
                        input_ev EV_ABS ABS_MT_POSITION_X x, input_ev EV_ABS ABS_MT_POSITION_Y y,
                        input_ev EV_SYN SYN_REPORT 0], t)))"

definition push_finger_up :: "int \<Rightarrow> touch_state \<Rightarrow> input_event list \<times> touch_state" where
  "push_finger_up finger_id t =
     (let slot = find_touch_slot finger_id t
      in if slot = - 1 then ([], t)
         else
           (case push_slot slot t of
              (evs, t) \<Rightarrow>
                (evs @ [input_ev EV_ABS ABS_MT_TRACKING_ID (- 1), input_ev EV_SYN SYN_REPORT 0],
                 t\<lparr>tp_slots := (tp_slots t)[nat slot := - 1]\<rparr>)))"

definition push_finger_motion :: "int \<Rightarrow> int \<Rightarrow> int \<Rightarrow> touch_state \<Rightarrow> input_event list \<times> touch_state" where
  "push_finger_motion x y finger_id t =
     (let slot = find_touch_slot finger_id t
      in if slot = - 1 then ([], t)
         else
           (case push_slot slot t of
              (evs, t) \<Rightarrow>
                (evs @ [input_ev EV_ABS ABS_MT_POSITION_X x, input_ev EV_ABS ABS_MT_POSITION_Y y,
                        input_ev EV_SYN SYN_REPORT 0], t)))"

section \<open>Coordinates\<close>

text \<open>
  What the platform asks SDL for an event: the focused window (if there is one) with its
  position and size, the pointer position, and the products of sizes with the normalised finger
  coordinates, which are floating point numbers of the abstract type \<open>'f\<close>. \<open>in_absolute\<close> is the
  test for SDL before 2.0.7 with coordinates above one, \<open>in_trunc\<close> the conversion to \<open>int\<close>.
\<close>

record 'f input_env =
  in_no_touch_emulation :: bool
  in_single_window :: bool
  in_display_frame :: rect
  in_window :: "((int \<times> int) \<times> (int \<times> int)) option"   \<comment> \<open>position and size of the focused window\<close>
  in_mouse_state :: "int \<times> int"
  in_scale :: "int \<Rightarrow> 'f \<Rightarrow> int"
  in_absolute :: "'f \<Rightarrow> 'f \<Rightarrow> bool"
  in_trunc :: "'f \<Rightarrow> int"

definition adjust_in_window :: "'f input_env \<Rightarrow> int \<times> int \<Rightarrow> (int \<times> int) option" where
  "adjust_in_window env p =
     (case in_window env of
        None \<Rightarrow> None
      | Some ((rel_x, rel_y), _) \<Rightarrow> Some (s32 (fst p + rel_x), s32 (snd p + rel_y)))"

definition adjust_coordinates :: "'f input_env \<Rightarrow> int \<times> int \<Rightarrow> (int \<times> int) option" where
  "adjust_coordinates env p =
     (if \<not> in_single_window env then adjust_in_window env p else Some p)"

definition calculate_touch_coordinates :: "'f input_env \<Rightarrow> 'f \<Rightarrow> 'f \<Rightarrow> (int \<times> int) option" where
  "calculate_touch_coordinates env fx fy =
     (let p = (if in_absolute env fx fy then (in_trunc env fx, in_trunc env fy)
               else
                 (case in_window env of
                    Some (_, (w, h)) \<Rightarrow> (in_scale env w fx, in_scale env h fy)
                  | None \<Rightarrow> (in_scale env (rect_width (in_display_frame env)) fx,
                             in_scale env (rect_height (in_display_frame env)) fy)))
      in if in_single_window env then Some p else adjust_in_window env p)"

section \<open>process_input_event\<close>

datatype 'f sdl_input =
    Mouse_button_down int int
  | Mouse_button_up
  | Mouse_motion int int int int
  | Mouse_wheel int
  | Key_down string
  | Key_up string
  | Finger_down 'f 'f int
  | Finger_up int
  | Finger_motion 'f 'f int
  | Other_input

record device_events =
  de_pointer :: "input_event list"
  de_keyboard :: "input_event list"
  de_touch :: "input_event list"

definition key_events :: "nat \<Rightarrow> int \<Rightarrow> input_event list" where
  "key_events code v = (if code = KEY_RESERVED then [] else [input_ev EV_KEY code v])"

text \<open>
  The events collected by the switch, and the touch state. An SDL finger number has 64 bits and is
  passed as an \<open>int\<close>.
\<close>

fun input_switch ::
  "'f input_env \<Rightarrow> 'f sdl_input \<Rightarrow> touch_state \<Rightarrow>
   (input_event list \<times> input_event list \<times> input_event list) \<times> touch_state" where
  "input_switch env (Mouse_button_down x y) t =
     (if in_no_touch_emulation env then (([input_ev EV_KEY BTN_LEFT 1], [], []), t)
      else
        (case adjust_coordinates env (x, y) of
           None \<Rightarrow> (([], [], []), t)
         | Some (x, y) \<Rightarrow> (case push_finger_down x y emulated_touch_id t of (evs, t) \<Rightarrow> (([], [], evs), t))))"
| "input_switch env Mouse_button_up t =
     (if in_no_touch_emulation env then (([input_ev EV_KEY BTN_LEFT 0], [], []), t)
      else (case push_finger_up emulated_touch_id t of (evs, t) \<Rightarrow> (([], [], evs), t)))"
| "input_switch env (Mouse_motion x y xrel yrel) t =
     (case adjust_coordinates env (x, y) of
        None \<Rightarrow> (([], [], []), t)
      | Some (x, y) \<Rightarrow>
          (if in_no_touch_emulation env
           then (([input_ev EV_ABS ABS_X x, input_ev EV_ABS ABS_Y y,
                   input_ev EV_REL REL_X xrel, input_ev EV_REL REL_Y yrel], [], []), t)
           else (case push_finger_motion x y emulated_touch_id t of (evs, t) \<Rightarrow> (([], [], evs), t))))"
| "input_switch env (Mouse_wheel wheel) t =
     (if \<not> in_no_touch_emulation env
      then
        (case adjust_coordinates env (in_mouse_state env) of
           None \<Rightarrow> (([], [], []), t)
         | Some (x, y) \<Rightarrow>
             (([input_ev EV_ABS ABS_X x, input_ev EV_ABS ABS_Y y, input_ev EV_REL REL_WHEEL wheel], [], []), t))
      else (([input_ev EV_REL REL_WHEEL wheel], [], []), t))"
| "input_switch env (Key_down scancode) t = (([], key_events (convert scancode) 1, []), t)"
| "input_switch env (Key_up scancode) t = (([], key_events (convert scancode) 0, []), t)"
| "input_switch env (Finger_down fx fy fid) t =
     (case calculate_touch_coordinates env fx fy of
        None \<Rightarrow> (([], [], []), t)
      | Some (x, y) \<Rightarrow> (case push_finger_down x y (s32 fid) t of (evs, t) \<Rightarrow> (([], [], evs), t)))"
| "input_switch env (Finger_up fid) t =
     (case push_finger_up (s32 fid) t of (evs, t) \<Rightarrow> (([], [], evs), t))"
| "input_switch env (Finger_motion fx fy fid) t =
     (case calculate_touch_coordinates env fx fy of
        None \<Rightarrow> (([], [], []), t)
      | Some (x, y) \<Rightarrow> (case push_finger_motion x y (s32 fid) t of (evs, t) \<Rightarrow> (([], [], evs), t)))"
| "input_switch env Other_input t = (([], [], []), t)"

text \<open>What is sent to each device; nothing is sent where the list is empty.\<close>

definition process_input_event ::
  "'f input_env \<Rightarrow> 'f sdl_input \<Rightarrow> touch_state \<Rightarrow> device_events \<times> touch_state" where
  "process_input_event env ev t =
     (case input_switch env ev t of
        ((mouse, keyboard, touch), t) \<Rightarrow>
          (\<lparr>de_pointer = (if mouse \<noteq> [] then mouse @ [input_ev EV_SYN SYN_REPORT 0] else []),
            de_keyboard = keyboard, de_touch = touch\<rparr>, t))"

fun process_inputs ::
  "('f input_env \<times> 'f sdl_input) list \<Rightarrow> touch_state \<Rightarrow> device_events list \<times> touch_state" where
  "process_inputs [] t = ([], t)"
| "process_inputs ((env, ev) # rest) t =
     (case process_input_event env ev t of
        (out, t) \<Rightarrow> (case process_inputs rest t of (outs, t) \<Rightarrow> (out # outs, t)))"

section \<open>Contacts: the abstract view of the touch screen\<close>

text \<open>
  The screen as the guest should see it: ten places, each free or held by a finger at a position.
  A finger that touches takes the first free place; it moves and leaves where it is found first.
\<close>

type_synonym contact = "(int \<times> int \<times> int) option"

fun first_place :: "('a \<Rightarrow> bool) \<Rightarrow> 'a list \<Rightarrow> nat option" where
  "first_place P [] = None"
| "first_place P (c # cs) = (if P c then Some 0 else map_option Suc (first_place P cs))"

definition held_by :: "int \<Rightarrow> contact \<Rightarrow> bool" where
  "held_by f c \<longleftrightarrow> map_option fst c = Some f"

definition contact_down :: "int \<Rightarrow> int \<Rightarrow> int \<Rightarrow> contact list \<Rightarrow> contact list" where
  "contact_down x y f cs =
     (case first_place (\<lambda>c. c = None) cs of None \<Rightarrow> cs | Some k \<Rightarrow> cs[k := Some (f, x, y)])"

definition contact_up :: "int \<Rightarrow> contact list \<Rightarrow> contact list" where
  "contact_up f cs = (case first_place (held_by f) cs of None \<Rightarrow> cs | Some k \<Rightarrow> cs[k := None])"

definition contact_motion :: "int \<Rightarrow> int \<Rightarrow> int \<Rightarrow> contact list \<Rightarrow> contact list" where
  "contact_motion x y f cs =
     (case first_place (held_by f) cs of None \<Rightarrow> cs | Some k \<Rightarrow> cs[k := Some (f, x, y)])"

fun contact_step :: "'f input_env \<Rightarrow> 'f sdl_input \<Rightarrow> contact list \<Rightarrow> contact list" where
  "contact_step env (Mouse_button_down x y) cs =
     (if in_no_touch_emulation env then cs
      else (case adjust_coordinates env (x, y) of
              None \<Rightarrow> cs | Some (x, y) \<Rightarrow> contact_down x y emulated_touch_id cs))"
| "contact_step env Mouse_button_up cs =
     (if in_no_touch_emulation env then cs else contact_up emulated_touch_id cs)"
| "contact_step env (Mouse_motion x y xrel yrel) cs =
     (if in_no_touch_emulation env then cs
      else (case adjust_coordinates env (x, y) of
              None \<Rightarrow> cs | Some (x, y) \<Rightarrow> contact_motion x y emulated_touch_id cs))"
| "contact_step env (Finger_down fx fy fid) cs =
     (case calculate_touch_coordinates env fx fy of
        None \<Rightarrow> cs | Some (x, y) \<Rightarrow> contact_down x y (s32 fid) cs)"
| "contact_step env (Finger_up fid) cs = contact_up (s32 fid) cs"
| "contact_step env (Finger_motion fx fy fid) cs =
     (case calculate_touch_coordinates env fx fy of
        None \<Rightarrow> cs | Some (x, y) \<Rightarrow> contact_motion x y (s32 fid) cs)"
| "contact_step env _ cs = cs"

fun contact_steps :: "('f input_env \<times> 'f sdl_input) list \<Rightarrow> contact list \<Rightarrow> contact list" where
  "contact_steps [] cs = cs"
| "contact_steps ((env, ev) # rest) cs = contact_steps rest (contact_step env ev cs)"

section \<open>A receiver of the slot protocol\<close>

text \<open>
  The reading side of the Linux multi-touch protocol with slots: \<open>ABS_MT_SLOT\<close> selects the slot
  the following values belong to; a tracking number of -1 ends the contact.
\<close>

record mt_receiver =
  mt_slot :: int
  mt_ids :: "int \<Rightarrow> int"
  mt_x :: "int \<Rightarrow> int"
  mt_y :: "int \<Rightarrow> int"

definition mt_event :: "input_event \<Rightarrow> mt_receiver \<Rightarrow> mt_receiver" where
  "mt_event e m =
     (if ie_type e \<noteq> EV_ABS then m
      else if ie_code e = ABS_MT_SLOT then m\<lparr>mt_slot := ie_value e\<rparr>
      else if ie_code e = ABS_MT_TRACKING_ID then m\<lparr>mt_ids := (mt_ids m)(mt_slot m := ie_value e)\<rparr>
      else if ie_code e = ABS_MT_POSITION_X then m\<lparr>mt_x := (mt_x m)(mt_slot m := ie_value e)\<rparr>
      else if ie_code e = ABS_MT_POSITION_Y then m\<lparr>mt_y := (mt_y m)(mt_slot m := ie_value e)\<rparr>
      else m)"

definition mt_run :: "input_event list \<Rightarrow> mt_receiver \<Rightarrow> mt_receiver" where
  "mt_run evs m = fold mt_event evs m"

definition finger_of :: "contact \<Rightarrow> int" where
  "finger_of c = (case c of None \<Rightarrow> - 1 | Some (f, _) \<Rightarrow> f)"

definition shows_contact :: "mt_receiver \<Rightarrow> nat \<Rightarrow> contact \<Rightarrow> bool" where
  "shows_contact m k c \<longleftrightarrow>
     (case c of
        None \<Rightarrow> mt_ids m (int k) = - 1
      | Some (f, x, y) \<Rightarrow>
          mt_ids m (int k) = tracking_id f \<and> mt_ids m (int k) \<noteq> - 1 \<and>
          mt_x m (int k) = x \<and> mt_y m (int k) = y)"

definition touch_rel :: "contact list \<Rightarrow> touch_state \<Rightarrow> mt_receiver \<Rightarrow> bool" where
  "touch_rel cs t m \<longleftrightarrow>
     length cs = MAX_FINGERS \<and> tp_slots t = map finger_of cs \<and>
     (\<forall>c \<in> set cs. case c of None \<Rightarrow> True | Some (f, _) \<Rightarrow> 0 \<le> f) \<and>
     (\<forall>k < length cs. shows_contact m k (cs ! k)) \<and>
     (tp_last t = - 1 \<or> tp_last t = mt_slot m)"

lemma mt_run_simps [simp]:
  "mt_run [] m = m" "mt_run (e # es) m = mt_run es (mt_event e m)"
  "mt_run (es @ fs) m = mt_run fs (mt_run es m)"
  by (simp_all add: mt_run_def)

lemma mt_event_simps [simp]:
  "mt_event (input_ev EV_ABS ABS_MT_SLOT v) m = m\<lparr>mt_slot := v\<rparr>"
  "mt_event (input_ev EV_ABS ABS_MT_TRACKING_ID v) m = m\<lparr>mt_ids := (mt_ids m)(mt_slot m := v)\<rparr>"
  "mt_event (input_ev EV_ABS ABS_MT_POSITION_X v) m = m\<lparr>mt_x := (mt_x m)(mt_slot m := v)\<rparr>"
  "mt_event (input_ev EV_ABS ABS_MT_POSITION_Y v) m = m\<lparr>mt_y := (mt_y m)(mt_slot m := v)\<rparr>"
  "mt_event (input_ev EV_SYN SYN_REPORT v) m = m"
  by (simp_all add: mt_event_def input_ev_def input_codes)

lemma tracking_id_pos: "0 \<le> f \<Longrightarrow> 1 \<le> tracking_id f"
  using smod_int_compares(2) [of f 10] by (simp add: tracking_id_def MAX_TRACKING_ID_def)

lemma first_place_Some:
  "first_place P cs = Some k \<Longrightarrow> k < length cs \<and> P (cs ! k)"
  by (induction cs arbitrary: k) (auto split: if_splits)

lemma slot_index_first_place:
  "0 \<le> i \<Longrightarrow> slot_index ss f i =
     (case first_place (\<lambda>s. s = f) ss of None \<Rightarrow> - 1 | Some k \<Rightarrow> i + int k)"
  by (induction ss f i rule: slot_index.induct) (auto split: option.splits)

lemma first_place_map: "first_place P (map g cs) = first_place (P \<circ> g) cs"
  by (induction cs) auto

lemma first_place_cong:
  "(\<And>c. c \<in> set cs \<Longrightarrow> P c = Q c) \<Longrightarrow> first_place P cs = first_place Q cs"
  by (induction cs) auto

lemma find_touch_slot_rel:
  assumes "touch_rel cs t m"
  shows "find_touch_slot (- 1) t = (case first_place (\<lambda>c. c = None) cs of None \<Rightarrow> - 1 | Some k \<Rightarrow> int k)"
    and "0 \<le> f \<Longrightarrow> find_touch_slot f t = (case first_place (held_by f) cs of None \<Rightarrow> - 1 | Some k \<Rightarrow> int k)"
proof -
  have s: "tp_slots t = map finger_of cs"
    and p: "\<forall>c \<in> set cs. case c of None \<Rightarrow> True | Some (f, _) \<Rightarrow> 0 \<le> f"
    using assms by (auto simp: touch_rel_def)
  have "first_place ((\<lambda>s. s = - 1) \<circ> finger_of) cs = first_place (\<lambda>c. c = None) cs"
    using p by (intro first_place_cong) (force simp: finger_of_def split: option.splits)
  then show "find_touch_slot (- 1) t = (case first_place (\<lambda>c. c = None) cs of None \<Rightarrow> - 1 | Some k \<Rightarrow> int k)"
    by (simp add: find_touch_slot_def slot_index_first_place s first_place_map split: option.split)
  assume "0 \<le> f"
  then have "first_place ((\<lambda>s. s = f) \<circ> finger_of) cs = first_place (held_by f) cs"
    by (intro first_place_cong) (auto simp: finger_of_def held_by_def split: option.splits)
  then show "find_touch_slot f t = (case first_place (held_by f) cs of None \<Rightarrow> - 1 | Some k \<Rightarrow> int k)"
    by (simp add: find_touch_slot_def slot_index_first_place s first_place_map split: option.split)
qed

text \<open>Announcing a slot makes it the receiver's slot and changes nothing else.\<close>

lemma push_slot_run:
  assumes "push_slot (int k) t = (evs, t')" "tp_last t = - 1 \<or> tp_last t = mt_slot m"
  shows "mt_run evs m = m\<lparr>mt_slot := int k\<rparr> \<and> t' = t\<lparr>tp_last := int k\<rparr>"
  using assms by (auto simp: push_slot_def split: if_splits)

text \<open>The relation after place \<open>k\<close> has changed, in the platform and in the receiver alike.\<close>

lemma touch_rel_update:
  assumes "touch_rel cs t m" "k < length cs"
    and "case c of None \<Rightarrow> True | Some (f, _) \<Rightarrow> 0 \<le> f"
    and "tp_slots t' = (tp_slots t)[k := finger_of c]" "tp_last t' = int k" "mt_slot m' = int k"
    and "shows_contact m' k c"
    and "\<forall>j. j \<noteq> k \<longrightarrow> mt_ids m' (int j) = mt_ids m (int j) \<and> mt_x m' (int j) = mt_x m (int j) \<and>
           mt_y m' (int j) = mt_y m (int j)"
  shows "touch_rel (cs[k := c]) t' m'"
proof -
  have "shows_contact m' j (cs[k := c] ! j)" if "j < length cs" for j
    using assms that by (cases "j = k") (auto simp: touch_rel_def shows_contact_def split: option.splits)
  moreover have "\<forall>x \<in> set (cs[k := c]). case x of None \<Rightarrow> True | Some (f, _) \<Rightarrow> 0 \<le> f"
    using assms(1,3) set_update_subset_insert [of cs k c] unfolding touch_rel_def by fastforce
  ultimately show ?thesis
    using assms by (simp add: touch_rel_def map_update)
qed

lemma touch_rel_down:
  assumes "touch_rel cs t m" "0 \<le> f" "push_finger_down x y f t = (evs, t')"
  shows "touch_rel (contact_down x y f cs) t' (mt_run evs m)"
proof (cases "first_place (\<lambda>c. c = None) cs")
  case None
  with assms show ?thesis
    by (simp add: push_finger_down_def contact_down_def find_touch_slot_rel(1) [OF assms(1)])
next
  case (Some k)
  obtain es t1 where p: "push_slot (int k) (t\<lparr>tp_slots := (tp_slots t)[k := f]\<rparr>) = (es, t1)"
    by (metis surj_pair)
  have r: "mt_run es m = m\<lparr>mt_slot := int k\<rparr>" "t1 = t\<lparr>tp_slots := (tp_slots t)[k := f], tp_last := int k\<rparr>"
    using push_slot_run [OF p, of m] assms(1) by (simp_all add: touch_rel_def)
  have "evs = es @ [input_ev EV_ABS ABS_MT_TRACKING_ID (tracking_id f),
      input_ev EV_ABS ABS_MT_POSITION_X x, input_ev EV_ABS ABS_MT_POSITION_Y y,
      input_ev EV_SYN SYN_REPORT 0]" "t' = t1"
    using assms(3) Some p by (simp_all add: push_finger_down_def find_touch_slot_rel(1) [OF assms(1)])
  then show ?thesis
    using assms(1,2) first_place_Some [OF Some] tracking_id_pos [OF assms(2)] r
    by (simp add: contact_down_def Some)
      (rule touch_rel_update [OF assms(1)], auto simp: finger_of_def shows_contact_def)
qed

lemma touch_rel_up:
  assumes "touch_rel cs t m" "0 \<le> f" "push_finger_up f t = (evs, t')"
  shows "touch_rel (contact_up f cs) t' (mt_run evs m)"
proof (cases "first_place (held_by f) cs")
  case None
  with assms show ?thesis
    by (simp add: push_finger_up_def contact_up_def find_touch_slot_rel(2) [OF assms(1)])
next
  case (Some k)
  obtain es t1 where p: "push_slot (int k) t = (es, t1)" by (metis surj_pair)
  have r: "mt_run es m = m\<lparr>mt_slot := int k\<rparr>" "t1 = t\<lparr>tp_last := int k\<rparr>"
    using push_slot_run [OF p, of m] assms(1) by (simp_all add: touch_rel_def)
  have "evs = es @ [input_ev EV_ABS ABS_MT_TRACKING_ID (- 1), input_ev EV_SYN SYN_REPORT 0]"
    "t' = t1\<lparr>tp_slots := (tp_slots t1)[k := - 1]\<rparr>"
    using assms(2,3) Some p by (simp_all add: push_finger_up_def find_touch_slot_rel(2) [OF assms(1)])
  then show ?thesis
    using first_place_Some [OF Some] r
    by (simp add: contact_up_def Some)
      (rule touch_rel_update [OF assms(1)], auto simp: finger_of_def shows_contact_def)
qed

lemma touch_rel_motion:
  assumes "touch_rel cs t m" "0 \<le> f" "push_finger_motion x y f t = (evs, t')"
  shows "touch_rel (contact_motion x y f cs) t' (mt_run evs m)"
proof (cases "first_place (held_by f) cs")
  case None
  with assms show ?thesis
    by (simp add: push_finger_motion_def contact_motion_def find_touch_slot_rel(2) [OF assms(1)])
next
  case (Some k)
  obtain es t1 where p: "push_slot (int k) t = (es, t1)" by (metis surj_pair)
  have r: "mt_run es m = m\<lparr>mt_slot := int k\<rparr>" "t1 = t\<lparr>tp_last := int k\<rparr>"
    using push_slot_run [OF p, of m] assms(1) by (simp_all add: touch_rel_def)
  have k: "k < length cs" "held_by f (cs ! k)" using first_place_Some [OF Some] by simp_all
  then have sh: "mt_ids m (int k) = tracking_id f" "tp_slots t ! k = f" "tp_slots t = map finger_of cs"
    using assms(1) by (auto simp: touch_rel_def held_by_def shows_contact_def finger_of_def)
  have "evs = es @ [input_ev EV_ABS ABS_MT_POSITION_X x, input_ev EV_ABS ABS_MT_POSITION_Y y,
      input_ev EV_SYN SYN_REPORT 0]" "t' = t1"
    using assms(2,3) Some p by (simp_all add: push_finger_motion_def find_touch_slot_rel(2) [OF assms(1)])
  then show ?thesis
    using k(1) r sh assms(2) tracking_id_pos [OF assms(2)] list_update_id [of "tp_slots t" k]
    by (simp add: contact_motion_def Some)
      (rule touch_rel_update [OF assms(1)], auto simp: finger_of_def shows_contact_def)
qed

lemmas touch_rel_steps = touch_rel_down touch_rel_up touch_rel_motion

text \<open>Finger numbers SDL passes that stay non-negative as an \<open>int\<close>.\<close>

fun finger_ok :: "'f sdl_input \<Rightarrow> bool" where
  "finger_ok (Finger_down fx fy fid) \<longleftrightarrow> 0 \<le> s32 fid"
| "finger_ok (Finger_up fid) \<longleftrightarrow> 0 \<le> s32 fid"
| "finger_ok (Finger_motion fx fy fid) \<longleftrightarrow> 0 \<le> s32 fid"
| "finger_ok _ \<longleftrightarrow> True"

lemma touch_rel_input:
  assumes "touch_rel cs t m" "finger_ok ev" "process_input_event env ev t = (out, t')"
  shows "touch_rel (contact_step env ev cs) t' (mt_run (de_touch out) m)"
proof -
  obtain mo ke tu t1 where s: "input_switch env ev t = ((mo, ke, tu), t1)" by (metis surj_pair)
  with assms(3) have o: "de_touch out = tu" "t' = t1"
    by (auto simp: process_input_event_def)
  have e: "0 \<le> emulated_touch_id" by (simp add: emulated_touch_id_def)
  show ?thesis
    unfolding o using s assms(1,2) e
    by (cases ev)
      (auto split: if_splits option.splits prod.splits intro!: touch_rel_steps)
qed

lemma touch_rel_inputs:
  "touch_rel cs t m \<Longrightarrow> \<forall>(env, ev) \<in> set evs. finger_ok ev \<Longrightarrow> process_inputs evs t = (outs, t') \<Longrightarrow>
     touch_rel (contact_steps evs cs) t' (mt_run (concat (map de_touch outs)) m)"
proof (induction evs cs arbitrary: t m outs rule: contact_steps.induct)
  case (2 env ev rest cs)
  obtain out t1 where p: "process_input_event env ev t = (out, t1)" by (metis surj_pair)
  with "2.prems"(3) obtain outs' where o: "process_inputs rest t1 = (outs', t')" "outs = out # outs'"
    by (auto split: prod.splits)
  have "touch_rel (contact_step env ev cs) t1 (mt_run (de_touch out) m)"
    using touch_rel_input [OF "2.prems"(1) _ p] "2.prems"(2) by simp
  with "2.IH" o "2.prems"(2) show ?case by simp
qed auto

section \<open>Properties\<close>

text \<open>
  C39. Whatever mouse, keyboard and touch events SDL delivers, a receiver of the slot protocol that
  reads the stream sent to the touch device sees exactly the contacts of the screen: each of the
  ten places is a live contact at the finger's last position when a finger holds it, and no
  contact otherwise, and the platform's table of slots names the fingers that hold them. Finger
  numbers must be non-negative as an \<open>int\<close>; the receiver may have been on any slot before.
\<close>

theorem touch_stream_shows_contacts:
  assumes "\<forall>(env, ev) \<in> set evs. finger_ok ev"
    and "process_inputs evs new_touch_state = (outs, t)"
    and "\<forall>k < MAX_FINGERS. mt_ids m (int k) = - 1"
  shows "\<forall>k < MAX_FINGERS.
    shows_contact (mt_run (concat (map de_touch outs)) m) k (contact_steps evs (replicate MAX_FINGERS None) ! k) \<and>
    tp_slots t ! k = finger_of (contact_steps evs (replicate MAX_FINGERS None) ! k)"
proof -
  have "touch_rel (replicate MAX_FINGERS None) new_touch_state m"
    using assms(3) by (auto simp: touch_rel_def new_touch_state_def shows_contact_def finger_of_def)
  from touch_rel_inputs [OF this assms(1,2)] show ?thesis
    by (simp add: touch_rel_def)
qed

definition plain_env :: "int input_env" where
  "plain_env = \<lparr>in_no_touch_emulation = False, in_single_window = True, in_display_frame = rect_Empty,
     in_window = None, in_mouse_state = (0, 0), in_scale = (\<lambda>_ v. v), in_absolute = (\<lambda>_ _. True),
     in_trunc = (\<lambda>v. v)\<rparr>"

theorem touch_stream_shows_contacts_witness:
  "shows_contact
     (mt_run (concat (map de_touch (fst (process_inputs
        [(plain_env, Finger_down 3 4 (5 :: int)), (plain_env, Finger_motion 8 9 5)] new_touch_state))))
       \<lparr>mt_slot = 2, mt_ids = (\<lambda>_. - 1), mt_x = (\<lambda>_. 0), mt_y = (\<lambda>_. 0)\<rparr>)
     0 (Some (5, 8, 9))"
proof -
  let ?evs = "[(plain_env, Finger_down 3 4 (5 :: int)), (plain_env, Finger_motion 8 9 5)]"
  let ?m = "\<lparr>mt_slot = 2, mt_ids = (\<lambda>_. - 1), mt_x = (\<lambda>_. 0), mt_y = (\<lambda>_. 0)\<rparr> :: mt_receiver"
  have ok: "\<forall>(env, ev) \<in> set ?evs. finger_ok ev" by (simp add: in_s32_def)
  have m: "\<forall>k < MAX_FINGERS. mt_ids ?m (int k) = - 1" by simp
  have c: "contact_steps ?evs (replicate MAX_FINGERS None) ! 0 = Some (5, 8, 9)" by code_simp
  have "0 < MAX_FINGERS" by (simp add: MAX_FINGERS_def)
  then show ?thesis
    using touch_stream_shows_contacts [OF ok prod.collapse [symmetric] m] c by (metis (no_types, lifting))
qed

end
