(* ===== verification/Input_Device.thy ===== *)
theory Input_Device
  imports Network Touch_Input Binary_Config
begin

text \<open>
  Input devices (\<open>input/device.cpp\<close>, \<open>input/device.h\<close>, \<open>input/manager.cpp\<close>). A device describes
  itself to every client that connects and then sends it events. A connection is the list of the
  messages sent to it; the table of connections is the one of \<open>Network\<close>. Multi-byte numbers are
  little endian, as on the supported hosts.
\<close>

section \<open>The device description\<close>

record input_id =
  id_bustype :: u16
  id_vendor :: u16
  id_product :: u16
  id_version :: u16

record device_info =
  di_name :: bytes
  di_driver_version :: u32
  di_id :: input_id
  di_physical_location :: bytes
  di_unique_id :: bytes
  di_key_bitmask :: bytes
  di_abs_bitmask :: bytes
  di_rel_bitmask :: bytes
  di_sw_bitmask :: bytes
  di_led_bitmask :: bytes
  di_ff_bitmask :: bytes
  di_prop_bitmask :: bytes
  di_abs_max :: "u32 list"
  di_abs_min :: "u32 list"

definition new_device_info :: device_info where
  "new_device_info = \<lparr>di_name = replicate 80 0, di_driver_version = 0,
     di_id = \<lparr>id_bustype = 0, id_vendor = 0, id_product = 0, id_version = 0\<rparr>,
     di_physical_location = replicate 80 0, di_unique_id = replicate 80 0,
     di_key_bitmask = replicate 96 0, di_abs_bitmask = replicate 8 0, di_rel_bitmask = replicate 2 0,
     di_sw_bitmask = replicate 2 0, di_led_bitmask = replicate 2 0, di_ff_bitmask = replicate 16 0,
     di_prop_bitmask = replicate 4 0, di_abs_max = replicate 64 0, di_abs_min = replicate 64 0\<rparr>"

text \<open>\<open>snprintf(field, 80, "%s", text)\<close>: at most 79 bytes and a terminator; the rest is kept.\<close>

definition snprintf80 :: "string \<Rightarrow> bytes \<Rightarrow> bytes" where
  "snprintf80 text field =
     (let s = take 79 (takeWhile (\<lambda>b. b \<noteq> 0) (bytes_of text))
      in s @ [0] @ drop (length s + 1) field)"

definition device_set_bit :: "bytes \<Rightarrow> u64 \<Rightarrow> bytes res" where
  "device_set_bit array pos =
     (let i = unat (pos div 8)
      in if i < length array then Inr (array[i := or (array ! i) (push_bit (unat (pos mod 8)) 1)])
         else Inl (Undefined ''write past the end of a bit mask''))"

definition set_name :: "string \<Rightarrow> device_info \<Rightarrow> device_info" where
  "set_name name d = d\<lparr>di_name := snprintf80 name (di_name d)\<rparr>"

definition set_driver_version :: "u32 \<Rightarrow> device_info \<Rightarrow> device_info" where
  "set_driver_version version d = d\<lparr>di_driver_version := version\<rparr>"

definition set_input_id :: "input_id \<Rightarrow> device_info \<Rightarrow> device_info" where
  "set_input_id i d = d\<lparr>di_id := i\<rparr>"

definition set_physical_location :: "string \<Rightarrow> device_info \<Rightarrow> device_info" where
  "set_physical_location p d = d\<lparr>di_physical_location := snprintf80 p (di_physical_location d)\<rparr>"

definition set_unique_id :: "string \<Rightarrow> device_info \<Rightarrow> device_info" where
  "set_unique_id u d = d\<lparr>di_unique_id := snprintf80 u (di_unique_id d)\<rparr>"

definition set_key_bit :: "u64 \<Rightarrow> device_info \<Rightarrow> device_info res" where
  "set_key_bit pos d = rbind (device_set_bit (di_key_bitmask d) pos) (\<lambda>m. Inr (d\<lparr>di_key_bitmask := m\<rparr>))"

definition set_abs_bit :: "u64 \<Rightarrow> device_info \<Rightarrow> device_info res" where
  "set_abs_bit pos d = rbind (device_set_bit (di_abs_bitmask d) pos) (\<lambda>m. Inr (d\<lparr>di_abs_bitmask := m\<rparr>))"

definition set_rel_bit :: "u64 \<Rightarrow> device_info \<Rightarrow> device_info res" where
  "set_rel_bit pos d = rbind (device_set_bit (di_rel_bitmask d) pos) (\<lambda>m. Inr (d\<lparr>di_rel_bitmask := m\<rparr>))"

definition set_sw_bit :: "u64 \<Rightarrow> device_info \<Rightarrow> device_info res" where
  "set_sw_bit pos d = rbind (device_set_bit (di_sw_bitmask d) pos) (\<lambda>m. Inr (d\<lparr>di_sw_bitmask := m\<rparr>))"

definition set_led_bit :: "u64 \<Rightarrow> device_info \<Rightarrow> device_info res" where
  "set_led_bit pos d = rbind (device_set_bit (di_led_bitmask d) pos) (\<lambda>m. Inr (d\<lparr>di_led_bitmask := m\<rparr>))"

definition set_ff_bit :: "u64 \<Rightarrow> device_info \<Rightarrow> device_info res" where
  "set_ff_bit pos d = rbind (device_set_bit (di_ff_bitmask d) pos) (\<lambda>m. Inr (d\<lparr>di_ff_bitmask := m\<rparr>))"

definition set_prop_bit :: "u64 \<Rightarrow> device_info \<Rightarrow> device_info res" where
  "set_prop_bit pos d = rbind (device_set_bit (di_prop_bitmask d) pos) (\<lambda>m. Inr (d\<lparr>di_prop_bitmask := m\<rparr>))"

definition array_store :: "u64 \<Rightarrow> u32 \<Rightarrow> u32 list \<Rightarrow> u32 list res" where
  "array_store pos v xs =
     (if unat pos < length xs then Inr (xs[unat pos := v])
      else Inl (Undefined ''write past the end of an array''))"

definition set_abs_min :: "u64 \<Rightarrow> u32 \<Rightarrow> device_info \<Rightarrow> device_info res" where
  "set_abs_min pos v d = rbind (array_store pos v (di_abs_min d)) (\<lambda>m. Inr (d\<lparr>di_abs_min := m\<rparr>))"

definition set_abs_max :: "u64 \<Rightarrow> u32 \<Rightarrow> device_info \<Rightarrow> device_info res" where
  "set_abs_max pos v d = rbind (array_store pos v (di_abs_max d)) (\<lambda>m. Inr (d\<lparr>di_abs_max := m\<rparr>))"

text \<open>
  The bytes of the structure as it is sent: the masks end at an offset of 382, so two bytes of
  padding (zero, the structure is cleared first) come before the two arrays.
\<close>

definition info_bytes :: "device_info \<Rightarrow> bytes" where
  "info_bytes d =
     di_name d @ bytes32 Little (di_driver_version d) @
     bytes16 Little (id_bustype (di_id d)) @ bytes16 Little (id_vendor (di_id d)) @
     bytes16 Little (id_product (di_id d)) @ bytes16 Little (id_version (di_id d)) @
     di_physical_location d @ di_unique_id d @
     di_key_bitmask d @ di_abs_bitmask d @ di_rel_bitmask d @ di_sw_bitmask d @ di_led_bitmask d @
     di_ff_bitmask d @ di_prop_bitmask d @ [0, 0] @
     concat (map (bytes32 Little) (di_abs_max d)) @ concat (map (bytes32 Little) (di_abs_min d))"

section \<open>Devices\<close>

record device =
  dv_next_connection_id :: int
  dv_connections :: "bytes list connections"     \<comment> \<open>the messages sent to each client\<close>
  dv_info :: device_info

definition new_device :: device where
  "new_device = \<lparr>dv_next_connection_id = 0, dv_connections = [], dv_info = new_device_info\<rparr>"

definition device_next_id :: "device \<Rightarrow> int \<times> device" where
  "device_next_id d =
     (dv_next_connection_id d, d\<lparr>dv_next_connection_id := s32 (dv_next_connection_id d + 1)\<rparr>)"

definition new_client :: "device \<Rightarrow> device" where
  "new_client d =
     (case device_next_id d of
        (i, d) \<Rightarrow> d\<lparr>dv_connections := conn_add i [info_bytes (dv_info d)] (dv_connections d)\<rparr>)"

text \<open>A client that disconnects leaves the table (\<open>SocketConnection::on_read_size\<close>).\<close>

definition client_closed :: "int \<Rightarrow> device \<Rightarrow> device" where
  "client_closed i d = d\<lparr>dv_connections := conn_remove i (dv_connections d)\<rparr>"

definition u64_bytes :: "u64 \<Rightarrow> bytes" where
  "u64_bytes w = bytes32 Little (ucast w) @ bytes32 Little (ucast (drop_bit 32 w))"

definition compat_event :: "u64 \<Rightarrow> u64 \<Rightarrow> input_event \<Rightarrow> bytes" where
  "compat_event sec usec e =
     u64_bytes sec @ u64_bytes usec @ bytes16 Little (of_nat (ie_type e)) @
     bytes16 Little (of_nat (ie_code e)) @ bytes32 Little (word_of_int (ie_value e))"

text \<open>
  \<open>send_events\<close>: the loop counts from 0 to the number of connections and asks the table for the
  connection of that number; \<open>at\<close> throws when there is none.
\<close>

fun send_to_clients :: "bytes \<Rightarrow> nat \<Rightarrow> nat \<Rightarrow> bytes list connections \<Rightarrow> exn option \<times> bytes list connections" where
  "send_to_clients msg n 0 conns = (None, conns)"
| "send_to_clients msg n (Suc k) conns =
     (case conn_at n conns of
        Inl e \<Rightarrow> (Some e, conns)
      | Inr sent \<Rightarrow> send_to_clients msg (Suc n) k (om_put (s32 (int n)) (sent @ [msg]) conns))"

definition send_events :: "u64 \<times> u64 \<Rightarrow> input_event list \<Rightarrow> device \<Rightarrow> exn option \<times> device" where
  "send_events clock events d =
     (let (sec, nsec) = clock;
          msg = concat (map (compat_event sec (nsec div 1000)) events)
      in case send_to_clients msg 0 (conn_size (dv_connections d)) (dv_connections d) of
           (e, conns) \<Rightarrow> (e, d\<lparr>dv_connections := conns\<rparr>))"

section \<open>Input manager\<close>

record input_manager =
  im_next_id :: u32
  im_devices :: "(u32, device) omap"

definition manager_next_id :: "input_manager \<Rightarrow> u32 \<times> input_manager" where
  "manager_next_id m = (im_next_id m, m\<lparr>im_next_id := im_next_id m + 1\<rparr>)"

definition build_device_path :: "string \<Rightarrow> u32 \<Rightarrow> string" where
  "build_device_path dir i = dir @ ''/event'' @ show_nat (unat i)"

definition create_device :: "string \<Rightarrow> input_manager \<Rightarrow> string \<times> input_manager" where
  "create_device dir m =
     (case manager_next_id m of
        (i, m) \<Rightarrow> (build_device_path dir i, m\<lparr>im_devices := om_insert i new_device (im_devices m)\<rparr>))"

section \<open>Lemmas\<close>

text \<open>The description is 896 bytes long, whatever was stored in it.\<close>

definition info_wf :: "device_info \<Rightarrow> bool" where
  "info_wf d \<longleftrightarrow> length (di_name d) = 80 \<and> length (di_physical_location d) = 80 \<and>
     length (di_unique_id d) = 80 \<and> length (di_key_bitmask d) = 96 \<and> length (di_abs_bitmask d) = 8 \<and>
     length (di_rel_bitmask d) = 2 \<and> length (di_sw_bitmask d) = 2 \<and> length (di_led_bitmask d) = 2 \<and>
     length (di_ff_bitmask d) = 16 \<and> length (di_prop_bitmask d) = 4 \<and>
     length (di_abs_max d) = 64 \<and> length (di_abs_min d) = 64"

lemma length_snprintf80: "length field = 80 \<Longrightarrow> length (snprintf80 text field) = 80"
  by (simp add: snprintf80_def Let_def)

lemma length_set_bit: "device_set_bit a i = Inr b \<Longrightarrow> length b = length a"
  by (auto simp: device_set_bit_def Let_def split: if_splits)

lemma length_array_store: "array_store i v xs = Inr ys \<Longrightarrow> length ys = length xs"
  by (auto simp: array_store_def split: if_splits)

lemma info_wf_new [wf_intros]: "info_wf new_device_info"
  by (simp add: info_wf_def new_device_info_def)

lemma info_wf_setters [wf_intros]:
  "info_wf d \<Longrightarrow> info_wf (set_name s d)" "info_wf d \<Longrightarrow> info_wf (set_driver_version v d)"
  "info_wf d \<Longrightarrow> info_wf (set_input_id i d)" "info_wf d \<Longrightarrow> info_wf (set_physical_location s d)"
  "info_wf d \<Longrightarrow> info_wf (set_unique_id s d)"
  by (simp_all add: info_wf_def set_name_def set_driver_version_def set_input_id_def
      set_physical_location_def set_unique_id_def length_snprintf80)

lemma info_wf_bits [wf_intros]:
  "info_wf d \<Longrightarrow> set_key_bit p d = Inr e \<Longrightarrow> info_wf e" "info_wf d \<Longrightarrow> set_abs_bit p d = Inr e \<Longrightarrow> info_wf e"
  "info_wf d \<Longrightarrow> set_rel_bit p d = Inr e \<Longrightarrow> info_wf e" "info_wf d \<Longrightarrow> set_sw_bit p d = Inr e \<Longrightarrow> info_wf e"
  "info_wf d \<Longrightarrow> set_led_bit p d = Inr e \<Longrightarrow> info_wf e" "info_wf d \<Longrightarrow> set_ff_bit p d = Inr e \<Longrightarrow> info_wf e"
  "info_wf d \<Longrightarrow> set_prop_bit p d = Inr e \<Longrightarrow> info_wf e"
  "info_wf d \<Longrightarrow> set_abs_min p v d = Inr e \<Longrightarrow> info_wf e" "info_wf d \<Longrightarrow> set_abs_max p v d = Inr e \<Longrightarrow> info_wf e"
  by (auto simp: info_wf_def set_key_bit_def set_abs_bit_def set_rel_bit_def set_sw_bit_def set_led_bit_def
      set_ff_bit_def set_prop_bit_def set_abs_min_def set_abs_max_def rbind_eq_Inr
      dest!: length_set_bit length_array_store)

lemma length_words: "length (bytes32 Little w) = 4" "length (bytes16 Little v) = 2"
  by (simp_all add: bytes32_def bytes16_def)

lemma info_bytes_length: "info_wf d \<Longrightarrow> length (info_bytes d) = 896"
  by (simp add: info_wf_def info_bytes_def length_words length_concat comp_def sum_list_triv)

lemma compat_event_length: "length (compat_event sec usec e) = 24"
  by (simp add: compat_event_def u64_bytes_def length_words)

text \<open>Setting a bit sets that bit and no other one.\<close>

definition mask_bit :: "bytes \<Rightarrow> u64 \<Rightarrow> bool" where
  "mask_bit a p \<longleftrightarrow> bit (a ! unat (p div 8)) (unat (p mod 8))"

lemma mask_bit_set:
  assumes "device_set_bit a p = Inr b" "unat (q div 8) < length a"
  shows "mask_bit b q \<longleftrightarrow> q = p \<or> mask_bit a q"
proof -
  have m: "unat (r mod 8) < 8" for r :: u64 by (simp add: unat_mod)
  have "q = p \<longleftrightarrow> unat (q div 8) = unat (p div 8) \<and> unat (q mod 8) = unat (p mod 8)"
    by (metis div_mult_mod_eq word_unat_eq_iff)
  with assms m [of q] show ?thesis
    by (auto simp: device_set_bit_def mask_bit_def Let_def nth_list_update bit_or_iff bit_exp_iff
        split: if_splits)
qed

lemma send_to_clients_spec:
  "\<forall>j. n \<le> j \<and> j < n + k \<longrightarrow> map_of conns (int j) \<noteq> None \<Longrightarrow> n + k \<le> 2 ^ 31 \<Longrightarrow>
     fst (send_to_clients msg n k conns) = None \<and>
     map_of (snd (send_to_clients msg n k conns)) i =
       (if int n \<le> i \<and> i < int (n + k) then map_option (\<lambda>s. s @ [msg]) (map_of conns i) else map_of conns i)"
proof (induction msg n k conns rule: send_to_clients.induct)
  case (2 msg n k conns)
  have "in_s32 (int n)" using "2.prems"(2) by (simp add: in_s32_def)
  then obtain sent where s: "map_of conns (int n) = Some sent" "conn_at n conns = Inr sent" "s32 (int n) = int n"
    using "2.prems"(1) by (fastforce simp: conn_at_def)
  let ?c = "om_put (int n) (sent @ [msg]) conns"
  have "\<forall>j. Suc n \<le> j \<and> j < Suc n + k \<longrightarrow> map_of ?c (int j) \<noteq> None"
    using "2.prems"(1) by auto
  with "2.IH" [OF s(2)] s "2.prems"(2) show ?case by auto
qed auto

section \<open>Properties\<close>

text \<open>
  Sending events works while the clients of a device are numbered without a gap from 0: every
  client gets one message, the events in order as 24 byte records. As soon as the first client
  has left while another one remains, sending throws \<open>out_of_range\<close> before any client gets the
  events, because the loop takes the number of connections for their numbers; the caller is the
  event thread of the platform, which does not catch it.
\<close>

theorem input_events_delivery:
  assumes "dv_connections d \<noteq> []"
  shows "(fst ` set (dv_connections d) = {0..<int (length (dv_connections d))} \<and>
      length (dv_connections d) \<le> 2 ^ 31 \<longrightarrow>
      fst (send_events (sec, nsec) events d) = None \<and>
      map_of (dv_connections (snd (send_events (sec, nsec) events d))) i =
        map_option (\<lambda>sent. sent @ [concat (map (compat_event sec (nsec div 1000)) events)])
          (map_of (dv_connections d) i) \<and>
      length (concat (map (compat_event sec (nsec div 1000)) events)) = 24 * length events) \<and>
    (0 \<notin> fst ` set (dv_connections d) \<longrightarrow>
      send_events (sec, nsec) events d = (Some (Out_of_range ''map::at''), d))"
proof (rule conjI [rotated]; rule impI)
  assume "0 \<notin> fst ` set (dv_connections d)"
  then have "map_of (dv_connections d) 0 = None" by (simp add: map_of_eq_None_iff)
  then have "conn_at 0 (dv_connections d) = Inl (Out_of_range ''map::at'')"
    by (simp add: conn_at_def in_s32_def)
  then show "send_events (sec, nsec) events d = (Some (Out_of_range ''map::at''), d)"
    using assms by (cases "dv_connections d") (simp_all add: send_events_def conn_size_def)
next
  let ?c = "dv_connections d" and ?msg = "concat (map (compat_event sec (nsec div 1000)) events)"
  have len: "length ?msg = 24 * length events"
    by (simp add: length_concat comp_def compat_event_length sum_list_triv)
  assume kn: "fst ` set ?c = {0..<int (length ?c)} \<and> length ?c \<le> 2 ^ 31"
  have lk: "map_of ?c i \<noteq> None \<longleftrightarrow> 0 \<le> i \<and> i < int (length ?c)" for i
    using kn by (metis atLeastLessThan_iff map_of_eq_None_iff)
  from send_to_clients_spec [of 0 "length ?c" ?c ?msg i] lk kn len lk [of i]
  show "fst (send_events (sec, nsec) events d) = None \<and>
      map_of (dv_connections (snd (send_events (sec, nsec) events d))) i =
        map_option (\<lambda>sent. sent @ [?msg]) (map_of ?c i) \<and> length ?msg = 24 * length events"
    by (cases "map_of ?c i") (auto simp: send_events_def conn_size_def case_prod_beta)
qed

theorem input_events_delivery_witness:
  "fst (send_events (1, 2000) [input_ev EV_SYN SYN_REPORT 0]
     (client_closed 0 (new_client (new_client new_device)))) = Some (Out_of_range ''map::at'')"
proof -
  let ?d = "client_closed 0 (new_client (new_client new_device))"
  have "dv_connections ?d = [(1, [info_bytes new_device_info])]"
    by (simp add: client_closed_def new_client_def new_device_def device_next_id_def conn_add_def
        conn_remove_def om_erase_def in_s32_def)
  then show ?thesis using input_events_delivery [of ?d 1 2000] by simp
qed

end
