(* ===== verification/Render_Control.thy ===== *)
theory Render_Control
  imports Layer_Composer
begin

text \<open>
  The renderControl commands of a guest (\<open>graphics/emugl/RenderControl.cpp\<close>,
  \<open>graphics/emugl/DisplayManager.cpp\<close>): each command checks that a renderer is registered and
  calls the renderer of \<open>Renderer_State\<close>; the layers of a frame are collected and handed to the
  composer when the frame is done. EGL and GL queries, Boost's \<open>split\<close> and the pixel transfers
  are parameters. The functions that create objects are partial because the search for a free
  handle is.
\<close>

section \<open>State\<close>

record ('e, 'x) render_control =
  ct_renderer :: "'e renderer option"
  ct_thread :: thread_info
  ct_composer :: bool
  ct_layers :: "'x renderable list"          \<comment> \<open>\<open>frame_layers\<close>\<close>

record display_info =
  dp_vertical :: u32
  dp_horizontal :: u32

definition set_resolution :: "u32 \<Rightarrow> u32 \<Rightarrow> display_info" where
  "set_resolution vertical horizontal = \<lparr>dp_vertical = vertical, dp_horizontal = horizontal\<rparr>"

section \<open>Strings\<close>

definition rcGetRendererVersion :: int where "rcGetRendererVersion = 1"

fun join_approved :: "string list \<Rightarrow> string list \<Rightarrow> string \<Rightarrow> string" where
  "join_approved whitelist [] approved = approved"
| "join_approved whitelist (ext # exts) approved =
     (if ext \<notin> set whitelist then join_approved whitelist exts approved
      else join_approved whitelist exts
        ((if approved \<noteq> [] then approved @ '' '' else approved) @ ext))"

definition filter_extensions :: "(string \<Rightarrow> char \<Rightarrow> string list) \<Rightarrow> string \<Rightarrow> string list \<Rightarrow> string" where
  "filter_extensions split extensions whitelist = join_approved whitelist (split extensions CHR '' '') []"

definition egl_whitelist :: "string list" where
  "egl_whitelist = [''EGL_KHR_image_base'', ''EGL_KHR_gl_texture_2D_image'']"

definition gl_whitelist :: "string list" where
  "gl_whitelist = [''GL_OES_EGL_image'', ''GL_OES_EGL_image_external'', ''GL_OES_depth24'',
     ''GL_OES_depth32'', ''GL_OES_element_index_uint'', ''GL_OES_texture_float'',
     ''GL_OES_texture_float_linear'', ''GL_OES_compressed_paletted_texture'',
     ''GL_OES_compressed_ETC1_RGB8_texture'', ''GL_OES_depth_texture'', ''GL_OES_texture_half_float'',
     ''GL_OES_texture_half_float_linear'', ''GL_OES_packed_depth_stencil'', ''GL_OES_vertex_half_float'',
     ''GL_OES_standard_derivatives'', ''GL_OES_texture_npot'', ''GL_OES_rgb8_rgba8'']"

text \<open>
  The answer to a string query: the length with the terminator, negated when the guest's buffer is
  missing or too small, and the bytes written to the buffer.
\<close>

definition answer_string :: "string \<Rightarrow> bool \<Rightarrow> int \<Rightarrow> int \<times> bytes" where
  "answer_string result has_buffer bufferSize =
     (let len = s32 (int (length result) + 1)
      in if \<not> has_buffer \<or> len > bufferSize then (- len, [])
         else (len, bytes_of result @ [0]))"

definition EGL_EXTENSIONS :: int where "EGL_EXTENSIONS = 0x3055"
definition GL_VERSION :: int where "GL_VERSION = 0x1F02"
definition GL_EXTENSIONS :: int where "GL_EXTENSIONS = 0x1F03"

text \<open>
  \<open>eglQueryString\<close> answers a null pointer for a name it does not know, and the code makes a
  \<open>std::string\<close> of it.
\<close>

definition rcQueryEGLString ::
  "(int \<Rightarrow> string option) \<Rightarrow> (string \<Rightarrow> char \<Rightarrow> string list) \<Rightarrow> int \<Rightarrow> bool \<Rightarrow> int \<Rightarrow>
   ('e, 'x) render_control \<Rightarrow> (int \<times> bytes) res" where
  "rcQueryEGLString query split name has_buffer bufferSize c =
     (if ct_renderer c = None then Inr (0, [])
      else
        (case query name of
           None \<Rightarrow> Inl (Undefined ''string from a null pointer'')
         | Some result \<Rightarrow>
             (if result = [] then Inr (0, [])
              else Inr (answer_string
                (if name = EGL_EXTENSIONS then filter_extensions split result egl_whitelist else result)
                has_buffer bufferSize))))"

text \<open>\<open>gl_string\<close> answers for a GLESv2 (true) or GLESv1 context; \<open>None\<close> is a null pointer.\<close>

definition rcGetGLString ::
  "(bool \<Rightarrow> int \<Rightarrow> string option) \<Rightarrow> (string \<Rightarrow> char \<Rightarrow> string list) \<Rightarrow> int \<Rightarrow> bool \<Rightarrow> int \<Rightarrow>
   ('e, 'x) render_control \<Rightarrow> int \<times> bytes" where
  "rcGetGLString gl_string split name has_buffer bufferSize c =
     (let result = (case ti_context (ct_thread c) of
            None \<Rightarrow> []
          | Some ctx \<Rightarrow> (case gl_string (rc_isGL2 ctx) name of None \<Rightarrow> [] | Some s \<Rightarrow> s));
          result = (if name = GL_VERSION then ''OpenGL ES 2.0''
                    else if name = GL_EXTENSIONS then filter_extensions split result gl_whitelist
                    else result)
      in answer_string result has_buffer bufferSize)"

section \<open>Parameters of the frame buffer and displays\<close>

datatype fb_param = FB_WIDTH | FB_HEIGHT | FB_XDPI | FB_YDPI | FB_FPS | FB_MIN_SWAP_INTERVAL
  | FB_MAX_SWAP_INTERVAL | FB_other

fun fb_value :: "display_info \<Rightarrow> fb_param \<Rightarrow> int" where
  "fb_value d FB_WIDTH = sint (dp_vertical d)"
| "fb_value d FB_HEIGHT = sint (dp_horizontal d)"
| "fb_value d FB_XDPI = 72"
| "fb_value d FB_YDPI = 72"
| "fb_value d FB_FPS = 60"
| "fb_value d FB_MIN_SWAP_INTERVAL = 1"
| "fb_value d FB_MAX_SWAP_INTERVAL = 1"
| "fb_value d FB_other = 0"

definition rcGetFBParam :: "display_info \<Rightarrow> fb_param \<Rightarrow> ('e, 'x) render_control \<Rightarrow> int" where
  "rcGetFBParam d param c = (if ct_renderer c = None then 0 else fb_value d param)"

definition rcGetNumDisplays :: int where "rcGetNumDisplays = 1"
definition rcGetDisplayWidth :: "display_info \<Rightarrow> int" where "rcGetDisplayWidth d = sint (dp_vertical d)"
definition rcGetDisplayHeight :: "display_info \<Rightarrow> int" where "rcGetDisplayHeight d = sint (dp_horizontal d)"
definition rcGetDisplayDpiX :: int where "rcGetDisplayDpiX = 120"
definition rcGetDisplayDpiY :: int where "rcGetDisplayDpiY = 120"
definition rcGetDisplayVsyncPeriod :: int where "rcGetDisplayVsyncPeriod = 1"

section \<open>Configurations\<close>

text \<open>Two commands use the renderer without checking that it is registered.\<close>

definition rcGetNumConfigs :: "('e, 'x) render_control \<Rightarrow> (nat \<times> nat) res" where
  "rcGetNumConfigs c =
     (case ct_renderer c of
        None \<Rightarrow> Inl (Undefined ''no renderer registered'')
      | Some r \<Rightarrow> Inr (getPackInfo (rn_configs r)))"

definition rcGetConfigs ::
  "u32 \<Rightarrow> int list option \<Rightarrow> ('e, 'x) render_control \<Rightarrow> (int \<times> int list option) res" where
  "rcGetConfigs bufSize buffer c =
     (case ct_renderer c of
        None \<Rightarrow> Inl (Undefined ''no renderer registered'')
      | Some r \<Rightarrow> Inr (packConfigs (rn_configs r) bufSize buffer))"

definition rcChooseConfig ::
  "(nat \<Rightarrow> int \<Rightarrow> int) \<Rightarrow> bool \<Rightarrow> (int list \<Rightarrow> nat list option) \<Rightarrow> int list \<Rightarrow> u32 \<Rightarrow> bool \<Rightarrow> u32 \<Rightarrow>
   ('e, 'x) render_control \<Rightarrow> (nat \<times> nat list) res" where
  "rcChooseConfig attrib can_count egl_choose attribs attribs_size has_configs configs_size c =
     (case ct_renderer c of
        None \<Rightarrow> Inr (0, [])
      | Some r \<Rightarrow>
          if attribs_size = 0 then Inr (0, [])
          else chooseConfig attrib can_count egl_choose (rn_configs r) attribs has_configs (sint configs_size))"

section \<open>Commands on the renderer\<close>

text \<open>
  The commands as the decoder receives them, with their answer as an integer (0 where the command
  has none). The pixel transfers and bindings of colour buffers take the transfer as a parameter.
\<close>

datatype ('e, 'x) rc_command =
    RcCreateContext u32 u32 u32
  | RcDestroyContext u32
  | RcCreateWindowSurface u32 u32 u32
  | RcDestroyWindowSurface u32
  | RcCreateColorBuffer u32 u32 nat
  | RcOpenColorBuffer2 u32
  | RcOpenColorBuffer u32
  | RcCloseColorBuffer u32
  | RcFlushWindowColorBuffer u32
  | RcSetWindowColorBuffer u32 u32
  | RcMakeCurrent u32 u32 u32
  | RcFBPost
  | RcFBSetSwapInterval
  | RcBindTexture "nat \<Rightarrow> 'e \<Rightarrow> bool \<times> 'e" u32
  | RcColorBufferCacheFlush
  | RcReadColorBuffer "nat \<Rightarrow> 'e \<Rightarrow> 'e" u32
  | RcUpdateColorBuffer "nat \<Rightarrow> 'e \<Rightarrow> 'e" u32
  | RcCreateClientImage "nat \<Rightarrow> 'e \<Rightarrow> u32 \<times> 'e" u32
  | RcDestroyClientImage "'e \<Rightarrow> int \<times> 'e"
  | RcPostLayer "'x renderable"
  | RcPostAllLayersDone

text \<open>\<open>Renderer::createClientImage\<close>: the host's image is a parameter.\<close>

definition createClientImage ::
  "(nat \<Rightarrow> 'e \<Rightarrow> u32 \<times> 'e) \<Rightarrow> u32 \<Rightarrow> 'e renderer \<Rightarrow> u32 \<times> 'e renderer" where
  "createClientImage f context r =
     (let make = (\<lambda>ctx. case f ctx (rn_egl r) of (im, e) \<Rightarrow> (im, r\<lparr>rn_egl := e\<rparr>))
      in if context = 0 then make 0
         else (case map_of (rn_contexts r) context of None \<Rightarrow> (0, r) | Some ctx \<Rightarrow> make (rc_context ctx)))"

text \<open>The commands of a registered renderer: the answer, the renderer and the thread's state.\<close>

fun rc_renderer ::
  "'e egl_api \<Rightarrow> ('e, 'x) rc_command \<Rightarrow> 'e renderer \<Rightarrow> thread_info \<Rightarrow>
   (int \<times> 'e renderer \<times> thread_info) option" where
  "rc_renderer api (RcCreateContext config share glVersion) r ti =
     map_option (\<lambda>(h, r, ti). (uint h, r, ti))
       (createRenderContext api (sint config) share (glVersion = 2 \<or> glVersion = 3) r ti)"
| "rc_renderer api (RcDestroyContext context) r ti = Some (0, DestroyRenderContext context r ti)"
| "rc_renderer api (RcCreateWindowSurface config width height) r ti =
     map_option (\<lambda>(h, r, ti). (uint h, r, ti)) (createWindowSurface api (sint config) width height r ti)"
| "rc_renderer api (RcDestroyWindowSurface surface) r ti = Some (0, DestroyWindowSurface surface r ti)"
| "rc_renderer api (RcCreateColorBuffer width height internalFormat) r ti =
     map_option (\<lambda>(h, r). (uint h, r, ti)) (createColorBuffer api width height internalFormat r)"
| "rc_renderer api (RcOpenColorBuffer2 cb) r ti =
     (case openColorBuffer cb r of (ret, r) \<Rightarrow> Some (ret, r, ti))"
| "rc_renderer api (RcOpenColorBuffer cb) r ti = Some (0, snd (openColorBuffer cb r), ti)"
| "rc_renderer api (RcCloseColorBuffer cb) r ti = Some (0, closeColorBuffer cb r, ti)"
| "rc_renderer api (RcFlushWindowColorBuffer surface) r ti =
     (case flushWindowSurfaceColorBuffer api surface r of (ok, r) \<Rightarrow> Some (if ok then 0 else - 1, r, ti))"
| "rc_renderer api (RcSetWindowColorBuffer surface cb) r ti =
     Some (0, snd (setWindowSurfaceColorBuffer api surface cb r), ti)"
| "rc_renderer api (RcMakeCurrent context draw read) r ti =
     (case bindContext api context draw read r ti of (ok, r, ti) \<Rightarrow> Some (of_bool ok, r, ti))"
| "rc_renderer api (RcBindTexture f cb) r ti = Some (0, snd (bindColorBuffer f cb r), ti)"
| "rc_renderer api (RcReadColorBuffer f cb) r ti = Some (0, readColorBuffer f cb r, ti)"
| "rc_renderer api (RcUpdateColorBuffer f cb) r ti = Some (0, snd (updateColorBuffer f cb r), ti)"
| "rc_renderer api (RcCreateClientImage f context) r ti =
     (case createClientImage f context r of (h, r) \<Rightarrow> Some (uint h, r, ti))"
| "rc_renderer api (RcDestroyClientImage f) r ti =
     (case f (rn_egl r) of (ret, e) \<Rightarrow> Some (ret, r\<lparr>rn_egl := e\<rparr>, ti))"
| "rc_renderer api _ r ti = Some (0, r, ti)"

text \<open>What a command answers when no renderer is registered.\<close>

fun rc_refused :: "('e, 'x) rc_command \<Rightarrow> int" where
  "rc_refused (RcOpenColorBuffer2 cb) = - 1"
| "rc_refused (RcFlushWindowColorBuffer surface) = - 1"
| "rc_refused (RcUpdateColorBuffer f cb) = - 1"
| "rc_refused _ = 0"

definition rcPostLayer :: "'x renderable \<Rightarrow> ('e, 'x) render_control \<Rightarrow> ('e, 'x) render_control" where
  "rcPostLayer r c = c\<lparr>ct_layers := ct_layers c @ [r]\<rparr>"

text \<open>The frame handed to the composer, if one is registered.\<close>

definition rcPostAllLayersDone ::
  "('e, 'x) render_control \<Rightarrow> 'x renderable list option \<times> ('e, 'x) render_control" where
  "rcPostAllLayersDone c =
     (if ct_composer c then Some (ct_layers c) else None, c\<lparr>ct_layers := []\<rparr>)"

definition rc_exec ::
  "'e egl_api \<Rightarrow> ('e, 'x) rc_command \<Rightarrow> ('e, 'x) render_control \<Rightarrow>
   (int \<times> 'x renderable list option \<times> ('e, 'x) render_control) option" where
  "rc_exec api cmd c =
     (case cmd of
        RcPostLayer r \<Rightarrow> Some (0, None, rcPostLayer r c)
      | RcPostAllLayersDone \<Rightarrow> (case rcPostAllLayersDone c of (f, c) \<Rightarrow> Some (0, f, c))
      | _ \<Rightarrow>
          (case ct_renderer c of
             None \<Rightarrow> Some (rc_refused cmd, None, c)
           | Some r \<Rightarrow>
               map_option (\<lambda>(ret, r, ti). (ret, None, c\<lparr>ct_renderer := Some r, ct_thread := ti\<rparr>))
                 (rc_renderer api cmd r (ct_thread c))))"

fun rc_session ::
  "'e egl_api \<Rightarrow> ('e, 'x) rc_command list \<Rightarrow> ('e, 'x) render_control \<Rightarrow>
   (int list \<times> 'x renderable list list \<times> ('e, 'x) render_control) option" where
  "rc_session api [] c = Some ([], [], c)"
| "rc_session api (cmd # cmds) c =
     (case rc_exec api cmd c of
        None \<Rightarrow> None
      | Some (ret, f, c) \<Rightarrow>
          map_option (\<lambda>(rets, fs, c). (ret # rets, (case f of None \<Rightarrow> fs | Some l \<Rightarrow> l # fs), c))
            (rc_session api cmds c))"

text \<open>\<open>is_layer_blacklisted\<close>, which no function calls.\<close>

definition is_layer_blacklisted :: "string \<Rightarrow> bool" where
  "is_layer_blacklisted name \<longleftrightarrow> name \<in> {''Sprite''}"

section \<open>Lemmas\<close>

text \<open>A string is either delivered whole with its terminator or refused with the size it needs.\<close>

lemma answer_string_contract:
  assumes "int (length result) + 1 < 2 ^ 31"
  shows "answer_string result has_buffer bufferSize =
    (if has_buffer \<and> int (length result) < bufferSize
     then (int (length result) + 1, bytes_of result @ [0])
     else (- (int (length result) + 1), []))"
proof -
  have "s32 (int (length result) + 1) = int (length result) + 1"
    using assms by (intro s32_id) (simp add: in_s32_def)
  then show ?thesis by (auto simp: answer_string_def Let_def)
qed

text \<open>The frames of a session, by the commands alone.\<close>

fun frames_of ::
  "('e, 'x) rc_command list \<Rightarrow> 'x renderable list \<Rightarrow> 'x renderable list list \<times> 'x renderable list" where
  "frames_of [] pending = ([], pending)"
| "frames_of (cmd # cmds) pending =
     (case cmd of
        RcPostLayer r \<Rightarrow> frames_of cmds (pending @ [r])
      | RcPostAllLayersDone \<Rightarrow> (case frames_of cmds [] of (fs, p) \<Rightarrow> (pending # fs, p))
      | _ \<Rightarrow> frames_of cmds pending)"

fun posted :: "('e, 'x) rc_command list \<Rightarrow> 'x renderable list" where
  "posted [] = []"
| "posted (cmd # cmds) = (case cmd of RcPostLayer r \<Rightarrow> r # posted cmds | _ \<Rightarrow> posted cmds)"

lemma frames_of_posted:
  "frames_of cmds pending = (fs, p) \<Longrightarrow> concat fs @ p = pending @ posted cmds"
proof (induction cmds arbitrary: pending fs)
  case (Cons cmd cmds)
  then show ?case by (cases cmd) (auto split: prod.splits)
qed simp

lemma rc_exec_layers:
  assumes "rc_exec api cmd c = Some (ret, f, c')"
  shows "ct_composer c' = ct_composer c"
    and "ct_layers c' = (case cmd of RcPostLayer r \<Rightarrow> ct_layers c @ [r] | RcPostAllLayersDone \<Rightarrow> []
                          | _ \<Rightarrow> ct_layers c)"
    and "f = (case cmd of RcPostAllLayersDone \<Rightarrow> (if ct_composer c then Some (ct_layers c) else None) | _ \<Rightarrow> None)"
  using assms
  by (cases cmd; cases "ct_renderer c"; force simp: rc_exec_def rcPostLayer_def rcPostAllLayersDone_def
      simp del: rc_renderer.simps)+

lemma rc_session_frames:
  "rc_session api cmds c = Some (rets, fs, c') \<Longrightarrow> ct_composer c \<Longrightarrow>
     frames_of cmds (ct_layers c) = (fs, ct_layers c')"
proof (induction api cmds c arbitrary: rets fs rule: rc_session.induct)
  case (2 api cmd cmds c)
  obtain ret f c1 where e: "rc_exec api cmd c = Some (ret, f, c1)"
    using "2.prems"(1) by (auto split: option.splits)
  note l = rc_exec_layers [OF e]
  obtain rets' fs' where s: "rc_session api cmds c1 = Some (rets', fs', c')"
    "fs = (case f of None \<Rightarrow> fs' | Some l \<Rightarrow> l # fs')"
    using "2.prems"(1) e by auto
  from "2.IH" [OF e refl refl s(1)] l(1) "2.prems"(2)
  have "frames_of cmds (ct_layers c1) = (fs', ct_layers c')" by simp
  with l s(2) "2.prems"(2) show ?case by (cases cmd) auto
qed simp

lemma rc_session_no_renderer:
  "ct_renderer c = None \<Longrightarrow>
     \<exists>fs c'. rc_session api cmds c = Some (map rc_refused cmds, fs, c') \<and> ct_renderer c' = None \<and>
       ct_thread c' = ct_thread c"
proof (induction cmds arbitrary: c)
  case (Cons cmd cmds)
  obtain f c1 where "rc_exec api cmd c = Some (rc_refused cmd, f, c1)" "ct_renderer c1 = None"
    "ct_thread c1 = ct_thread c"
    using Cons.prems by (cases cmd) (auto simp: rc_exec_def rcPostLayer_def rcPostAllLayersDone_def)
  with Cons.IH [of c1] show ?case by auto
qed simp

section \<open>Properties\<close>


definition fresh_control :: "(nat \<times> nat \<times> nat, unit) render_control" where
  "fresh_control = \<lparr>ct_renderer = Some (empty_renderer nothing_current), ct_thread = empty_thread_info,
     ct_composer = True, ct_layers = []\<rparr>"


end
