(* ===== verification/Small_Vector.thy ===== *)
theory Small_Vector
  imports Anbox_Prelude
begin

text \<open>
  The vector with a small in-place buffer (\<open>common/small_vector.h\<close>), the type of the buffers
  that the render streams pass around. The elements are trivially copyable, as in its only use
  (\<open>SmallFixedVector<char, 512>\<close>): destroying an element does nothing and moving one copies it.
  The heap is explicit, so that freeing a block twice or losing one shows; a cell that was never
  written is \<open>None\<close>. \<open>malloc\<close> does not fail (the code aborts when it does). Sizes are \<open>nat\<close>.
\<close>

section \<open>The heap\<close>

record 'a heap_mem =
  hm_next :: nat
  hm_blocks :: "nat \<rightharpoonup> 'a option list"

definition malloc :: "nat \<Rightarrow> 'a heap_mem \<Rightarrow> nat \<times> 'a heap_mem" where
  "malloc n m =
     (hm_next m, m\<lparr>hm_next := Suc (hm_next m), hm_blocks := (hm_blocks m)(hm_next m \<mapsto> replicate n None)\<rparr>)"

definition free :: "nat \<Rightarrow> 'a heap_mem \<Rightarrow> 'a heap_mem res" where
  "free a m =
     (if hm_blocks m a = None then Inl (Undefined ''free of a block that is not allocated'')
      else Inr (m\<lparr>hm_blocks := (hm_blocks m)(a := None)\<rparr>))"

section \<open>Vectors\<close>

record 'a small_vector =
  sv_array :: "'a option list"      \<comment> \<open>the in-place cells, \<open>mData.array\<close>\<close>
  sv_begin :: "nat option"          \<comment> \<open>\<open>mBegin\<close>: the in-place array or a block of the heap\<close>
  sv_len :: nat                     \<comment> \<open>\<open>mEnd - mBegin\<close>\<close>
  sv_cap :: nat                     \<comment> \<open>\<open>mCapacity\<close>\<close>

type_synonym 'a vec_state = "'a heap_mem \<times> 'a small_vector"

definition isAllocated :: "'a small_vector \<Rightarrow> bool" where
  "isAllocated v \<longleftrightarrow> sv_begin v \<noteq> None"

definition sv_cells :: "'a vec_state \<Rightarrow> 'a option list" where
  "sv_cells s =
     (case sv_begin (snd s) of
        None \<Rightarrow> sv_array (snd s)
      | Some a \<Rightarrow> (case hm_blocks (fst s) a of None \<Rightarrow> [] | Some cs \<Rightarrow> cs))"

definition sv_store :: "'a option list \<Rightarrow> 'a vec_state \<Rightarrow> 'a vec_state" where
  "sv_store cs s =
     (case sv_begin (snd s) of
        None \<Rightarrow> (fst s, snd s\<lparr>sv_array := cs\<rparr>)
      | Some a \<Rightarrow> ((fst s)\<lparr>hm_blocks := (hm_blocks (fst s))(a \<mapsto> cs)\<rparr>, snd s))"

definition sv_data :: "'a vec_state \<Rightarrow> 'a option list" where
  "sv_data s = take (sv_len (snd s)) (sv_cells s)"

definition init_inplace :: "nat \<Rightarrow> 'a small_vector \<Rightarrow> 'a small_vector" where
  "init_inplace S v = v\<lparr>sv_begin := None, sv_len := 0, sv_cap := S\<rparr>"

definition new_vector :: "nat \<Rightarrow> 'a small_vector" where
  "new_vector S = \<lparr>sv_array = replicate S None, sv_begin = None, sv_len = 0, sv_cap = S\<rparr>"

definition dtor :: "'a vec_state \<Rightarrow> 'a heap_mem res" where
  "dtor s = (case sv_begin (snd s) of None \<Rightarrow> Inr (fst s) | Some a \<Rightarrow> free a (fst s))"

definition overwrite :: "nat \<Rightarrow> 'a list \<Rightarrow> 'a list \<Rightarrow> 'a list" where
  "overwrite p xs cs = take p cs @ xs @ drop (p + length xs) cs"

definition set_capacity :: "nat \<Rightarrow> 'a vec_state \<Rightarrow> 'a vec_state res" where
  "set_capacity newCap s =
     (case malloc newCap (fst s) of
        (a, m) \<Rightarrow>
          (let m = m\<lparr>hm_blocks := (hm_blocks m)(a \<mapsto> overwrite 0 (sv_data s) (replicate newCap None))\<rparr>
           in rbind (dtor (m, snd s)) (\<lambda>m. Inr (m, snd s\<lparr>sv_begin := Some a, sv_cap := newCap\<rparr>))))"

definition grow_for_size :: "nat \<Rightarrow> 'a vec_state \<Rightarrow> 'a vec_state res" where
  "grow_for_size newSize s =
     (if newSize > sv_cap (snd s)
      then set_capacity (max newSize (sv_cap (snd s) + sv_cap (snd s) div 2)) s
      else Inr s)"

text \<open>Writing elements behind the end and moving the end.\<close>

definition append_cells :: "'a option list \<Rightarrow> 'a vec_state \<Rightarrow> 'a vec_state" where
  "append_cells xs s =
     (let n = sv_len (snd s);
          s = sv_store (overwrite n xs (sv_cells s)) s
      in (fst s, snd s\<lparr>sv_len := n + length xs\<rparr>))"

definition emplace_back :: "'a \<Rightarrow> 'a vec_state \<Rightarrow> 'a vec_state res" where
  "emplace_back x s =
     rbind (grow_for_size (sv_len (snd s) + 1) s) (\<lambda>s. Inr (append_cells [Some x] s))"

definition clear :: "'a vec_state \<Rightarrow> 'a vec_state" where
  "clear s = (fst s, snd s\<lparr>sv_len := 0\<rparr>)"

definition reserve :: "nat \<Rightarrow> 'a vec_state \<Rightarrow> 'a vec_state res" where
  "reserve newCap s = (if newCap \<le> sv_cap (snd s) then Inr s else set_capacity newCap s)"

text \<open>\<open>resize_impl\<close>; the value new elements get, or \<open>None\<close> for \<open>resize_noinit\<close>.\<close>

definition resize_impl :: "'a option \<Rightarrow> nat \<Rightarrow> 'a vec_state \<Rightarrow> 'a vec_state res" where
  "resize_impl init newSize s =
     (if newSize < sv_len (snd s) then Inr (fst s, snd s\<lparr>sv_len := newSize\<rparr>)
      else if newSize > sv_len (snd s)
      then rbind (grow_for_size newSize s) (\<lambda>s.
        case init of
          None \<Rightarrow> Inr (fst s, snd s\<lparr>sv_len := newSize\<rparr>)
        | Some x \<Rightarrow> Inr (append_cells (replicate (newSize - sv_len (snd s)) (Some x)) s))
      else Inr s)"

definition insert_back :: "'a option list \<Rightarrow> 'a vec_state \<Rightarrow> 'a vec_state res" where
  "insert_back xs s =
     (if xs = [] then Inr s
      else rbind (grow_for_size (sv_len (snd s) + length xs) s) (\<lambda>s. Inr (append_cells xs s)))"

definition range_vector :: "nat \<Rightarrow> 'a option list \<Rightarrow> 'a heap_mem \<Rightarrow> 'a vec_state res" where
  "range_vector S xs m = insert_back xs (m, new_vector S)"

text \<open>The copy constructor, the move constructor and the assignments between two vectors.\<close>

definition copy_construct :: "nat \<Rightarrow> 'a vec_state \<Rightarrow> 'a vec_state res" where
  "copy_construct S other = range_vector S (sv_data other) (fst other)"

definition move_construct :: "nat \<Rightarrow> 'a vec_state \<Rightarrow> 'a heap_mem \<times> 'a small_vector \<times> 'a small_vector" where
  "move_construct S other =
     (case other of
        (m, ov) \<Rightarrow>
          (if isAllocated ov
           then (m, (new_vector S)\<lparr>sv_begin := sv_begin ov, sv_len := sv_len ov, sv_cap := sv_cap ov\<rparr>,
                 init_inplace S ov)
           else (m, (new_vector S)\<lparr>sv_array := overwrite 0 (sv_data other) (replicate S None),
                      sv_len := sv_len ov\<rparr>, ov)))"

definition copy_assign :: "'a small_vector \<Rightarrow> 'a vec_state \<Rightarrow> 'a vec_state res" where
  "copy_assign other s = insert_back (sv_data (fst s, other)) (clear s)"

definition move_assign ::
  "nat \<Rightarrow> 'a small_vector \<Rightarrow> 'a vec_state \<Rightarrow> ('a heap_mem \<times> 'a small_vector \<times> 'a small_vector) res" where
  "move_assign S other s =
     (if isAllocated other
      then rbind (dtor s) (\<lambda>m.
        Inr (m, snd s\<lparr>sv_begin := sv_begin other, sv_len := sv_len other, sv_cap := sv_cap other\<rparr>,
             init_inplace S other))
      else
        rbind (if isAllocated (snd s) \<and> sv_cap (snd s) < sv_len other
               then rbind (dtor s) (\<lambda>m. Inr (m, init_inplace S (snd s)))
               else Inr s)
          (\<lambda>s. (let data = sv_data (fst s, other);
                    s = sv_store (overwrite 0 data (sv_cells s)) s
                in Inr (fst s, snd s\<lparr>sv_len := sv_len other\<rparr>, other))))"

text \<open>Assigning a vector to itself: by copy nothing happens, by move a heap block is dropped.\<close>

definition move_assign_self :: "nat \<Rightarrow> 'a vec_state \<Rightarrow> 'a vec_state res" where
  "move_assign_self S s =
     (if isAllocated (snd s) then rbind (dtor s) (\<lambda>m. Inr (m, init_inplace S (snd s))) else Inr s)"

section \<open>Several vectors over one heap\<close>

record 'a vec_world =
  vw_heap :: "'a heap_mem"
  vw_vectors :: "'a small_vector list"

datatype 'a vec_op =
    New_vector
  | New_range "'a list"
  | Copy_new nat
  | Move_new nat
  | Emplace_back nat 'a
  | Clear nat
  | Reserve nat nat
  | Resize nat nat 'a
  | Resize_noinit nat nat
  | Copy_assign nat nat
  | Move_assign nat nat
  | Delete nat

definition at_vector ::
  "nat \<Rightarrow> ('a vec_state \<Rightarrow> 'a vec_state res) \<Rightarrow> 'a vec_world \<Rightarrow> 'a vec_world res" where
  "at_vector i f w =
     rbind (f (vw_heap w, vw_vectors w ! i))
       (\<lambda>(m, v). Inr \<lparr>vw_heap = m, vw_vectors = (vw_vectors w)[i := v]\<rparr>)"

fun vec_exec :: "nat \<Rightarrow> 'a vec_op \<Rightarrow> 'a vec_world \<Rightarrow> 'a vec_world res" where
  "vec_exec S New_vector w = Inr (w\<lparr>vw_vectors := vw_vectors w @ [new_vector S]\<rparr>)"
| "vec_exec S (New_range xs) w =
     rbind (range_vector S (map Some xs) (vw_heap w))
       (\<lambda>(m, v). Inr \<lparr>vw_heap = m, vw_vectors = vw_vectors w @ [v]\<rparr>)"
| "vec_exec S (Copy_new i) w =
     rbind (copy_construct S (vw_heap w, vw_vectors w ! i))
       (\<lambda>(m, v). Inr \<lparr>vw_heap = m, vw_vectors = vw_vectors w @ [v]\<rparr>)"
| "vec_exec S (Move_new i) w =
     (case move_construct S (vw_heap w, vw_vectors w ! i) of
        (m, v, ov) \<Rightarrow> Inr \<lparr>vw_heap = m, vw_vectors = (vw_vectors w)[i := ov] @ [v]\<rparr>)"
| "vec_exec S (Emplace_back i x) w = at_vector i (emplace_back x) w"
| "vec_exec S (Clear i) w = at_vector i (\<lambda>s. Inr (clear s)) w"
| "vec_exec S (Reserve i n) w = at_vector i (reserve n) w"
| "vec_exec S (Resize i n x) w = at_vector i (resize_impl (Some x) n) w"
| "vec_exec S (Resize_noinit i n) w = at_vector i (resize_impl None n) w"
| "vec_exec S (Copy_assign i j) w =
     (if i = j then Inr w else at_vector i (copy_assign (vw_vectors w ! j)) w)"
| "vec_exec S (Move_assign i j) w =
     (if i = j then at_vector i (move_assign_self S) w
      else rbind (move_assign S (vw_vectors w ! j) (vw_heap w, vw_vectors w ! i))
        (\<lambda>(m, v, ov). Inr \<lparr>vw_heap = m, vw_vectors = (vw_vectors w)[i := v, j := ov]\<rparr>))"
| "vec_exec S (Delete i) w =
     rbind (dtor (vw_heap w, vw_vectors w ! i))
       (\<lambda>m. Inr \<lparr>vw_heap = m, vw_vectors = take i (vw_vectors w) @ drop (Suc i) (vw_vectors w)\<rparr>)"

section \<open>Invariants\<close>

definition own :: "'a small_vector \<Rightarrow> nat set" where
  "own v = set_option (sv_begin v)"

definition heap_ok :: "'a heap_mem \<Rightarrow> bool" where
  "heap_ok m \<longleftrightarrow> (\<forall>a \<ge> hm_next m. hm_blocks m a = None)"

text \<open>
  The size is within the capacity, and the capacity is the number of cells: those in place, or
  those of a live block, which then has more cells than fit in place.
\<close>

definition sv_inv :: "nat \<Rightarrow> 'a vec_state \<Rightarrow> bool" where
  "sv_inv S s \<longleftrightarrow>
     length (sv_array (snd s)) = S \<and> sv_len (snd s) \<le> sv_cap (snd s) \<and>
     (case sv_begin (snd s) of
        None \<Rightarrow> sv_cap (snd s) = S
      | Some a \<Rightarrow> S < sv_cap (snd s) \<and> (\<exists>cs. hm_blocks (fst s) a = Some cs \<and> length cs = sv_cap (snd s)))"

text \<open>
  How an operation on one vector may change the heap: only the vector's own block, and the new
  heap holds exactly the blocks of the others and the vector's new one.
\<close>

definition evolves :: "nat \<Rightarrow> 'a vec_state \<Rightarrow> 'a vec_state \<Rightarrow> bool" where
  "evolves S s s' \<longleftrightarrow>
     heap_ok (fst s') \<and> sv_inv S s' \<and>
     dom (hm_blocks (fst s')) = (dom (hm_blocks (fst s)) - own (snd s)) \<union> own (snd s') \<and>
     (\<forall>a \<in> dom (hm_blocks (fst s)) - own (snd s).
        hm_blocks (fst s') a = hm_blocks (fst s) a \<and> a \<notin> own (snd s'))"

lemma length_sv_cells: "sv_inv S s \<Longrightarrow> length (sv_cells s) = sv_cap (snd s)"
  by (auto simp: sv_inv_def sv_cells_def split: option.splits)

lemma length_sv_data: "sv_inv S s \<Longrightarrow> length (sv_data s) = sv_len (snd s)"
  by (simp add: sv_data_def length_sv_cells) (simp add: sv_inv_def)

lemma own_live: "sv_inv S s \<Longrightarrow> own (snd s) \<subseteq> dom (hm_blocks (fst s))"
  by (auto simp: sv_inv_def own_def split: option.splits)

lemma evolves_refl: "heap_ok (fst s) \<Longrightarrow> sv_inv S s \<Longrightarrow> evolves S s s"
  using own_live [of S s] by (auto simp: evolves_def)

lemma evolves_trans: "evolves S s s' \<Longrightarrow> evolves S s' s'' \<Longrightarrow> evolves S s s''"
proof -
  assume e: "evolves S s s'" "evolves S s' s''"
  let ?D = "dom (hm_blocks (fst s)) - own (snd s)"
  have d: "dom (hm_blocks (fst s')) - own (snd s') = ?D"
    using e(1) unfolding evolves_def by blast
  have f: "\<forall>a \<in> ?D. hm_blocks (fst s') a = hm_blocks (fst s) a"
    using e(1) unfolding evolves_def by blast
  show ?thesis
    using e(2) f unfolding evolves_def d by simp
qed

lemma evolves_okD: "evolves S s s' \<Longrightarrow> heap_ok (fst s') \<and> sv_inv S s'"
  by (simp add: evolves_def)

lemma length_overwrite: "p + length xs \<le> length cs \<Longrightarrow> length (overwrite p xs cs) = length cs"
  by (simp add: overwrite_def)

lemma take_overwrite: "p \<le> length cs \<Longrightarrow> take (p + length xs) (overwrite p xs cs) = take p cs @ xs"
  by (simp add: overwrite_def)

lemma sv_cells_store: "sv_cells (sv_store cs s) = cs"
  by (auto simp: sv_cells_def sv_store_def split: option.splits)

lemma sv_store_sel [simp]:
  "sv_len (snd (sv_store cs s)) = sv_len (snd s)" "sv_begin (snd (sv_store cs s)) = sv_begin (snd s)"
  "sv_cap (snd (sv_store cs s)) = sv_cap (snd s)"
  by (auto simp: sv_store_def split: option.splits)

lemma sv_cells_len [simp]: "sv_cells (m, v\<lparr>sv_len := n\<rparr>) = sv_cells (m, v)"
  by (simp add: sv_cells_def split: option.split)

text \<open>Writing cells in place and setting the size.\<close>

lemma evolves_store:
  assumes "heap_ok (fst s)" "sv_inv S s" "length cs = sv_cap (snd s)" "n \<le> sv_cap (snd s)"
  shows "evolves S s (fst (sv_store cs s), snd (sv_store cs s)\<lparr>sv_len := n\<rparr>)"
    and "sv_data (fst (sv_store cs s), snd (sv_store cs s)\<lparr>sv_len := n\<rparr>) = take n cs"
proof -
  obtain m v where s: "s = (m, v)" by (cases s)
  show "evolves S s (fst (sv_store cs s), snd (sv_store cs s)\<lparr>sv_len := n\<rparr>)"
    using assms unfolding s evolves_def heap_ok_def sv_inv_def own_def sv_store_def
    by (cases "sv_begin v") (auto simp: not_le [symmetric])
  show "sv_data (fst (sv_store cs s), snd (sv_store cs s)\<lparr>sv_len := n\<rparr>) = take n cs"
    using sv_cells_store [of cs s] by (simp add: sv_data_def prod.collapse)
qed

lemma evolves_len:
  assumes "heap_ok (fst s)" "sv_inv S s" "n \<le> sv_cap (snd s)"
  shows "evolves S s (fst s, snd s\<lparr>sv_len := n\<rparr>)"
    and "sv_data (fst s, snd s\<lparr>sv_len := n\<rparr>) = take n (sv_cells s)"
proof -
  obtain m v where s: "s = (m, v)" by (cases s)
  show "evolves S s (fst s, snd s\<lparr>sv_len := n\<rparr>)"
    using assms own_live [of S s] unfolding s evolves_def sv_inv_def own_def
    by (cases "sv_begin v") auto
  show "sv_data (fst s, snd s\<lparr>sv_len := n\<rparr>) = take n (sv_cells s)"
    by (simp add: sv_data_def s)
qed

lemma evolves_append:
  assumes "heap_ok (fst s)" "sv_inv S s" "sv_len (snd s) + length xs \<le> sv_cap (snd s)"
  shows "evolves S s (append_cells xs s) \<and> sv_data (append_cells xs s) = sv_data s @ xs"
proof -
  have l: "length (overwrite (sv_len (snd s)) xs (sv_cells s)) = sv_cap (snd s)"
    using assms length_sv_cells [of S s] by (simp add: length_overwrite)
  show ?thesis
    using evolves_store [OF assms(1,2) l assms(3)] assms length_sv_cells [of S s]
    by (simp add: append_cells_def Let_def take_overwrite sv_data_def)
qed

text \<open>Growing: the block is new, the old one is freed, the elements are kept.\<close>

lemma evolves_set_capacity:
  assumes "heap_ok (fst s)" "sv_inv S s" "S < n" "sv_len (snd s) \<le> n"
  shows "\<exists>s'. set_capacity n s = Inr s' \<and> evolves S s s' \<and> sv_data s' = sv_data s \<and> sv_cap (snd s') = n \<and>
    sv_len (snd s') = sv_len (snd s)"
proof -
  obtain m v where s: "s = (m, v)" by (cases s)
  have d: "length (sv_data s) = sv_len v" using length_sv_data [OF assms(2)] s by simp
  have l: "length (overwrite 0 (sv_data s) (replicate n None)) = n"
    using assms(4) d s by (simp add: length_overwrite)
  have t: "take (sv_len v) (overwrite 0 (sv_data s) (replicate n None)) = sv_data s"
    using d by (simp add: overwrite_def)
  let ?b = "overwrite 0 (sv_data s) (replicate n None)"
  have fresh: "hm_blocks m (hm_next m) = None" using assms(1) by (simp add: s heap_ok_def)
  show ?thesis
  proof (cases "sv_begin v")
    case None
    let ?s' = "(m\<lparr>hm_next := Suc (hm_next m), hm_blocks := (hm_blocks m)(hm_next m \<mapsto> ?b)\<rparr>,
        v\<lparr>sv_begin := Some (hm_next m), sv_cap := n\<rparr>)"
    have "set_capacity n s = Inr ?s'"
      by (simp add: set_capacity_def malloc_def dtor_def s None Let_def)
    moreover have "evolves S s ?s'"
      using assms l fresh None by (auto simp: s evolves_def heap_ok_def sv_inv_def own_def)
    ultimately show ?thesis using t by (simp add: sv_data_def sv_cells_def s)
  next
    case (Some a)
    have a: "hm_blocks m a \<noteq> None" using assms(2) by (auto simp: s sv_inv_def Some)
    with fresh have ne: "a \<noteq> hm_next m" by metis
    let ?s' = "(m\<lparr>hm_next := Suc (hm_next m), hm_blocks := (hm_blocks m)(hm_next m \<mapsto> ?b, a := None)\<rparr>,
        v\<lparr>sv_begin := Some (hm_next m), sv_cap := n\<rparr>)"
    have "set_capacity n s = Inr ?s'"
      using a ne by (simp add: set_capacity_def malloc_def dtor_def free_def s Some Let_def)
    moreover have "evolves S s ?s'"
      using assms l fresh Some ne by (auto simp: s evolves_def heap_ok_def sv_inv_def own_def)
    ultimately show ?thesis using t ne by (simp add: sv_data_def sv_cells_def s)
  qed
qed

lemma evolves_grow:
  assumes "heap_ok (fst s)" "sv_inv S s"
  shows "\<exists>s'. grow_for_size n s = Inr s' \<and> evolves S s s' \<and> sv_data s' = sv_data s \<and>
    n \<le> sv_cap (snd s') \<and> sv_len (snd s') = sv_len (snd s)"
proof (cases "n > sv_cap (snd s)")
  case True
  let ?n = "max n (sv_cap (snd s) + sv_cap (snd s) div 2)"
  have "S < ?n" using True assms(2) by (auto simp: sv_inv_def split: option.splits)
  moreover have "sv_len (snd s) \<le> ?n" using True assms(2) by (auto simp: sv_inv_def max_def)
  ultimately obtain s' where "set_capacity ?n s = Inr s'" "evolves S s s'" "sv_data s' = sv_data s"
    "sv_cap (snd s') = ?n" "sv_len (snd s') = sv_len (snd s)"
    using evolves_set_capacity [OF assms] by blast
  with True show ?thesis by (simp add: grow_for_size_def)
next
  case False
  with assms evolves_refl [of s S] show ?thesis by (simp add: grow_for_size_def)
qed

section \<open>The operations on one vector\<close>

lemma new_vector_inv: "sv_inv S (m, new_vector S)" "own (new_vector S) = {}" "sv_data (m, new_vector S) = []"
  by (simp_all add: sv_inv_def new_vector_def own_def sv_data_def)

lemma insert_back_ok:
  assumes "heap_ok (fst s)" "sv_inv S s"
  shows "\<exists>s'. insert_back xs s = Inr s' \<and> evolves S s s' \<and> sv_data s' = sv_data s @ xs"
proof (cases "xs = []")
  case True
  with assms evolves_refl [of s S] show ?thesis by (simp add: insert_back_def)
next
  case False
  obtain s1 where s1: "grow_for_size (sv_len (snd s) + length xs) s = Inr s1" "evolves S s s1"
    "sv_data s1 = sv_data s" "sv_len (snd s) + length xs \<le> sv_cap (snd s1)" "sv_len (snd s1) = sv_len (snd s)"
    using evolves_grow [OF assms] by blast
  have e: "evolves S s1 (append_cells xs s1)" "sv_data (append_cells xs s1) = sv_data s1 @ xs"
    using evolves_append [of s1 S xs] evolves_okD [OF s1(2)] s1(4,5) by simp_all
  with False s1(1,3) evolves_trans [OF s1(2) e(1)] show ?thesis by (simp add: insert_back_def)
qed

lemma emplace_back_ok:
  assumes "heap_ok (fst s)" "sv_inv S s"
  shows "\<exists>s'. emplace_back x s = Inr s' \<and> evolves S s s' \<and> sv_data s' = sv_data s @ [Some x]"
  using insert_back_ok [OF assms, of "[Some x]"] by (simp add: emplace_back_def insert_back_def)

lemma clear_ok:
  assumes "heap_ok (fst s)" "sv_inv S s"
  shows "evolves S s (clear s)" "sv_data (clear s) = []"
  using evolves_len [OF assms, of 0] by (simp_all add: clear_def)

lemma reserve_ok:
  assumes "heap_ok (fst s)" "sv_inv S s"
  shows "\<exists>s'. reserve n s = Inr s' \<and> evolves S s s' \<and> sv_data s' = sv_data s"
proof (cases "n \<le> sv_cap (snd s)")
  case True
  with assms evolves_refl [of s S] show ?thesis by (simp add: reserve_def)
next
  case False
  then have "S < n" "sv_len (snd s) \<le> n" using assms(2) by (auto simp: sv_inv_def split: option.splits)
  from evolves_set_capacity [OF assms this] False show ?thesis by (auto simp: reserve_def)
qed

lemma resize_init_ok:
  assumes "heap_ok (fst s)" "sv_inv S s"
  shows "\<exists>s'. resize_impl (Some x) n s = Inr s' \<and> evolves S s s' \<and>
    sv_data s' = take n (sv_data s) @ replicate (n - length (sv_data s)) (Some x)"
proof -
  note len = length_sv_data [OF assms(2)]
  consider "n < sv_len (snd s)" | "n > sv_len (snd s)" | "n = sv_len (snd s)" by linarith
  then show ?thesis
  proof cases
    case 1
    then have "n \<le> sv_cap (snd s)" using assms(2) by (simp add: sv_inv_def)
    from evolves_len [OF assms this] 1 len show ?thesis
      by (auto simp: resize_impl_def sv_data_def min_def)
  next
    case 2
    obtain s1 where s1: "grow_for_size n s = Inr s1" "evolves S s s1" "sv_data s1 = sv_data s"
      "n \<le> sv_cap (snd s1)" "sv_len (snd s1) = sv_len (snd s)"
      using evolves_grow [OF assms] by blast
    let ?xs = "replicate (n - sv_len (snd s)) (Some x)"
    have e: "evolves S s1 (append_cells ?xs s1)" "sv_data (append_cells ?xs s1) = sv_data s1 @ ?xs"
      using evolves_append [of s1 S ?xs] evolves_okD [OF s1(2)] s1(4,5) 2 by simp_all
    with 2 s1(1,3,5) len evolves_trans [OF s1(2) e(1)] show ?thesis by (simp add: resize_impl_def)
  next
    case 3
    with assms evolves_refl [of s S] len show ?thesis by (simp add: resize_impl_def)
  qed
qed

text \<open>Without initialisation the elements that were there stay; the new ones are arbitrary.\<close>

lemma resize_noinit_ok:
  assumes "heap_ok (fst s)" "sv_inv S s"
  shows "\<exists>s'. resize_impl None n s = Inr s' \<and> evolves S s s' \<and>
    length (sv_data s') = n \<and> take (length (sv_data s)) (sv_data s') = take n (sv_data s)"
proof -
  note len = length_sv_data [OF assms(2)]
  consider "n < sv_len (snd s)" | "n > sv_len (snd s)" | "n = sv_len (snd s)" by linarith
  then show ?thesis
  proof cases
    case 1
    then have n: "n \<le> sv_cap (snd s)" using assms(2) by (simp add: sv_inv_def)
    from evolves_len [OF assms n] 1 n len length_sv_cells [OF assms(2)] show ?thesis
      by (auto simp: resize_impl_def sv_data_def min_def)
  next
    case 2
    obtain s1 where s1: "grow_for_size n s = Inr s1" "evolves S s s1" "sv_data s1 = sv_data s"
      "n \<le> sv_cap (snd s1)" "sv_len (snd s1) = sv_len (snd s)"
      using evolves_grow [OF assms] by blast
    note ok = evolves_okD [OF s1(2)]
    have e: "evolves S s1 (fst s1, snd s1\<lparr>sv_len := n\<rparr>)"
      "sv_data (fst s1, snd s1\<lparr>sv_len := n\<rparr>) = take n (sv_cells s1)"
      using evolves_len [of s1 S n] ok s1(4) by simp_all
    have t: "take (length (sv_data s)) (sv_data (fst s1, snd s1\<lparr>sv_len := n\<rparr>)) = take n (sv_data s)"
      using e(2) 2 s1(3,5) len by (simp add: sv_data_def min_def)
    have l: "length (sv_data (fst s1, snd s1\<lparr>sv_len := n\<rparr>)) = n"
      using e(2) s1(4) length_sv_cells [of S s1] ok by simp
    have "resize_impl None n s = Inr (fst s1, snd s1\<lparr>sv_len := n\<rparr>)"
      using 2 s1(1) by (simp add: resize_impl_def)
    with evolves_trans [OF s1(2) e(1)] t l show ?thesis by blast
  next
    case 3
    with assms evolves_refl [of s S] len show ?thesis by (simp add: resize_impl_def)
  qed
qed

lemma dtor_ok:
  assumes "heap_ok (fst s)" "sv_inv S s"
  shows "\<exists>m. dtor s = Inr m \<and> heap_ok m \<and> hm_blocks m = (hm_blocks (fst s)) |` (- own (snd s))"
proof (cases "sv_begin (snd s)")
  case None
  with assms show ?thesis by (simp add: dtor_def own_def restrict_map_def)
next
  case (Some a)
  with assms(2) have "hm_blocks (fst s) a \<noteq> None" by (auto simp: sv_inv_def)
  with assms(1) Some show ?thesis
    by (auto simp: dtor_def free_def own_def heap_ok_def restrict_map_def fun_eq_iff)
qed

section \<open>The world\<close>

definition vw_inv :: "nat \<Rightarrow> 'a vec_world \<Rightarrow> bool" where
  "vw_inv S w \<longleftrightarrow>
     heap_ok (vw_heap w) \<and> (\<forall>v \<in> set (vw_vectors w). sv_inv S (vw_heap w, v)) \<and>
     (\<forall>i < length (vw_vectors w). \<forall>j < length (vw_vectors w). i \<noteq> j \<longrightarrow>
        own (vw_vectors w ! i) \<inter> own (vw_vectors w ! j) = {}) \<and>
     dom (hm_blocks (vw_heap w)) = (\<Union>v \<in> set (vw_vectors w). own v)"

definition vw_data :: "'a vec_world \<Rightarrow> 'a option list list" where
  "vw_data w = map (\<lambda>v. sv_data (vw_heap w, v)) (vw_vectors w)"

text \<open>A vector whose block did not change keeps its invariant and its elements.\<close>

lemma sv_frame:
  assumes "\<forall>a \<in> own v. hm_blocks m' a = hm_blocks m a"
  shows "sv_inv S (m', v) = sv_inv S (m, v)" "sv_data (m', v) = sv_data (m, v)"
  using assms by (auto simp: sv_inv_def sv_data_def sv_cells_def own_def split: option.splits)

lemma vw_inv_nth:
  "vw_inv S w \<Longrightarrow> i < length (vw_vectors w) \<Longrightarrow> heap_ok (vw_heap w) \<and> sv_inv S (vw_heap w, vw_vectors w ! i)"
  by (simp add: vw_inv_def)

text \<open>
  Replacing the vectors of a world by vectors that own disjoint blocks, exactly those of the new
  heap: the general form of every operation below.
\<close>

lemma Union_set_nth: "(\<Union>v \<in> set vs. f v) = (\<Union>i < length vs. f (vs ! i))"
  by (force simp: in_set_conv_nth)

lemma vw_inv_intro:
  assumes "heap_ok m" "\<And>i. i < length vs \<Longrightarrow> sv_inv S (m, vs ! i)"
    and "\<And>i j. i < length vs \<Longrightarrow> j < length vs \<Longrightarrow> i \<noteq> j \<Longrightarrow> own (vs ! i) \<inter> own (vs ! j) = {}"
    and "dom (hm_blocks m) = (\<Union>i < length vs. own (vs ! i))"
  shows "vw_inv S \<lparr>vw_heap = m, vw_vectors = vs\<rparr>"
  using assms by (auto simp: vw_inv_def in_set_conv_nth Union_set_nth)

lemma vw_inv_dom:
  "vw_inv S w \<Longrightarrow> dom (hm_blocks (vw_heap w)) = (\<Union>i < length (vw_vectors w). own (vw_vectors w ! i))"
  by (force simp: vw_inv_def in_set_conv_nth)

lemma vw_inv_disjoint:
  "vw_inv S w \<Longrightarrow> i < length (vw_vectors w) \<Longrightarrow> j < length (vw_vectors w) \<Longrightarrow> i \<noteq> j \<Longrightarrow>
     own (vw_vectors w ! i) \<inter> own (vw_vectors w ! j) = {}"
  by (simp add: vw_inv_def)

lemma world_update:
  assumes "vw_inv S w" "i < length (vw_vectors w)" "evolves S (vw_heap w, vw_vectors w ! i) (m, v)"
  shows "vw_inv S \<lparr>vw_heap = m, vw_vectors = (vw_vectors w)[i := v]\<rparr> \<and>
    vw_data \<lparr>vw_heap = m, vw_vectors = (vw_vectors w)[i := v]\<rparr> = (vw_data w)[i := sv_data (m, v)]"
proof -
  let ?vs = "vw_vectors w" and ?h = "hm_blocks (vw_heap w)"
  have rest: "own (?vs ! j) \<subseteq> dom ?h - own (?vs ! i)" if "j < length ?vs" "j \<noteq> i" for j
    using vw_inv_dom [OF assms(1)] vw_inv_disjoint [OF assms(1) that(1) assms(2) that(2)] that by blast
  have same: "sv_inv S (m, ?vs ! j) = sv_inv S (vw_heap w, ?vs ! j)"
    "sv_data (m, ?vs ! j) = sv_data (vw_heap w, ?vs ! j)" "own (?vs ! j) \<inter> own v = {}"
    if "j < length ?vs" "j \<noteq> i" for j
  proof -
    have "\<forall>a \<in> own (?vs ! j). hm_blocks m a = ?h a \<and> a \<notin> own v"
      using assms(3) rest [OF that] unfolding evolves_def by auto
    then show "sv_inv S (m, ?vs ! j) = sv_inv S (vw_heap w, ?vs ! j)"
      "sv_data (m, ?vs ! j) = sv_data (vw_heap w, ?vs ! j)" "own (?vs ! j) \<inter> own v = {}"
      using sv_frame [of "?vs ! j" m "vw_heap w"] by auto
  qed
  have dom: "dom (hm_blocks m) = (\<Union>j < length ?vs. own (?vs[i := v] ! j))"
  proof -
    have "dom ?h - own (?vs ! i) = (\<Union>j \<in> {..<length ?vs} - {i}. own (?vs ! j))"
      using vw_inv_dom [OF assms(1)] rest by fastforce
    moreover have "(\<Union>j < length ?vs. own (?vs[i := v] ! j)) =
        (\<Union>j \<in> {..<length ?vs} - {i}. own (?vs ! j)) \<union> own v"
      using assms(2) by (auto simp: nth_list_update split: if_splits)
    ultimately show ?thesis using assms(3) unfolding evolves_def by simp
  qed
  have "vw_inv S \<lparr>vw_heap = m, vw_vectors = ?vs[i := v]\<rparr>"
  proof (rule vw_inv_intro)
    show "heap_ok m" using evolves_okD [OF assms(3)] by simp
    show "sv_inv S (m, ?vs[i := v] ! j)" if "j < length (?vs[i := v])" for j
      using that assms(1) same(1) [of j] evolves_okD [OF assms(3)] by (cases "j = i") (auto simp: vw_inv_def)
    show "own (?vs[i := v] ! j) \<inter> own (?vs[i := v] ! k) = {}"
      if "j < length (?vs[i := v])" "k < length (?vs[i := v])" "j \<noteq> k" for j k
      using that same(3) [of j] same(3) [of k] vw_inv_disjoint [OF assms(1), of j k]
      by (cases "j = i"; cases "k = i") auto
    show "dom (hm_blocks m) = (\<Union>j < length (?vs[i := v]). own (?vs[i := v] ! j))" using dom by simp
  qed
  moreover have "vw_data \<lparr>vw_heap = m, vw_vectors = ?vs[i := v]\<rparr> = (vw_data w)[i := sv_data (m, v)]"
    by (rule nth_equalityI) (use same(2) assms(2) in \<open>auto simp: vw_data_def nth_list_update\<close>)
  ultimately show ?thesis by blast
qed

text \<open>A world with one more, empty vector; the new vector then evolves like any other.\<close>

lemma world_new:
  assumes "vw_inv S w"
  shows "vw_inv S (w\<lparr>vw_vectors := vw_vectors w @ [new_vector S]\<rparr>) \<and>
    vw_data (w\<lparr>vw_vectors := vw_vectors w @ [new_vector S]\<rparr>) = vw_data w @ [[]]"
proof -
  have "vw_inv S \<lparr>vw_heap = vw_heap w, vw_vectors = vw_vectors w @ [new_vector S]\<rparr>"
  proof (rule vw_inv_intro)
    show "dom (hm_blocks (vw_heap w)) =
      (\<Union>i < length (vw_vectors w @ [new_vector S]). own ((vw_vectors w @ [new_vector S]) ! i))"
      using vw_inv_dom [OF assms] by (auto simp: nth_append new_vector_inv less_Suc_eq split: if_splits)
  qed (use assms in \<open>auto simp: vw_inv_def nth_append new_vector_inv less_Suc_eq split: if_splits\<close>)
  moreover have "\<lparr>vw_heap = vw_heap w, vw_vectors = vw_vectors w @ [new_vector S]\<rparr> =
      w\<lparr>vw_vectors := vw_vectors w @ [new_vector S]\<rparr>" by simp
  ultimately show ?thesis by (simp add: vw_data_def new_vector_inv)
qed

lemma world_append:
  assumes "vw_inv S w" "evolves S (vw_heap w, new_vector S) (m, v)"
  shows "vw_inv S \<lparr>vw_heap = m, vw_vectors = vw_vectors w @ [v]\<rparr> \<and>
    vw_data \<lparr>vw_heap = m, vw_vectors = vw_vectors w @ [v]\<rparr> = vw_data w @ [sv_data (m, v)]"
  using world_update [of S "w\<lparr>vw_vectors := vw_vectors w @ [new_vector S]\<rparr>" "length (vw_vectors w)" m v]
    world_new [OF assms(1)] assms(2) by (simp add: vw_data_def list_update_append)

text \<open>Two vectors that hand their blocks to each other.\<close>

lemma world_exchange:
  assumes "vw_inv S w" "i < length (vw_vectors w)" "k < length (vw_vectors w)" "i \<noteq> k"
    and "own a = own (vw_vectors w ! k)" "own b = own (vw_vectors w ! i)"
    and "sv_inv S (vw_heap w, a)" "sv_inv S (vw_heap w, b)"
  shows "vw_inv S \<lparr>vw_heap = vw_heap w, vw_vectors = (vw_vectors w)[i := a, k := b]\<rparr> \<and>
    vw_data \<lparr>vw_heap = vw_heap w, vw_vectors = (vw_vectors w)[i := a, k := b]\<rparr> =
      (vw_data w)[i := sv_data (vw_heap w, a), k := sv_data (vw_heap w, b)]"
proof -
  let ?vs = "vw_vectors w" and ?vs' = "(vw_vectors w)[i := a, k := b]"
  define p where "p x = (if x = i then k else if x = k then i else x)" for x
  have own: "own (?vs' ! x) = own (?vs ! p x)" for x
    using assms by (auto simp: p_def nth_list_update)
  have "p ` {..<length ?vs} = {..<length ?vs}"
  proof
    show "p ` {..<length ?vs} \<subseteq> {..<length ?vs}" using assms(2,3) by (auto simp: p_def)
    have "x = p (p x)" "p x < length ?vs" if "x < length ?vs" for x
      using that assms(2,3) by (auto simp: p_def)
    then show "{..<length ?vs} \<subseteq> p ` {..<length ?vs}" by blast
  qed
  then have dom: "(\<Union>x < length ?vs. own (?vs ! p x)) = (\<Union>x < length ?vs. own (?vs ! x))"
    by (metis image_image)
  have "vw_inv S \<lparr>vw_heap = vw_heap w, vw_vectors = ?vs'\<rparr>"
  proof (rule vw_inv_intro)
    show "heap_ok (vw_heap w)" using assms(1) by (simp add: vw_inv_def)
    show "sv_inv S (vw_heap w, ?vs' ! x)" if "x < length ?vs'" for x
      using that assms vw_inv_nth [OF assms(1), of x] by (auto simp: nth_list_update)
    show "own (?vs' ! x) \<inter> own (?vs' ! y) = {}" if "x < length ?vs'" "y < length ?vs'" "x \<noteq> y" for x y
      unfolding own using that assms(2-4) by (intro vw_inv_disjoint [OF assms(1)]) (auto simp: p_def)
    show "dom (hm_blocks (vw_heap w)) = (\<Union>x < length ?vs'. own (?vs' ! x))"
      unfolding own using dom vw_inv_dom [OF assms(1)] by simp
  qed
  moreover have "vw_data \<lparr>vw_heap = vw_heap w, vw_vectors = ?vs'\<rparr> =
      (vw_data w)[i := sv_data (vw_heap w, a), k := sv_data (vw_heap w, b)]"
    by (simp add: vw_data_def map_update)
  ultimately show ?thesis by blast
qed

lemma dtor_reset_ok:
  assumes "heap_ok (fst s)" "sv_inv S s"
  shows "\<exists>m. dtor s = Inr m \<and> evolves S s (m, init_inplace S (snd s))"
    and "sv_data (m', init_inplace S (snd s)) = []"
proof -
  from dtor_ok [OF assms] obtain m where m: "dtor s = Inr m" "heap_ok m"
    "hm_blocks m = (hm_blocks (fst s)) |` (- own (snd s))" by blast
  moreover have "evolves S s (m, init_inplace S (snd s))"
    using m(2,3) assms(2) by (auto simp: evolves_def sv_inv_def own_def init_inplace_def restrict_map_def split: option.splits if_splits)
  ultimately show "\<exists>m. dtor s = Inr m \<and> evolves S s (m, init_inplace S (snd s))" by blast
  show "sv_data (m', init_inplace S (snd s)) = []" by (simp add: sv_data_def init_inplace_def)
qed

lemma world_delete:
  assumes "vw_inv S w" "i < length (vw_vectors w)"
  shows "\<exists>m. dtor (vw_heap w, vw_vectors w ! i) = Inr m \<and>
    vw_inv S \<lparr>vw_heap = m, vw_vectors = take i (vw_vectors w) @ drop (Suc i) (vw_vectors w)\<rparr> \<and>
    vw_data \<lparr>vw_heap = m, vw_vectors = take i (vw_vectors w) @ drop (Suc i) (vw_vectors w)\<rparr> =
      take i (vw_data w) @ drop (Suc i) (vw_data w)"
proof -
  let ?s = "(vw_heap w, vw_vectors w ! i)"
  let ?v = "init_inplace S (vw_vectors w ! i)"
  let ?rest = "take i (vw_vectors w) @ drop (Suc i) (vw_vectors w)"
  have ok: "heap_ok (fst ?s)" "sv_inv S ?s" using vw_inv_nth [OF assms] by simp_all
  obtain m where m: "dtor ?s = Inr m" "evolves S ?s (m, ?v)"
    using dtor_reset_ok(1) [OF ok] by auto
  let ?w = "\<lparr>vw_heap = m, vw_vectors = (vw_vectors w)[i := ?v]\<rparr>"
  have w: "vw_inv S ?w" "vw_data ?w = (vw_data w)[i := sv_data (m, ?v)]"
    using world_update [OF assms m(2)] by simp_all
  define q where "q x = (if x < i then x else Suc x)" for x
  have split: "(vw_vectors w)[i := ?v] = take i (vw_vectors w) @ ?v # drop (Suc i) (vw_vectors w)"
    using assms(2) by (rule upd_conv_take_nth_drop)
  have nth: "?rest ! x = (vw_vectors ?w) ! q x" "q x < length (vw_vectors ?w)" if "x < length ?rest" for x
    using that assms(2) unfolding q_def by (auto simp: nth_append min_def)
  have "vw_inv S \<lparr>vw_heap = m, vw_vectors = ?rest\<rparr>"
  proof (rule vw_inv_intro)
    show "heap_ok m" using w(1) by (simp add: vw_inv_def)
    show "sv_inv S (m, ?rest ! x)" if "x < length ?rest" for x
      using vw_inv_nth [OF w(1) nth(2) [OF that]] nth(1) [OF that] by simp
    show "own (?rest ! x) \<inter> own (?rest ! y) = {}" if "x < length ?rest" "y < length ?rest" "x \<noteq> y" for x y
      using vw_inv_disjoint [OF w(1) nth(2) [OF that(1)] nth(2) [OF that(2)]] nth(1) [OF that(1)]
        nth(1) [OF that(2)] that(3) by (auto simp: q_def split: if_splits)
    have "(\<Union>x < length ?rest. own (?rest ! x)) = (\<Union>v \<in> set ?rest. own v)"
      by (simp only: Union_set_nth)
    also have "\<dots> = (\<Union>v \<in> set (vw_vectors ?w). own v)"
      by (simp add: split) (simp add: own_def init_inplace_def)
    finally show "dom (hm_blocks m) = (\<Union>x < length ?rest. own (?rest ! x))"
      using w(1) by (simp add: vw_inv_def)
  qed
  moreover have "vw_data \<lparr>vw_heap = m, vw_vectors = ?rest\<rparr> = take i (vw_data w) @ drop (Suc i) (vw_data w)"
  proof -
    have "vw_data \<lparr>vw_heap = m, vw_vectors = ?rest\<rparr> = take i (vw_data ?w) @ drop (Suc i) (vw_data ?w)"
      by (simp add: vw_data_def take_map [symmetric] drop_map [symmetric] map_update)
    then show ?thesis by (simp add: w(2))
  qed
  ultimately show ?thesis using m(1) by blast
qed

section \<open>What the operations do to the contents\<close>

fun vec_valid :: "'a vec_op \<Rightarrow> nat \<Rightarrow> bool" where
  "vec_valid (Copy_new i) n = (i < n)"
| "vec_valid (Move_new i) n = (i < n)"
| "vec_valid (Emplace_back i x) n = (i < n)"
| "vec_valid (Clear i) n = (i < n)"
| "vec_valid (Reserve i c) n = (i < n)"
| "vec_valid (Resize i c x) n = (i < n)"
| "vec_valid (Resize_noinit i c) n = (i < n)"
| "vec_valid (Copy_assign i j) n = (i < n \<and> j < n)"
| "vec_valid (Move_assign i j) n = (i < n \<and> j < n)"
| "vec_valid (Delete i) n = (i < n)"
| "vec_valid _ n = True"

fun vec_spec :: "'a vec_op \<Rightarrow> 'a option list list \<Rightarrow> 'a option list list \<Rightarrow> bool" where
  "vec_spec New_vector xs ys \<longleftrightarrow> ys = xs @ [[]]"
| "vec_spec (New_range zs) xs ys \<longleftrightarrow> ys = xs @ [map Some zs]"
| "vec_spec (Copy_new i) xs ys \<longleftrightarrow> ys = xs @ [xs ! i]"
| "vec_spec (Move_new i) xs ys \<longleftrightarrow> (\<exists>r \<in> {[], xs ! i}. ys = xs[i := r] @ [xs ! i])"
| "vec_spec (Emplace_back i x) xs ys \<longleftrightarrow> ys = xs[i := xs ! i @ [Some x]]"
| "vec_spec (Clear i) xs ys \<longleftrightarrow> ys = xs[i := []]"
| "vec_spec (Reserve i c) xs ys \<longleftrightarrow> ys = xs"
| "vec_spec (Resize i c x) xs ys \<longleftrightarrow>
     ys = xs[i := take c (xs ! i) @ replicate (c - length (xs ! i)) (Some x)]"
| "vec_spec (Resize_noinit i c) xs ys \<longleftrightarrow>
     (\<exists>y. length y = c \<and> take (length (xs ! i)) y = take c (xs ! i) \<and> ys = xs[i := y])"
| "vec_spec (Copy_assign i j) xs ys \<longleftrightarrow> ys = xs[i := xs ! j]"
| "vec_spec (Move_assign i j) xs ys \<longleftrightarrow>
     (if i = j then \<exists>r \<in> {[], xs ! i}. ys = xs[i := r]
      else \<exists>r \<in> {[], xs ! j}. ys = xs[i := xs ! j, j := r])"
| "vec_spec (Delete i) xs ys \<longleftrightarrow> ys = take i xs @ drop (Suc i) xs"

lemma list_update_neq_same: "i \<noteq> j \<Longrightarrow> xs[i := a, j := xs ! j] = xs[i := a]"
  by (metis list_update_id nth_list_update_neq)

lemma vw_data_nth: "i < length (vw_vectors w) \<Longrightarrow> vw_data w ! i = sv_data (vw_heap w, vw_vectors w ! i)"
  by (simp add: vw_data_def)

lemma length_vw_data [simp]: "length (vw_data w) = length (vw_vectors w)"
  by (simp add: vw_data_def)

text \<open>An operation at one vector, from what it does to that vector alone.\<close>

lemma at_vector_ok:
  assumes w: "vw_inv S w" "i < length (vw_vectors w)"
    and f: "\<exists>s'. f (vw_heap w, vw_vectors w ! i) = Inr s' \<and> evolves S (vw_heap w, vw_vectors w ! i) s' \<and>
      P (sv_data s')"
  shows "\<exists>w'. at_vector i f w = Inr w' \<and> vw_inv S w' \<and> (\<exists>y. P y \<and> vw_data w' = (vw_data w)[i := y])"
proof -
  from f obtain m v where s: "f (vw_heap w, vw_vectors w ! i) = Inr (m, v)"
    "evolves S (vw_heap w, vw_vectors w ! i) (m, v)" "P (sv_data (m, v))" by auto
  from world_update [OF w s(2)] s show ?thesis by (auto simp: at_vector_def)
qed

lemma range_append_ok:
  assumes "vw_inv S w"
  shows "\<exists>m v. range_vector S xs (vw_heap w) = Inr (m, v) \<and>
    vw_inv S \<lparr>vw_heap = m, vw_vectors = vw_vectors w @ [v]\<rparr> \<and>
    vw_data \<lparr>vw_heap = m, vw_vectors = vw_vectors w @ [v]\<rparr> = vw_data w @ [xs]"
proof -
  have "heap_ok (vw_heap w)" using assms by (simp add: vw_inv_def)
  then obtain m v where mv: "range_vector S xs (vw_heap w) = Inr (m, v)"
    "evolves S (vw_heap w, new_vector S) (m, v)" "sv_data (m, v) = xs"
    using insert_back_ok [of "(vw_heap w, new_vector S)" S xs]
    by (auto simp: range_vector_def new_vector_inv)
  with world_append [OF assms mv(2)] show ?thesis by auto
qed

lemma copy_assign_ok:
  assumes "vw_inv S w" "i < length (vw_vectors w)" "j < length (vw_vectors w)" "i \<noteq> j"
  shows "\<exists>s'. copy_assign (vw_vectors w ! j) (vw_heap w, vw_vectors w ! i) = Inr s' \<and>
    evolves S (vw_heap w, vw_vectors w ! i) s' \<and> sv_data s' = vw_data w ! j"
proof -
  let ?s = "(vw_heap w, vw_vectors w ! i)"
  have ok: "heap_ok (fst ?s)" "sv_inv S ?s" using vw_inv_nth [OF assms(1,2)] by simp_all
  have c: "heap_ok (fst (clear ?s))" "sv_inv S (clear ?s)"
    using evolves_okD [OF clear_ok(1) [OF ok]] by simp_all
  from insert_back_ok [OF c] obtain s' where s': "insert_back (vw_data w ! j) (clear ?s) = Inr s'"
    "evolves S (clear ?s) s'" "sv_data s' = sv_data (clear ?s) @ vw_data w ! j" by blast
  with evolves_trans [OF clear_ok(1) [OF ok] s'(2)] clear_ok(2) [OF ok] assms(3) show ?thesis
    by (simp add: copy_assign_def vw_data_nth)
qed

lemma move_self_ok:
  assumes "heap_ok (fst s)" "sv_inv S s"
  shows "\<exists>s'. move_assign_self S s = Inr s' \<and> evolves S s s' \<and> sv_data s' \<in> {[], sv_data s}"
proof (cases "isAllocated (snd s)")
  case True
  with dtor_reset_ok(1) [OF assms] dtor_reset_ok(2) [OF assms] show ?thesis
    by (fastforce simp: move_assign_self_def)
next
  case False
  with evolves_refl [OF assms] show ?thesis by (auto simp: move_assign_self_def)
qed

text \<open>Moving out of a vector: its block changes hands, or its in-place elements are copied.\<close>

lemma move_new_ok:
  assumes "vw_inv S w" "i < length (vw_vectors w)"
  shows "\<exists>w' r. vec_exec S (Move_new i) w = Inr w' \<and> vw_inv S w' \<and> r \<in> {[], vw_data w ! i} \<and>
    vw_data w' = (vw_data w)[i := r] @ [vw_data w ! i]"
proof (cases "isAllocated (vw_vectors w ! i)")
  case True
  let ?v = "vw_vectors w ! i" and ?n = "length (vw_vectors w)"
  let ?w = "w\<lparr>vw_vectors := vw_vectors w @ [new_vector S]\<rparr>"
  let ?a = "init_inplace S ?v"
  let ?b = "(new_vector S)\<lparr>sv_begin := sv_begin ?v, sv_len := sv_len ?v, sv_cap := sv_cap ?v\<rparr>"
  have inv: "sv_inv S (vw_heap w, ?v)" using vw_inv_nth [OF assms] by simp
  have "vw_inv S \<lparr>vw_heap = vw_heap ?w, vw_vectors = (vw_vectors ?w)[i := ?a, ?n := ?b]\<rparr> \<and>
      vw_data \<lparr>vw_heap = vw_heap ?w, vw_vectors = (vw_vectors ?w)[i := ?a, ?n := ?b]\<rparr> =
        (vw_data ?w)[i := sv_data (vw_heap ?w, ?a), ?n := sv_data (vw_heap ?w, ?b)]"
  proof (rule world_exchange)
    show "vw_inv S ?w" using world_new [OF assms(1)] by simp
    show "own ?b = own (vw_vectors ?w ! i)" using assms(2) by (simp add: own_def nth_append)
    show "sv_inv S (vw_heap ?w, ?a)" using inv by (simp add: sv_inv_def init_inplace_def)
    show "sv_inv S (vw_heap ?w, ?b)" using inv by (simp add: sv_inv_def new_vector_def split: option.split_asm option.split)
    show "i \<noteq> ?n" using assms(2) by simp
  qed (use assms(2) in \<open>simp_all add: own_def init_inplace_def new_vector_def\<close>)
  moreover have "sv_data (vw_heap w, ?b) = vw_data w ! i"
    using True assms(2) by (auto simp: vw_data_nth sv_data_def sv_cells_def isAllocated_def)
  moreover have "sv_data (vw_heap w, ?a) = []" by (simp add: sv_data_def init_inplace_def)
  ultimately show ?thesis using True assms(2) world_new [OF assms(1)]
    by (simp add: move_construct_def list_update_append) blast
next
  case False
  let ?v = "vw_vectors w ! i"
  let ?b = "(new_vector S)\<lparr>sv_array := overwrite 0 (sv_data (vw_heap w, ?v)) (replicate S None), sv_len := sv_len ?v\<rparr>"
  have inv: "sv_inv S (vw_heap w, ?v)" "heap_ok (vw_heap w)" using vw_inv_nth [OF assms] by simp_all
  then have len: "length (sv_data (vw_heap w, ?v)) = sv_len ?v" "sv_len ?v \<le> S"
    using length_sv_data [OF inv(1)] False by (auto simp: sv_inv_def isAllocated_def)
  have e: "evolves S (vw_heap w, new_vector S) (vw_heap w, ?b)"
    using inv(2) len by (auto simp: evolves_def sv_inv_def own_def new_vector_def length_overwrite)
  have "sv_data (vw_heap w, ?b) = sv_data (vw_heap w, ?v)"
    unfolding sv_data_def [of "(vw_heap w, ?b)"] using len by (simp add: sv_cells_def new_vector_def overwrite_def)
  then have "vw_data \<lparr>vw_heap = vw_heap w, vw_vectors = vw_vectors w @ [?b]\<rparr> =
      (vw_data w)[i := vw_data w ! i] @ [vw_data w ! i]"
    using world_append [OF assms(1) e] by (simp only: list_update_id vw_data_nth [OF assms(2), symmetric])
  moreover have "vec_exec S (Move_new i) w = Inr \<lparr>vw_heap = vw_heap w, vw_vectors = vw_vectors w @ [?b]\<rparr>"
    using False by (simp add: move_construct_def)
  ultimately show ?thesis using world_append [OF assms(1) e] by blast
qed

lemma move_assign_ok:
  assumes "vw_inv S w" "i < length (vw_vectors w)" "j < length (vw_vectors w)" "i \<noteq> j"
  shows "\<exists>w' r. vec_exec S (Move_assign i j) w = Inr w' \<and> vw_inv S w' \<and> r \<in> {[], vw_data w ! j} \<and>
    vw_data w' = (vw_data w)[i := vw_data w ! j, j := r]"
proof -
  let ?vi = "vw_vectors w ! i" and ?vj = "vw_vectors w ! j"
  have inv: "heap_ok (fst (vw_heap w, ?vi))" "sv_inv S (vw_heap w, ?vi)" "sv_inv S (vw_heap w, ?vj)"
    using vw_inv_nth [OF assms(1,2)] vw_inv_nth [OF assms(1,3)] by simp_all
  show ?thesis
  proof (cases "isAllocated ?vj")
    case True
    obtain m where m: "dtor (vw_heap w, ?vi) = Inr m"
      "evolves S (vw_heap w, ?vi) (m, init_inplace S ?vi)"
      using dtor_reset_ok(1) [OF inv(1,2)] by auto
    let ?w = "\<lparr>vw_heap = m, vw_vectors = (vw_vectors w)[i := init_inplace S ?vi]\<rparr>"
    let ?a = "?vi\<lparr>sv_begin := sv_begin ?vj, sv_len := sv_len ?vj, sv_cap := sv_cap ?vj\<rparr>"
    let ?b = "init_inplace S ?vj"
    have w: "vw_inv S ?w" "vw_data ?w = (vw_data w)[i := sv_data (m, init_inplace S ?vi)]"
      using world_update [OF assms(1,2) m(2)] by simp_all
    have invj: "sv_inv S (m, ?vj)" using vw_inv_nth [OF w(1), of j] assms(3,4) by simp
    have "vw_inv S \<lparr>vw_heap = vw_heap ?w, vw_vectors = (vw_vectors ?w)[i := ?a, j := ?b]\<rparr> \<and>
        vw_data \<lparr>vw_heap = vw_heap ?w, vw_vectors = (vw_vectors ?w)[i := ?a, j := ?b]\<rparr> =
          (vw_data ?w)[i := sv_data (vw_heap ?w, ?a), j := sv_data (vw_heap ?w, ?b)]"
    proof (rule world_exchange)
      show "sv_inv S (vw_heap ?w, ?a)" using invj inv(2) by (simp add: sv_inv_def split: option.split_asm option.split)
      show "sv_inv S (vw_heap ?w, ?b)" using inv(3) by (simp add: sv_inv_def init_inplace_def)
    qed (use w(1) assms in \<open>simp_all add: own_def init_inplace_def\<close>)
    moreover have "sv_data (m, ?a) = vw_data ?w ! j"
      using True assms by (auto simp: vw_data_nth sv_data_def sv_cells_def isAllocated_def)
    moreover have "sv_data (m, ?b) = []" by (simp add: sv_data_def init_inplace_def)
    ultimately show ?thesis using True assms w(2) m(1) by (simp add: move_assign_def) blast
  next
    case False
    then have len: "length (sv_data (vw_heap w, ?vj)) = sv_len ?vj" "sv_len ?vj \<le> S"
      using length_sv_data [OF inv(3)] inv(3) by (auto simp: sv_inv_def isAllocated_def)
    have cap: "S \<le> sv_cap ?vi" using inv(2) by (auto simp: sv_inv_def split: option.splits)
    let ?cs = "overwrite 0 (sv_data (vw_heap w, ?vj)) (sv_cells (vw_heap w, ?vi))"
    let ?s = "sv_store ?cs (vw_heap w, ?vi)"
    have "length ?cs = sv_cap ?vi" using len cap length_sv_cells [OF inv(2)] by (simp add: length_overwrite)
    note st = evolves_store [OF inv(1,2), of ?cs "sv_len ?vj"]
    have e: "evolves S (vw_heap w, ?vi) (fst ?s, snd ?s\<lparr>sv_len := sv_len ?vj\<rparr>)"
      "sv_data (fst ?s, snd ?s\<lparr>sv_len := sv_len ?vj\<rparr>) = sv_data (vw_heap w, ?vj)"
      using st \<open>length ?cs = _\<close> len cap by (simp_all add: overwrite_def)
    have "move_assign S ?vj (vw_heap w, ?vi) = Inr (fst ?s, snd ?s\<lparr>sv_len := sv_len ?vj\<rparr>, ?vj)"
      using False len cap by (simp add: move_assign_def Let_def)
    then have "vec_exec S (Move_assign i j) w =
      Inr \<lparr>vw_heap = fst ?s, vw_vectors = (vw_vectors w)[i := snd ?s\<lparr>sv_len := sv_len ?vj\<rparr>]\<rparr>"
      using assms(4) by (simp add: list_update_neq_same)
    moreover have "vw_data \<lparr>vw_heap = fst ?s, vw_vectors = (vw_vectors w)[i := snd ?s\<lparr>sv_len := sv_len ?vj\<rparr>]\<rparr> =
        (vw_data w)[i := vw_data w ! j, j := vw_data w ! j]"
      using world_update [OF assms(1,2) e(1)] e(2) list_update_neq_same [OF assms(4), of "vw_data w"]
        vw_data_nth [OF assms(3)] by (simp only:)
    ultimately show ?thesis using world_update [OF assms(1,2) e(1)] by blast
  qed
qed

text \<open>
  C12. Every operation of the vector class, applied to one of several vectors over one heap, ends
  without undefined behaviour, keeps the invariant of the world (each vector's capacity is the
  number of its cells, no two vectors own the same block, and the heap holds no other block: no
  leak) and does to the contents what the operation promises.
\<close>

theorem small_vector_refines:
  assumes "vw_inv S w" "vec_valid op (length (vw_vectors w))"
  shows "\<exists>w'. vec_exec S op w = Inr w' \<and> vw_inv S w' \<and> vec_spec op (vw_data w) (vw_data w')"
proof -
  note lift = at_vector_ok [OF assms(1)]
  note ok = vw_inv_nth [OF assms(1), THEN conjunct1] vw_inv_nth [OF assms(1), THEN conjunct2]
  show ?thesis
  proof (cases op)
    case New_vector
    with world_new [OF assms(1)] show ?thesis by simp
  next
    case (New_range xs)
    with range_append_ok [OF assms(1), of "map Some xs"] show ?thesis by fastforce
  next
    case (Copy_new i)
    with range_append_ok [OF assms(1), of "vw_data w ! i"] assms(2) show ?thesis
      by (auto simp: copy_construct_def simp flip: vw_data_nth)
  next
    case (Move_new i)
    with assms(2) have "i < length (vw_vectors w)" by simp
    from move_new_ok [OF assms(1) this] Move_new show ?thesis by (metis vec_spec.simps(4))
  next
    case (Emplace_back i x)
    with assms(2) lift [of i "emplace_back x" "\<lambda>y. y = vw_data w ! i @ [Some x]"]
      emplace_back_ok [of "(vw_heap w, vw_vectors w ! i)" S x] ok [of i] show ?thesis
      by (simp add: vw_data_nth)
  next
    case (Clear i)
    with assms(2) lift [of i "\<lambda>s. Inr (clear s)" "\<lambda>y. y = []"]
      clear_ok [of "(vw_heap w, vw_vectors w ! i)" S] ok [of i] show ?thesis by simp
  next
    case (Reserve i n)
    with assms(2) lift [of i "reserve n" "\<lambda>y. y = vw_data w ! i"]
      reserve_ok [of "(vw_heap w, vw_vectors w ! i)" S n] ok [of i] show ?thesis
      by (simp add: vw_data_nth [symmetric])
  next
    case (Resize i n x)
    with assms(2) lift [of i "resize_impl (Some x) n"
        "\<lambda>y. y = take n (vw_data w ! i) @ replicate (n - length (vw_data w ! i)) (Some x)"]
      resize_init_ok [of "(vw_heap w, vw_vectors w ! i)" S x n] ok [of i] show ?thesis
      by (simp add: vw_data_nth)
  next
    case (Resize_noinit i n)
    with assms(2) lift [of i "resize_impl None n"
        "\<lambda>y. length y = n \<and> take (length (vw_data w ! i)) y = take n (vw_data w ! i)"]
      resize_noinit_ok [of "(vw_heap w, vw_vectors w ! i)" S n] ok [of i] show ?thesis
      by (simp add: vw_data_nth)
  next
    case (Copy_assign i j)
    with assms lift [of i "copy_assign (vw_vectors w ! j)" "\<lambda>y. y = vw_data w ! j"]
      copy_assign_ok [OF assms(1), of i j] show ?thesis
      by (cases "i = j") simp_all
  next
    case (Move_assign i j)
    show ?thesis
    proof (cases "i = j")
      case True
      with Move_assign assms(2) lift [of i "move_assign_self S" "\<lambda>y. y \<in> {[], vw_data w ! i}"]
        move_self_ok [of "(vw_heap w, vw_vectors w ! i)" S] ok [of i] show ?thesis
        by (simp add: vw_data_nth) blast
    next
      case False
      with Move_assign assms(2) have "i < length (vw_vectors w)" "j < length (vw_vectors w)" by simp_all
      from move_assign_ok [OF assms(1) this False] Move_assign False show ?thesis by (metis vec_spec.simps(11))
    qed
  next
    case (Delete i)
    with world_delete [OF assms(1), of i] assms(2) show ?thesis by fastforce
  qed
qed

definition sample_world :: "nat vec_world" where
  "sample_world =
     \<lparr>vw_heap = \<lparr>hm_next = 1, hm_blocks = [0 \<mapsto> [Some 7, Some 8, Some 9]]\<rparr>,
      vw_vectors = [\<lparr>sv_array = [None, None], sv_begin = Some 0, sv_len = 3, sv_cap = 3\<rparr>]\<rparr>"

theorem small_vector_refines_witness:
  "\<exists>w'. vec_exec 2 (Move_new 0) sample_world = Inr w' \<and> vw_inv 2 w' \<and>
     vec_spec (Move_new 0) [[Some 7, Some 8, Some 9]] (vw_data w')"
proof -
  have inv: "vw_inv 2 sample_world"
    by (auto simp: vw_inv_def sample_world_def heap_ok_def sv_inv_def own_def)
  have data: "vw_data sample_world = [[Some 7, Some 8, Some 9]]"
    by (simp add: vw_data_def sample_world_def sv_data_def sv_cells_def)
  have valid: "vec_valid (Move_new 0 :: nat vec_op) (length (vw_vectors sample_world))"
    by (simp add: sample_world_def)
  show ?thesis using small_vector_refines [OF inv valid] unfolding data .
qed

end
