(* ===== verification/Io_Stream.thy ===== *)
theory Io_Stream
  imports Ring_Queue Small_Vector
begin

text \<open>
  The stream between a guest's GLES connection and its render thread:
  \<open>graphics/buffered_io_stream.cpp\<close> with the base class \<open>IOStream\<close> it extends, and the
  decoder's input window \<open>graphics/emugl/ReadBuffer.cpp\<close>. Buffers are byte lists here; that the
  small vectors that hold them are moved between the queues without loss is the subject of
  \<open>Small_Vector\<close>. What \<open>resize_noinit\<close> and \<open>realloc\<close> leave in fresh memory is \<open>junk\<close>.
  A blocking call that has to wait leaves a state from which the thread goes on by making the
  call again.
\<close>

section \<open>State\<close>

record io_stream =
  is_in :: "bytes buffer_queue"
  is_read_buffer :: bytes
  is_read_left :: nat
  is_out :: "bytes buffer_queue"
  is_write :: bytes
  is_write_alloc :: bool        \<comment> \<open>\<open>write_buffer_.isAllocated()\<close>\<close>
  is_buf :: bool                \<comment> \<open>\<open>m_buf\<close> of \<open>IOStream\<close> is not null\<close>
  is_bufsize :: nat
  is_free :: nat

definition small_size :: nat where "small_size = 512"

definition resize_noinit :: "(nat \<Rightarrow> byte) \<Rightarrow> nat \<Rightarrow> bytes \<Rightarrow> bytes" where
  "resize_noinit junk n b = take n b @ map junk [length b..<n]"

definition new_io_stream :: "(nat \<Rightarrow> byte) \<Rightarrow> nat \<Rightarrow> io_stream" where
  "new_io_stream junk buffer_size =
     \<lparr>is_in = new_buffer_queue [] 1024, is_read_buffer = [], is_read_left = 0,
      is_out = new_buffer_queue [] 16, is_write = resize_noinit junk buffer_size [],
      is_write_alloc = (small_size < buffer_size), is_buf = False, is_bufsize = buffer_size, is_free = 0\<rparr>"

section \<open>Writing\<close>

definition allocBuffer :: "(nat \<Rightarrow> byte) \<Rightarrow> nat \<Rightarrow> io_stream \<Rightarrow> io_stream" where
  "allocBuffer junk min_size s =
     (if length (is_write s) < min_size
      then s\<lparr>is_write := resize_noinit junk min_size (is_write s),
             is_write_alloc := is_write_alloc s \<or> small_size < min_size\<rparr>
      else s)"

text \<open>
  The assertion aside, the result is always \<open>size\<close>: that the queue refused the buffer is not
  reported. Moving an allocated buffer into the queue leaves an empty one in place.
\<close>

definition commitBuffer :: "nat \<Rightarrow> io_stream \<Rightarrow> (io_stream \<times> notification list) blocking res" where
  "commitBuffer sz s =
     (if length (is_write s) < sz then Inl (Undefined ''assert(size <= write_buffer_.size())'')
      else if is_write_alloc s then
        (case push_locked (take sz (is_write s)) (is_out s) of
           Wait cv \<Rightarrow> Inr (Wait cv)
         | Return (r, q, ns) \<Rightarrow>
             Inr (Return (if r = 0 then s\<lparr>is_out := q, is_write := [], is_write_alloc := False\<rparr>
                          else s\<lparr>is_out := q, is_write := take sz (is_write s)\<rparr>, ns)))
      else
        (case push_locked (take sz (is_write s)) (is_out s) of
           Wait cv \<Rightarrow> Inr (Wait cv)
         | Return (r, q, ns) \<Rightarrow> Inr (Return (s\<lparr>is_out := q\<rparr>, ns))))"

text \<open>A call that blocks or fails makes its caller block or fail.\<close>

definition then_call :: "'a blocking res \<Rightarrow> ('a \<Rightarrow> 'b blocking res) \<Rightarrow> 'b blocking res" where
  "then_call r f = rbind r (\<lambda>b. case b of Wait cv \<Rightarrow> Inr (Wait cv) | Return x \<Rightarrow> f x)"

definition flush :: "io_stream \<Rightarrow> (io_stream \<times> notification list) blocking res" where
  "flush s =
     (if \<not> is_buf s \<or> is_free s = is_bufsize s then Inr (Return (s, []))
      else then_call (commitBuffer (is_bufsize s - is_free s) s)
        (\<lambda>(s, ns). Inr (Return (s\<lparr>is_buf := False, is_free := 0\<rparr>, ns))))"

text \<open>The second half of \<open>alloc\<close>, after the flush.\<close>

definition alloc_room :: "(nat \<Rightarrow> byte) \<Rightarrow> nat \<Rightarrow> io_stream \<Rightarrow> nat \<times> io_stream" where
  "alloc_room junk len s =
     (let s = (if \<not> is_buf s \<or> len > is_bufsize s
               then (let allocLen = (if is_bufsize s < len then len else is_bufsize s)
                     in (allocBuffer junk allocLen s)
                          \<lparr>is_buf := True, is_bufsize := allocLen, is_free := allocLen\<rparr>)
               else s)
      in (is_bufsize s - is_free s, s\<lparr>is_free := is_free s - len\<rparr>))"

definition alloc ::
  "(nat \<Rightarrow> byte) \<Rightarrow> nat \<Rightarrow> io_stream \<Rightarrow> (nat \<times> io_stream \<times> notification list) blocking res" where
  "alloc junk len s =
     (if is_buf s \<and> len > is_free s then
        then_call (flush s) (\<lambda>(s, ns). case alloc_room junk len s of (ptr, s) \<Rightarrow> Inr (Return (ptr, s, ns)))
      else (case alloc_room junk len s of (ptr, s) \<Rightarrow> Inr (Return (ptr, s, []))))"

text \<open>A decoder writes its reply through the pointer it got.\<close>

definition put_reply :: "(nat \<Rightarrow> byte) \<Rightarrow> bytes \<Rightarrow> io_stream \<Rightarrow> (io_stream \<times> notification list) blocking res" where
  "put_reply junk xs s =
     then_call (alloc junk (length xs) s)
       (\<lambda>(ptr, s, ns). Inr (Return (s\<lparr>is_write := overwrite ptr xs (is_write s)\<rparr>, ns)))"

section \<open>The worker thread\<close>

text \<open>
  The inner loop of \<open>thread_main\<close> over the answers of \<open>send_raw\<close>: the bytes sent, whether the
  rest of the buffer was dropped, and the answers left.
\<close>

fun send_buffer :: "io_answer list \<Rightarrow> bytes \<Rightarrow> (bytes \<times> bool \<times> io_answer list) option" where
  "send_buffer as [] = Some ([], False, as)"
| "send_buffer [] (b # bs) = None"
| "send_buffer (Io_err e # as) (b # bs) =
     (if e \<noteq> EINTR \<and> e \<noteq> EAGAIN then Some ([], True, as) else send_buffer as (b # bs))"
| "send_buffer (Io_ok n # as) (b # bs) =
     (let written = min n (length (b # bs))
      in (case send_buffer as (drop written (b # bs)) of
            None \<Rightarrow> None
          | Some (w, dropped, as) \<Rightarrow> Some (take written (b # bs) @ w, dropped, as)))"

datatype worker_result = Worker_exit | Worker_wait | Worker_hangs | Worker_sent bytes bool "io_answer list" "notification list"

definition worker_round :: "(bytes \<Rightarrow> bytes) \<Rightarrow> io_answer list \<Rightarrow> io_stream \<Rightarrow> worker_result \<times> io_stream" where
  "worker_round mv as s =
     (case pop_locked mv (is_out s) of
        Wait cv \<Rightarrow> (Worker_wait, s)
      | Return (result, item, q, ns) \<Rightarrow>
          (let s = s\<lparr>is_out := q\<rparr>; buffer = (case item of None \<Rightarrow> [] | Some b \<Rightarrow> b)
           in if result \<noteq> 0 \<and> result \<noteq> - EAGAIN then (Worker_exit, s)
              else (case send_buffer as buffer of
                      None \<Rightarrow> (Worker_hangs, s)
                    | Some (w, dropped, as) \<Rightarrow> (Worker_sent w dropped as ns, s))))"

section \<open>Reading\<close>

datatype read_result = Read_data bytes | Read_failed | Read_wait

text \<open>
  The loop of \<open>read\<close>: \<open>dst\<close> is what has been copied so far, an item is there exactly when the
  queue's result is 0. The wake-ups a pop sends are those of \<open>Ring_Queue\<close>.
\<close>

function read_loop ::
  "(bytes \<Rightarrow> bytes) \<Rightarrow> nat \<Rightarrow> bytes \<Rightarrow> io_stream \<Rightarrow> read_result \<times> io_stream" where
  "read_loop mv wanted dst s =
     (if length dst < wanted then
        if is_read_left s > 0 then
          (let avail = min (wanted - length dst) (is_read_left s);
               off = length (is_read_buffer s) - is_read_left s
           in read_loop mv wanted (dst @ take avail (drop off (is_read_buffer s)))
                (s\<lparr>is_read_left := is_read_left s - avail\<rparr>))
        else
          (case (if dst = [] then pop_locked mv (is_in s) else Return (try_pop_locked mv (is_in s))) of
             Wait cv \<Rightarrow> (Read_wait, s)
           | Return (result, item, q, ns) \<Rightarrow>
               (case item of
                  Some b \<Rightarrow> read_loop mv wanted dst
                      (s\<lparr>is_in := q, is_read_buffer := b, is_read_left := length b\<rparr>)
                | None \<Rightarrow> if dst \<noteq> [] then (Read_data dst, s) else (Read_failed, s)))
      else (Read_data dst, s))"
  by pat_completeness auto
termination
proof (relation "measures [\<lambda>(mv, wanted, dst, s). bq_count (is_in s), \<lambda>(mv, wanted, dst, s). is_read_left s]", goal_cases)
  case 3
  then show ?case by (auto simp: try_pop_locked_def pop_locked_def Let_def split: if_splits)
qed auto

definition stream_read :: "(bytes \<Rightarrow> bytes) \<Rightarrow> nat \<Rightarrow> io_stream \<Rightarrow> read_result \<times> io_stream" where
  "stream_read mv wanted s = read_loop mv wanted [] s"

definition stream_forceStop :: "io_stream \<Rightarrow> io_stream \<times> notification list" where
  "stream_forceStop s =
     (case close_locked (is_in s) of (qi, ni) \<Rightarrow>
       (case close_locked (is_out s) of (qo, no) \<Rightarrow> (s\<lparr>is_in := qi, is_out := qo\<rparr>, ni @ no)))"

definition post_data :: "bytes \<Rightarrow> io_stream \<Rightarrow> (int \<times> io_stream \<times> notification list) blocking" where
  "post_data b s =
     (case push_locked b (is_in s) of
        Wait cv \<Rightarrow> Wait cv
      | Return (r, q, ns) \<Rightarrow> Return (r, s\<lparr>is_in := q\<rparr>, ns))"

definition needs_data :: "io_stream \<Rightarrow> bool" where
  "needs_data s \<longleftrightarrow> \<not> can_pop_locked (is_in s)"

section \<open>ReadBuffer\<close>

record read_buffer =
  rb_buf :: bytes           \<comment> \<open>\<open>m_size\<close> bytes at \<open>m_buf\<close>\<close>
  rb_ptr :: nat             \<comment> \<open>\<open>m_readPtr - m_buf\<close>\<close>
  rb_valid :: nat

definition new_read_buffer :: "(nat \<Rightarrow> byte) \<Rightarrow> nat \<Rightarrow> read_buffer" where
  "new_read_buffer junk bufsize = \<lparr>rb_buf = map junk [0..<bufsize], rb_ptr = 0, rb_valid = 0\<rparr>"

definition rb_data :: "read_buffer \<Rightarrow> bytes" where
  "rb_data rb = take (rb_valid rb) (drop (rb_ptr rb) (rb_buf rb))"

text \<open>Moving the valid bytes to the front.\<close>

definition rb_compact :: "read_buffer \<Rightarrow> read_buffer" where
  "rb_compact rb =
     (if 0 < rb_valid rb \<and> 0 < rb_ptr rb then rb\<lparr>rb_buf := overwrite 0 (rb_data rb) (rb_buf rb)\<rparr> else rb)"

definition INT_MAX :: nat where "INT_MAX = 2 ^ 31 - 1"

definition grown_size :: "nat \<Rightarrow> nat" where
  "grown_size m_size =
     (let new_size = (m_size * 2) mod 2 ^ 64 in if new_size < m_size then INT_MAX else new_size)"

text \<open>The stream is any object with the virtual \<open>read\<close> of \<open>IOStream\<close>.\<close>

definition getData ::
  "(nat \<Rightarrow> byte) \<Rightarrow> (nat \<Rightarrow> bool) \<Rightarrow> (nat \<Rightarrow> 's \<Rightarrow> read_result \<times> 's) \<Rightarrow> read_buffer \<Rightarrow> 's \<Rightarrow>
     int option \<times> read_buffer \<times> 's" where
  "getData junk realloc read rb s =
     (let rb = rb_compact rb; m_size = length (rb_buf rb); n = grown_size m_size
      in if m_size - rb_valid rb = 0 \<and> \<not> realloc n then (Some (- 1), rb, s)
         else
           (let rb = (if m_size - rb_valid rb = 0 then rb\<lparr>rb_buf := resize_noinit junk n (rb_buf rb)\<rparr> else rb);
                len = length (rb_buf rb) - rb_valid rb;
                rb = rb\<lparr>rb_ptr := 0\<rparr>
            in (case read len s of
                  (Read_wait, s) \<Rightarrow> (None, rb, s)
                | (Read_failed, s) \<Rightarrow> (Some (- 1), rb, s)
                | (Read_data bs, s) \<Rightarrow>
                    (Some (s32 (int (length bs))),
                     rb\<lparr>rb_buf := overwrite (rb_valid rb) bs (rb_buf rb), rb_valid := rb_valid rb + length bs\<rparr>, s))))"

definition consume :: "nat \<Rightarrow> read_buffer \<Rightarrow> read_buffer res" where
  "consume amount rb =
     (if rb_valid rb < amount then Inl (Undefined ''assert(amount <= m_validData)'')
      else Inr (rb\<lparr>rb_valid := rb_valid rb - amount, rb_ptr := rb_ptr rb + amount\<rparr>))"

section \<open>What a read returns\<close>

definition unread :: "io_stream \<Rightarrow> bytes" where
  "unread s = drop (length (is_read_buffer s) - is_read_left s) (is_read_buffer s) @ concat (bq_contents (is_in s))"

definition in_ok :: "io_stream \<Rightarrow> bool" where
  "in_ok s \<longleftrightarrow> bq_wf (is_in s) \<and> is_read_left s \<le> length (is_read_buffer s)"

declare read_loop.simps [simp del]

text \<open>
  The loop from any point: what it copies is a prefix of the unread bytes and as long as
  possible. It waits or fails only when nothing was there to copy.
\<close>

definition read_post :: "nat \<Rightarrow> bytes \<Rightarrow> io_stream \<Rightarrow> read_result \<times> io_stream \<Rightarrow> bool" where
  "read_post wanted dst s rs \<longleftrightarrow>
     in_ok (snd rs) \<and> bq_closed (is_in (snd rs)) = bq_closed (is_in s) \<and> is_out (snd rs) = is_out s \<and>
     (case fst rs of
        Read_data bs \<Rightarrow> bs = dst @ take (wanted - length dst) (unread s) \<and>
          unread (snd rs) = drop (wanted - length dst) (unread s) \<and> (bs = [] \<longrightarrow> wanted = 0)
      | Read_failed \<Rightarrow> dst = [] \<and> unread s = [] \<and> unread (snd rs) = [] \<and> bq_closed (is_in s) \<and> 0 < wanted
      | Read_wait \<Rightarrow> dst = [] \<and> unread s = [] \<and> unread (snd rs) = [] \<and> \<not> bq_closed (is_in s) \<and> 0 < wanted)"

lemma pop_cases:
  assumes "bq_wf q"
  obtains (item) b qs where "bq_contents q = b # bq_contents qs" "bq_wf qs" "bq_closed qs = bq_closed q"
      "\<exists>ns. pop_locked mv q = Return (0, Some b, qs, ns)" "\<exists>ns. try_pop_locked mv q = (0, Some b, qs, ns)"
  | (empty) "bq_contents q = []" "bq_count q = 0"
proof (cases "bq_contents q")
  case Nil
  then show thesis by (rule empty) (use Nil in simp)
next
  case (Cons b bs)
  then have "bq_count q \<noteq> 0" by (metis bq_contents_Nil list.distinct(1))
  with try_pop_locked_ok [OF assms Cons, of mv] Cons show thesis
    by (auto simp: pop_locked_def intro: item)
qed

lemma drop_split:
  assumes "l \<le> length b" "a \<le> l"
  shows "drop (length b - l) b = take a (drop (length b - l) b) @ drop (length b - (l - a)) b"
proof -
  from assms have "length b - (l - a) = a + (length b - l)" by simp
  then have "drop (length b - (l - a)) b = drop a (drop (length b - l) b)" by (simp add: add.commute)
  then show ?thesis by (metis append_take_drop_id)
qed

lemma read_post_shift:
  assumes "read_post wanted (dst @ p) t rs" "unread s = p @ unread t" "length dst + length p \<le> wanted" "p \<noteq> []"
    "bq_closed (is_in t) = bq_closed (is_in s)" "is_out t = is_out s"
  shows "read_post wanted dst s rs"
proof -
  obtain k where k: "wanted = length dst + length p + k" using assms(3) by (auto simp: le_iff_add)
  have t: "take (length p + k) (unread s) = p @ take k (unread t)" "drop (length p + k) (unread s) = drop k (unread t)"
    by (simp_all add: assms(2))
  show ?thesis
  proof (cases "fst rs")
    case (Read_data bs)
    with assms(1,4-6) t show ?thesis by (simp add: read_post_def k add.assoc)
  qed (use assms(1,4) in \<open>simp_all add: read_post_def\<close>)
qed

lemma read_post_cong:
  assumes "read_post wanted dst t rs" "unread t = unread s" "bq_closed (is_in t) = bq_closed (is_in s)"
    "is_out t = is_out s"
  shows "read_post wanted dst s rs"
  using assms(1) unfolding read_post_def assms(2-4) .

lemma read_loop_post: "in_ok s \<Longrightarrow> length dst \<le> wanted \<Longrightarrow> read_post wanted dst s (read_loop mv wanted dst s)"
proof (induction mv wanted dst s rule: read_loop.induct)
  case (1 mv wanted dst s)
  show ?case
  proof (cases "length dst < wanted")
    case False
    with "1.prems" show ?thesis by (subst read_loop.simps) (auto simp: read_post_def)
  next
    case True
    show ?thesis
    proof (cases "is_read_left s > 0")
      case left: True
      let ?a = "min (wanted - length dst) (is_read_left s)"
      let ?off = "length (is_read_buffer s) - is_read_left s"
      let ?dst = "dst @ take ?a (drop ?off (is_read_buffer s))"
      let ?s = "s\<lparr>is_read_left := is_read_left s - ?a\<rparr>"
      have len: "length ?dst = length dst + ?a" using "1.prems"(1) by (simp add: in_ok_def)
      have "read_post wanted ?dst ?s (read_loop mv wanted ?dst ?s)"
        by (rule "1.IH"(1) [OF True left refl refl]) (use "1.prems" len in \<open>auto simp: in_ok_def\<close>)
      moreover have "unread s = take ?a (drop ?off (is_read_buffer s)) @ unread ?s"
        using "1.prems"(1) drop_split [of "is_read_left s" "is_read_buffer s" ?a] by (simp add: unread_def in_ok_def)
      moreover have "read_loop mv wanted dst s = read_loop mv wanted ?dst ?s"
        by (subst read_loop.simps) (simp add: True left Let_def)
      ultimately show ?thesis
        using read_post_shift [of wanted dst "take ?a (drop ?off (is_read_buffer s))" ?s] True left len by simp
    next
      case False
      then have u: "unread s = concat (bq_contents (is_in s))" by (simp add: unread_def)
      have wf: "bq_wf (is_in s)" using "1.prems"(1) by (simp add: in_ok_def)
      show ?thesis
      proof (cases rule: pop_cases [OF wf, where mv = mv])
        case (1 b q)
        let ?s = "s\<lparr>is_in := q, is_read_buffer := b, is_read_left := length b\<rparr>"
        obtain ns where pop: "(if dst = [] then pop_locked mv (is_in s) else Return (try_pop_locked mv (is_in s))) =
            Return (0, Some b, q, ns)" using 1(4,5) by (cases "dst = []") auto
        have "read_loop mv wanted dst s = read_loop mv wanted dst ?s"
          by (subst read_loop.simps) (simp add: True False pop)
        moreover have "read_post wanted dst ?s (read_loop mv wanted dst ?s)"
          using "1.IH"(2) [OF True False pop refl refl refl refl] "1.prems"(2) 1(2) by (simp add: in_ok_def)
        moreover have "unread ?s = unread s" using 1(1) u by (simp add: unread_def)
        ultimately show ?thesis using 1(3) by (auto intro: read_post_cong [where t = ?s])
      next
        case 2
        with "1.prems" True False u show ?thesis
          by (subst read_loop.simps) (auto simp: read_post_def pop_locked_def try_pop_locked_empty)
      qed
    qed
  qed
qed

lemma stream_read_post: "in_ok s \<Longrightarrow> read_post wanted [] s (stream_read mv wanted s)"
  using read_loop_post [of s "[]" wanted mv] by (simp add: stream_read_def)

lemma push_locked_closed: "push_locked x q = Return (r, q', ns) \<Longrightarrow> bq_closed q' = bq_closed q"
  by (auto simp: push_locked_def try_push_locked_def Let_def split: if_splits)

lemma post_data_ok:
  assumes "in_ok s" "post_data b s = Return (r, s', ns)"
  shows "in_ok s' \<and> is_out s' = is_out s \<and> bq_closed (is_in s') = bq_closed (is_in s) \<and>
    (if r = 0 then unread s' = unread s @ b else s' = s \<and> bq_closed (is_in s))"
proof -
  obtain q where q: "push_locked b (is_in s) = Return (r, q, ns)" "s' = s\<lparr>is_in := q\<rparr>"
    using assms(2) by (auto simp: post_data_def split: blocking.splits)
  have "bq_wf (is_in s)" using assms(1) by (simp add: in_ok_def)
  from push_locked_Return [OF this q(1)] push_locked_closed [OF q(1)] assms(1) show ?thesis
    by (cases "r = 0") (simp_all add: q(2) in_ok_def unread_def)
qed

section \<open>The window of the decoders\<close>

definition rb_ok :: "read_buffer \<Rightarrow> bool" where
  "rb_ok rb \<longleftrightarrow> rb_ptr rb + rb_valid rb \<le> length (rb_buf rb)"

lemma length_rb_data: "rb_ok rb \<Longrightarrow> length (rb_data rb) = rb_valid rb"
  by (simp add: rb_data_def rb_ok_def)

lemma rb_compact_ok:
  assumes "rb_ok rb"
  shows "rb_valid (rb_compact rb) = rb_valid rb" "length (rb_buf (rb_compact rb)) = length (rb_buf rb)"
    "take (rb_valid rb) (rb_buf (rb_compact rb)) = rb_data rb"
  using assms length_rb_data [OF assms]
  by (auto simp: rb_compact_def rb_ok_def length_overwrite) (auto simp: rb_data_def overwrite_def)

lemma consume_ok:
  assumes "rb_ok rb" "amount \<le> rb_valid rb"
  shows "\<exists>rb'. consume amount rb = Inr rb' \<and> rb_ok rb' \<and> rb_data rb' = drop amount (rb_data rb) \<and>
    rb_valid rb' = rb_valid rb - amount \<and> length (rb_buf rb') = length (rb_buf rb)"
  using assms by (simp add: consume_def rb_ok_def rb_data_def drop_take add.commute)

lemma length_resize_noinit [simp]: "length (resize_noinit junk n b) = n"
  by (simp add: resize_noinit_def)

lemma s32_nat: "n < 2 ^ 31 \<Longrightarrow> s32 (int n) = int n"
  by (simp add: in_s32_def)

lemma grown_size_doubles: "0 < n \<Longrightarrow> n < 2 ^ 63 \<Longrightarrow> grown_size n = 2 * n"
  by (simp add: grown_size_def Let_def mult.commute)

text \<open>
  One \<open>getData\<close>, for a window smaller than half the address space: the bytes it adds are the
  next pending ones. It fails only when the stream is closed and empty or the memory is.
\<close>

definition getData_post ::
  "('s \<Rightarrow> bool) \<Rightarrow> ('s \<Rightarrow> bytes) \<Rightarrow> ('s \<Rightarrow> bool) \<Rightarrow> (nat \<Rightarrow> bool) \<Rightarrow> read_buffer \<Rightarrow> 's \<Rightarrow>
     int option \<times> read_buffer \<times> 's \<Rightarrow> bool" where
  "getData_post ok pending closed realloc rb s res \<longleftrightarrow>
     (case res of (r, rb', s') \<Rightarrow>
        rb_data rb' @ pending s' = rb_data rb @ pending s \<and> ok s' \<and>
        closed s' = closed s \<and>
        (length (rb_buf rb') = length (rb_buf rb) \<or>
           realloc (2 * length (rb_buf rb)) \<and> length (rb_buf rb') = 2 * length (rb_buf rb)) \<and>
        (r \<noteq> Some (- 1) \<longrightarrow> rb_ok rb' \<and> rb_valid rb \<le> rb_valid rb') \<and>
        (r = None \<longrightarrow> pending s = [] \<and> \<not> closed s) \<and>
        (r = Some (- 1) \<and> realloc (2 * length (rb_buf rb)) \<and> length (rb_buf rb) < 2 ^ 30 \<longrightarrow>
           pending s = [] \<and> closed s) \<and>
        (r \<noteq> None \<longrightarrow> the r \<noteq> - 1 \<longrightarrow> pending s \<noteq> [] \<and> rb_valid rb < rb_valid rb' \<and>
           r = Some (s32 (int (rb_valid rb' - rb_valid rb)))))"

text \<open>
  What a reader may rely on, whatever the stream: a read of a positive length returns the next
  bytes, as many as there are up to the length asked for; it waits or fails only if nothing is
  there.
\<close>

locale byte_source =
  fixes read :: "nat \<Rightarrow> 's \<Rightarrow> read_result \<times> 's"
    and pending :: "'s \<Rightarrow> bytes"
    and closed :: "'s \<Rightarrow> bool"
    and ok :: "'s \<Rightarrow> bool"
  assumes read_spec:
    "ok s \<Longrightarrow> 0 < n \<Longrightarrow> read n s = (r, s') \<Longrightarrow>
       ok s' \<and> closed s' = closed s \<and>
       (case r of
          Read_data bs \<Rightarrow> bs = take n (pending s) \<and> bs \<noteq> [] \<and> pending s' = drop n (pending s)
        | Read_failed \<Rightarrow> pending s = [] \<and> pending s' = [] \<and> closed s
        | Read_wait \<Rightarrow> pending s = [] \<and> pending s' = [] \<and> \<not> closed s)"
begin

lemma getData_ok:
  assumes rb: "rb_ok rb" "0 < length (rb_buf rb)" "length (rb_buf rb) < 2 ^ 63" and s: "ok s"
  shows "getData_post ok pending closed realloc rb s (getData junk realloc read rb s)"
proof -
  define c where "c = rb_compact rb"
  note c = rb_compact_ok [OF rb(1), folded c_def]
  define full where "full \<longleftrightarrow> length (rb_buf c) - rb_valid c = 0"
  define c' where "c' = (if full then c\<lparr>rb_buf := resize_noinit junk (grown_size (length (rb_buf c))) (rb_buf c)\<rparr> else c)"
  have v: "rb_valid c \<le> length (rb_buf c)" using c rb(1) by (simp add: rb_ok_def)
  have c': "rb_valid c' = rb_valid rb" "rb_valid c' < length (rb_buf c')" "take (rb_valid rb) (rb_buf c') = rb_data rb"
    using c v rb(2,3) grown_size_doubles [of "length (rb_buf rb)"]
    by (auto simp: c'_def full_def resize_noinit_def simp flip: length_greater_0_conv)
  obtain res s' where rd: "read (length (rb_buf c') - rb_valid c') s = (res, s')" by force
  have "0 < length (rb_buf c') - rb_valid c'" using c'(2) by simp
  note post = read_spec [OF s this rd]
  show ?thesis
  proof (cases "full \<and> \<not> realloc (grown_size (length (rb_buf c)))")
    case True
    then have "getData junk realloc read rb s = (Some (- 1), c, s)"
      by (simp add: getData_def Let_def full_def flip: c_def)
    moreover have "rb_ptr rb = 0" using True rb(1) c(1,2) rb(2) v by (simp add: full_def rb_ok_def)
    then have "rb_data c = rb_data rb" using c by (simp add: rb_data_def c_def rb_compact_def)
    moreover have "\<not> realloc (2 * length (rb_buf rb))"
      using True c(2) grown_size_doubles [OF rb(2,3)] by simp
    ultimately show ?thesis using s c(2) by (simp add: getData_post_def)
  next
    case False
    then have g: "getData junk realloc read rb s =
        (case (res, s') of
           (Read_wait, s) \<Rightarrow> (None, c'\<lparr>rb_ptr := 0\<rparr>, s)
         | (Read_failed, s) \<Rightarrow> (Some (- 1), c'\<lparr>rb_ptr := 0\<rparr>, s)
         | (Read_data bs, s) \<Rightarrow>
             (Some (s32 (int (length bs))),
              c'\<lparr>rb_ptr := 0, rb_buf := overwrite (rb_valid c') bs (rb_buf c'), rb_valid := rb_valid c' + length bs\<rparr>, s))"
      unfolding getData_def Let_def rd [symmetric] c'_def full_def c_def by (auto split: prod.split read_result.split)
    have l: "length (rb_buf c') = length (rb_buf rb) \<or>
        realloc (2 * length (rb_buf rb)) \<and> length (rb_buf c') = 2 * length (rb_buf rb)"
      using False c(2) grown_size_doubles [OF rb(2,3)] by (auto simp: c'_def)
    show ?thesis
    proof (cases res)
      case (Read_data bs)
      then have bs: "bs = take (length (rb_buf c') - rb_valid c') (pending s)" "bs \<noteq> []"
        "bs @ pending s' = pending s" "length bs \<le> length (rb_buf c') - rb_valid c'"
        using post c'(2) by auto
      have "rb_data (c'\<lparr>rb_ptr := 0, rb_buf := overwrite (rb_valid c') bs (rb_buf c'), rb_valid := rb_valid c' + length bs\<rparr>) =
          rb_data rb @ bs"
        using take_overwrite [of "rb_valid c'" "rb_buf c'" bs] c' by (simp add: rb_data_def)
      moreover have "length (overwrite (rb_valid c') bs (rb_buf c')) = length (rb_buf c')"
        using bs(4) c'(2) by (intro length_overwrite) simp
      moreover have "pending s \<noteq> []" "ok s' \<and> closed s' = closed s"
        using bs(2,3) post by auto
      moreover have "s32 (int (length bs)) \<noteq> - 1" if "length (rb_buf rb) < 2 ^ 30"
      proof -
        have "length bs < 2 ^ 31" using that bs(4) l by auto
        then show ?thesis using s32_nat by simp
      qed
      ultimately show ?thesis
        unfolding g Read_data using bs(2-4) c' l by (auto simp: getData_post_def rb_ok_def)
    qed (use post c' l in \<open>simp_all add: g getData_post_def rb_ok_def rb_data_def\<close>)
  qed
qed

end

interpretation stream: byte_source "stream_read mv" unread "\<lambda>s. bq_closed (is_in s)" in_ok
proof unfold_locales
  fix s s' :: io_stream and n r
  assume "in_ok s" "0 < n" "stream_read mv n s = (r, s')"
  with stream_read_post [of s n mv] show "in_ok s' \<and> bq_closed (is_in s') = bq_closed (is_in s) \<and>
     (case r of
        Read_data bs \<Rightarrow> bs = take n (unread s) \<and> bs \<noteq> [] \<and> unread s' = drop n (unread s)
      | Read_failed \<Rightarrow> unread s = [] \<and> unread s' = [] \<and> bq_closed (is_in s)
      | Read_wait \<Rightarrow> unread s = [] \<and> unread s' = [] \<and> \<not> bq_closed (is_in s))"
    by (cases r) (auto simp: read_post_def)
qed

section \<open>The way out\<close>

text \<open>
  The bytes a decoder has written but not flushed are the used part of the buffer; those
  flushed are in the queue.
\<close>

definition unflushed :: "io_stream \<Rightarrow> bytes" where
  "unflushed s = (if is_buf s then take (is_bufsize s - is_free s) (is_write s) else [])"

definition out_ok :: "io_stream \<Rightarrow> bool" where
  "out_ok s \<longleftrightarrow> bq_wf (is_out s) \<and> is_free s \<le> is_bufsize s \<and> (is_buf s \<longrightarrow> is_bufsize s \<le> length (is_write s))"

definition queued :: "io_stream \<Rightarrow> bytes" where
  "queued s = concat (bq_contents (is_out s)) @ unflushed s"

lemma then_call_Return:
  "then_call r f = Inr (Return y) \<longleftrightarrow> (\<exists>x. r = Inr (Return x) \<and> f x = Inr (Return y))"
  by (cases r) (auto simp: then_call_def split: blocking.splits)

lemma then_call_safe: "\<exists>x. r = Inr x \<Longrightarrow> (\<And>x. \<exists>y. f x = Inr y) \<Longrightarrow> \<exists>y. then_call r f = Inr y"
  by (auto simp: then_call_def split: blocking.split)

lemma commitBuffer_ok:
  assumes "bq_wf (is_out s)" "\<not> bq_closed (is_out s)" "commitBuffer sz s = Inr (Return (s', ns))"
  shows "bq_wf (is_out s') \<and> \<not> bq_closed (is_out s') \<and>
    bq_contents (is_out s') = bq_contents (is_out s) @ [take sz (is_write s)] \<and>
    is_bufsize s' = is_bufsize s"
proof -
  obtain r q where p: "push_locked (take sz (is_write s)) (is_out s) = Return (r, q, ns)" "is_out s' = q"
    "is_bufsize s' = is_bufsize s"
    using assms(3) by (auto simp: commitBuffer_def split: if_splits blocking.splits)
  from push_locked_Return [OF assms(1) p(1)] push_locked_closed [OF p(1)] assms(2) p(2,3) show ?thesis
    by (cases "r = 0") auto
qed

lemma flush_ok:
  assumes "out_ok s" "\<not> bq_closed (is_out s)" "flush s = Inr (Return (s', ns))"
  shows "out_ok s' \<and> \<not> bq_closed (is_out s') \<and> queued s' = queued s \<and> unflushed s' = [] \<and>
    (is_buf s' \<longrightarrow> is_free s' = is_bufsize s')"
proof (cases "\<not> is_buf s \<or> is_free s = is_bufsize s")
  case True
  with assms show ?thesis by (auto simp: flush_def unflushed_def)
next
  case False
  obtain t where t: "commitBuffer (is_bufsize s - is_free s) s = Inr (Return (t, ns))"
    "s' = t\<lparr>is_buf := False, is_free := 0\<rparr>"
    using assms(3) False by (auto simp: flush_def then_call_Return)
  have "bq_wf (is_out s)" using assms(1) by (simp add: out_ok_def)
  from commitBuffer_ok [OF this assms(2) t(1)] False show ?thesis
    by (simp add: t(2) out_ok_def queued_def unflushed_def)
qed

text \<open>Flushing never trips the assertion.\<close>

lemma flush_safe: "out_ok s \<Longrightarrow> \<exists>r. flush s = Inr r"
  by (auto simp: flush_def commitBuffer_def out_ok_def split: blocking.split intro!: then_call_safe)

lemma alloc_room_ok:
  assumes "out_ok s" "is_buf s \<longrightarrow> length xs \<le> is_free s \<or> is_free s = is_bufsize s"
    and "alloc_room junk (length xs) s = (ptr, t)"
  shows "out_ok (t\<lparr>is_write := overwrite ptr xs (is_write t)\<rparr>) \<and> is_out t = is_out s \<and>
    unflushed (t\<lparr>is_write := overwrite ptr xs (is_write t)\<rparr>) = unflushed s @ xs"
proof (cases "\<not> is_buf s \<or> length xs > is_bufsize s")
  case True
  define n where "n = (if is_bufsize s < length xs then length xs else is_bufsize s)"
  define u where "u = allocBuffer junk n s"
  have u: "n \<le> length (is_write u)" "is_out u = is_out s" by (simp_all add: u_def allocBuffer_def)
  have "unflushed s = []" using True assms(2) assms(1) by (auto simp: unflushed_def out_ok_def)
  moreover have "ptr = 0" "t = u\<lparr>is_buf := True, is_bufsize := n, is_free := n - length xs\<rparr>"
    using assms(3) True by (auto simp: alloc_room_def Let_def n_def u_def)
  moreover have "length xs \<le> n" by (simp add: n_def)
  ultimately show ?thesis
    using u assms(1) by (simp add: out_ok_def unflushed_def overwrite_def)
next
  case False
  then have t: "ptr = is_bufsize s - is_free s" "t = s\<lparr>is_free := is_free s - length xs\<rparr>"
    using assms(3) by (auto simp: alloc_room_def Let_def)
  have le: "length xs \<le> is_free s" "is_free s \<le> is_bufsize s" "is_bufsize s \<le> length (is_write s)"
    using False assms(1,2) by (auto simp: out_ok_def)
  then have n: "is_bufsize s - (is_free s - length xs) = ptr + length xs" by (simp add: t(1))
  have "length (overwrite ptr xs (is_write s)) = length (is_write s)"
    using le by (intro length_overwrite) (simp add: t(1))
  moreover have "take (ptr + length xs) (overwrite ptr xs (is_write s)) = take ptr (is_write s) @ xs"
    using le by (intro take_overwrite) (simp add: t(1))
  then have "take (is_bufsize s - (is_free s - length xs)) (overwrite ptr xs (is_write s)) =
      take (is_bufsize s - is_free s) (is_write s) @ xs" unfolding n t(1) .
  moreover have "is_free s - length xs \<le> is_bufsize s" using le by simp
  ultimately show ?thesis
    using False assms(1) le(3) by (simp add: t(2) out_ok_def unflushed_def)
qed

lemma put_reply_ok:
  assumes "out_ok s" "\<not> bq_closed (is_out s)" "put_reply junk xs s = Inr (Return (s', ns))"
  shows "out_ok s' \<and> \<not> bq_closed (is_out s') \<and> queued s' = queued s @ xs"
proof (cases "is_buf s \<and> length xs > is_free s")
  case True
  then obtain t where t: "flush s = Inr (Return (t, ns))"
    "s' = (case alloc_room junk (length xs) t of (ptr, u) \<Rightarrow> u\<lparr>is_write := overwrite ptr xs (is_write u)\<rparr>)"
    using assms(3) by (auto simp: put_reply_def alloc_def then_call_Return case_prod_unfold)
  obtain ptr u where r: "alloc_room junk (length xs) t = (ptr, u)" by force
  note f = t(1) r t(2) [unfolded r prod.case]
  note fl = flush_ok [OF assms(1,2) f(1)]
  have "out_ok s' \<and> is_out u = is_out t \<and> unflushed s' = unflushed t @ xs"
    using alloc_room_ok [OF _ _ f(2)] fl by (simp add: f(3))
  with fl show ?thesis by (auto simp: f(3) queued_def)
next
  case False
  then obtain ptr u where f: "alloc_room junk (length xs) s = (ptr, u)"
    "s' = u\<lparr>is_write := overwrite ptr xs (is_write u)\<rparr>"
    using assms(3)
    by (auto simp: put_reply_def alloc_def then_call_Return split: prod.split_asm if_splits)
  have "out_ok s' \<and> is_out u = is_out s \<and> unflushed s' = unflushed s @ xs"
    using alloc_room_ok [OF assms(1) _ f(1)] False by (auto simp: f(2) not_less)
  with assms(2) show ?thesis by (simp add: f(2) queued_def)
qed

lemma send_buffer_prefix:
  "send_buffer as b = Some (w, dropped, as') \<Longrightarrow> \<exists>rest. b = w @ rest \<and> (\<not> dropped \<longrightarrow> rest = [])"
proof (induction as b arbitrary: w dropped rule: send_buffer.induct)
  case (4 n as b bs)
  define k where "k = min n (length (b # bs))"
  from "4.prems" obtain w' where w': "send_buffer as (drop k (b # bs)) = Some (w', dropped, as')"
    "w = take k (b # bs) @ w'"
    by (auto simp: Let_def k_def split: option.splits)
  from "4.IH" [OF k_def w'(1)] obtain rest where "drop k (b # bs) = w' @ rest" "\<not> dropped \<longrightarrow> rest = []" by blast
  then show ?case using append_take_drop_id [of k "b # bs"] w'(2) by (intro exI [of _ rest]) simp
qed (auto split: if_splits)

text \<open>With enough progress in the answers and no other error the whole buffer is sent.\<close>

lemma send_buffer_all:
  "length b \<le> io_progress as \<Longrightarrow> (\<And>e. Io_err e \<in> set as \<Longrightarrow> e = EINTR \<or> e = EAGAIN) \<Longrightarrow>
     \<exists>as'. send_buffer as b = Some (b, False, as')"
proof (induction as b rule: send_buffer.induct)
  case (4 n as b bs)
  define k where "k = min n (length (b # bs))"
  have "length (drop k (b # bs)) \<le> io_progress as" using "4.prems"(1) by (auto simp: k_def min_def)
  from "4.IH" [OF k_def this] "4.prems"(2) obtain as' where
    "send_buffer as (drop k (b # bs)) = Some (drop k (b # bs), False, as')" by auto
  then show ?case using append_take_drop_id [of k "b # bs"] unfolding k_def by simp
qed auto

lemma worker_round_sent:
  assumes "bq_wf (is_out s)" "worker_round mv as s = (Worker_sent w dropped as' ns, s')"
  shows "\<exists>b rest. bq_contents (is_out s) = b # bq_contents (is_out s') \<and> b = w @ rest \<and> (\<not> dropped \<longrightarrow> rest = []) \<and>
    bq_wf (is_out s') \<and> bq_closed (is_out s') = bq_closed (is_out s) \<and> (\<exists>q. s' = s\<lparr>is_out := q\<rparr>)"
proof (cases rule: pop_cases [OF assms(1), where mv = mv])
  case (1 b q)
  then obtain n where "pop_locked mv (is_out s) = Return (0, Some b, q, n)" by blast
  with assms(2) have "send_buffer as b = Some (w, dropped, as')" "s' = s\<lparr>is_out := q\<rparr>"
    by (auto simp: worker_round_def Let_def split: option.splits)
  with 1 send_buffer_prefix show ?thesis by fastforce
next
  case 2
  with assms(2) show ?thesis
    by (auto simp: worker_round_def pop_locked_def errno_defs Let_def split: if_splits)
qed

section \<open>Replies arrive in order\<close>

text \<open>
  The render thread's decoders write replies and flush; the worker sends; the network thread
  posts and the render thread reads at the same time. A state holds what was replied, what was
  sent and the stream.
\<close>

type_synonym reply_state = "bytes \<times> bytes \<times> io_stream"

inductive reply_step :: "(nat \<Rightarrow> byte) \<Rightarrow> (bytes \<Rightarrow> bytes) \<Rightarrow> reply_state \<Rightarrow> reply_state \<Rightarrow> bool" for junk mv where
  reply: "put_reply junk xs s = Inr (Return (s', ns)) \<Longrightarrow> reply_step junk mv (rs, ws, s) (rs @ xs, ws, s')"
| flush: "Io_Stream.flush s = Inr (Return (s', ns)) \<Longrightarrow> reply_step junk mv (rs, ws, s) (rs, ws, s')"
| send: "worker_round mv as s = (Worker_sent w False as' ns, s') \<Longrightarrow> reply_step junk mv (rs, ws, s) (rs, ws @ w, s')"
| post: "post_data b s = Return (r, s', ns) \<Longrightarrow> reply_step junk mv (rs, ws, s) (rs, ws, s')"
| read: "stream_read mv n s = (r, s') \<Longrightarrow> reply_step junk mv (rs, ws, s) (rs, ws, s')"

definition reply_inv :: "reply_state \<Rightarrow> bool" where
  "reply_inv st \<longleftrightarrow> (case st of (rs, ws, s) \<Rightarrow> out_ok s \<and> \<not> bq_closed (is_out s) \<and> rs = ws @ queued s)"

lemma out_ok_cong:
  "is_out s' = is_out s \<Longrightarrow> is_write s' = is_write s \<Longrightarrow> is_buf s' = is_buf s \<Longrightarrow> is_bufsize s' = is_bufsize s \<Longrightarrow>
   is_free s' = is_free s \<Longrightarrow> out_ok s' = out_ok s \<and> queued s' = queued s"
  by (simp add: out_ok_def queued_def unflushed_def)

definition same_out :: "io_stream \<Rightarrow> io_stream \<Rightarrow> bool" where
  "same_out s s' \<longleftrightarrow> is_out s' = is_out s \<and> is_write s' = is_write s \<and> is_buf s' = is_buf s \<and>
     is_bufsize s' = is_bufsize s \<and> is_free s' = is_free s"

lemma read_loop_out: "same_out s (snd (read_loop mv wanted dst s))"
proof (induction mv wanted dst s rule: read_loop.induct)
  case (1 mv wanted dst s)
  show ?case
    using "1.IH" by (subst read_loop.simps)
      (auto simp: same_out_def Let_def split: blocking.split prod.split option.split)
qed

lemma reply_inv_step: "reply_step junk mv st st' \<Longrightarrow> reply_inv st \<Longrightarrow> reply_inv st'"
proof (induction rule: reply_step.induct)
  case (reply xs s s' ns rs ws)
  then show ?case using put_reply_ok [of s junk xs s' ns] by (simp add: reply_inv_def)
next
  case (flush s s' ns rs ws)
  then show ?case using flush_ok [of s s' ns] by (simp add: reply_inv_def)
next
  case (send as s w as' ns s' rs ws)
  then have "bq_wf (is_out s)" by (simp add: reply_inv_def out_ok_def)
  from worker_round_sent [OF this send.hyps] send.prems show ?case
    by (auto simp: reply_inv_def out_ok_def queued_def unflushed_def)
next
  case (post b s r s' ns rs ws)
  then have "same_out s s'" by (auto simp: post_data_def same_out_def split: blocking.splits)
  with post.prems out_ok_cong [of s' s] show ?case by (simp add: reply_inv_def same_out_def)
next
  case (read n s r s' rs ws)
  then have "same_out s s'" using read_loop_out [of s mv n "[]"] by (simp add: stream_read_def)
  with read.prems out_ok_cong [of s' s] show ?case by (simp add: reply_inv_def same_out_def)
qed

lemma new_stream_ok: "in_ok (new_io_stream junk n)" "unread (new_io_stream junk n) = []"
  "reply_inv ([], [], new_io_stream junk n)"
  by (simp_all add: in_ok_def unread_def reply_inv_def out_ok_def queued_def unflushed_def new_io_stream_def
      new_buffer_queue_wf new_buffer_queue_contents)
    (simp add: new_buffer_queue_def)

section \<open>Stopping the worker\<close>

text \<open>
  The worker checks the queue and goes to sleep under \<open>out_lock_\<close>; \<open>forceStop\<close> closes the queue
  under \<open>lock_\<close>. Between the check and the wait the worker holds \<open>out_lock_\<close>, which keeps
  \<open>commitBuffer\<close> out but not \<open>forceStop\<close>. The parameter \<open>shared\<close> tells whether \<open>forceStop\<close> took
  \<open>out_lock_\<close> as well; the code is the case \<open>False\<close>. \<open>ss_stops\<close> counts the calls of \<open>forceStop\<close>
  still to come.
\<close>

datatype worker_pc = W_running | W_about_to_wait | W_waiting | W_done

record stop_state =
  ss_queue :: "bytes buffer_queue"
  ss_worker :: worker_pc
  ss_stops :: nat

definition wake_worker :: "notification list \<Rightarrow> worker_pc \<Rightarrow> worker_pc" where
  "wake_worker ns pc = (if pc = W_waiting \<and> wakes Can_pop ns then W_running else pc)"

inductive stop_step :: "bool \<Rightarrow> (bytes \<Rightarrow> bytes) \<Rightarrow> stop_state \<Rightarrow> stop_state \<Rightarrow> bool" for shared mv where
  worker_sends:
    "ss_worker s = W_running \<Longrightarrow> pop_locked mv (ss_queue s) = Return (r, Some b, q, ns) \<Longrightarrow>
     stop_step shared mv s (s\<lparr>ss_queue := q\<rparr>)"
| worker_exits:
    "ss_worker s = W_running \<Longrightarrow> pop_locked mv (ss_queue s) = Return (r, None, q, ns) \<Longrightarrow>
     stop_step shared mv s (s\<lparr>ss_worker := W_done\<rparr>)"
| worker_checks:
    "ss_worker s = W_running \<Longrightarrow> pop_locked mv (ss_queue s) = Wait cv \<Longrightarrow>
     stop_step shared mv s (s\<lparr>ss_worker := W_about_to_wait\<rparr>)"
| worker_waits:
    "ss_worker s = W_about_to_wait \<Longrightarrow> stop_step shared mv s (s\<lparr>ss_worker := W_waiting\<rparr>)"
| commits:
    "ss_worker s \<noteq> W_about_to_wait \<Longrightarrow> push_locked b (ss_queue s) = Return (r, q, ns) \<Longrightarrow>
     stop_step shared mv s (s\<lparr>ss_queue := q, ss_worker := wake_worker ns (ss_worker s)\<rparr>)"
| stops:
    "ss_stops s = Suc n \<Longrightarrow> (shared \<Longrightarrow> ss_worker s \<noteq> W_about_to_wait) \<Longrightarrow>
     close_locked (ss_queue s) = (q, ns) \<Longrightarrow>
     stop_step shared mv s (s\<lparr>ss_queue := q, ss_worker := wake_worker ns (ss_worker s), ss_stops := n\<rparr>)"

definition stop_init :: "nat \<Rightarrow> stop_state" where
  "stop_init n = \<lparr>ss_queue = new_buffer_queue [] 16, ss_worker = W_running, ss_stops = n\<rparr>"

definition asleep_for_ever :: "stop_state \<Rightarrow> bool" where
  "asleep_for_ever s \<longleftrightarrow>
     bq_closed (ss_queue s) \<and> bq_count (ss_queue s) = 0 \<and> bq_capacity (ss_queue s) = 16 \<and>
     ss_worker s = W_waiting \<and> ss_stops s = 0"

lemma asleep_step: "stop_step shared mv s s' \<Longrightarrow> asleep_for_ever s \<Longrightarrow> asleep_for_ever s'"
  by (induction rule: stop_step.induct)
    (auto simp: asleep_for_ever_def push_locked_def try_push_locked_def wake_worker_def wakes_def split: if_splits)

lemma asleep_steps: "(stop_step shared mv)\<^sup>*\<^sup>* s s' \<Longrightarrow> asleep_for_ever s \<Longrightarrow> asleep_for_ever s'"
  by (induction rule: rtranclp_induct) (auto intro: asleep_step)

lemma stop_calls:
  "\<exists>q. (stop_step False mv)\<^sup>*\<^sup>* \<lparr>ss_queue = q0, ss_worker = W_about_to_wait, ss_stops = n\<rparr>
      \<lparr>ss_queue = q, ss_worker = W_about_to_wait, ss_stops = 0\<rparr> \<and>
     bq_count q = bq_count q0 \<and> bq_capacity q = bq_capacity q0 \<and> (0 < n \<or> bq_closed q0 \<longrightarrow> bq_closed q)"
proof (induction n arbitrary: q0)
  case 0
  then show ?case by auto
next
  case (Suc n)
  obtain q1 ns where c: "close_locked q0 = (q1, ns)" by force
  then have q1: "bq_count q1 = bq_count q0" "bq_capacity q1 = bq_capacity q0" "bq_closed q1"
    by (auto simp: close_locked_def)
  have "stop_step False mv \<lparr>ss_queue = q0, ss_worker = W_about_to_wait, ss_stops = Suc n\<rparr>
      \<lparr>ss_queue = q1, ss_worker = W_about_to_wait, ss_stops = n\<rparr>"
    using stops [of "\<lparr>ss_queue = q0, ss_worker = W_about_to_wait, ss_stops = Suc n\<rparr>" n False q1 ns mv] c
    by (simp add: wake_worker_def)
  with Suc.IH [of q1] q1 show ?case by (auto intro: converse_rtranclp_into_rtranclp)
qed

definition never_misses :: "stop_state \<Rightarrow> bool" where
  "never_misses s \<longleftrightarrow>
     bq_wf (ss_queue s) \<and>
     (ss_worker s = W_about_to_wait \<or> ss_worker s = W_waiting \<longrightarrow>
        bq_count (ss_queue s) = 0 \<and> \<not> bq_closed (ss_queue s))"

lemma never_misses_step: "stop_step True mv s s' \<Longrightarrow> never_misses s \<Longrightarrow> never_misses s'"
proof (induction rule: stop_step.induct)
  case (worker_sends s r b q ns)
  then show ?case using pop_locked_Return [of "ss_queue s" mv r b q ns] by (auto simp: never_misses_def)
next
  case (commits s b r q ns)
  then show ?case using push_locked_Return [of "ss_queue s" b r q ns]
    by (cases "r = 0") (auto simp: never_misses_def wake_worker_def)
next
  case (stops s n q ns)
  then have "q = fst (close_locked (ss_queue s))" "ns = snd (close_locked (ss_queue s))" by simp_all
  with stops close_locked_wakes(2) [of "ss_queue s"] show ?case
    by (auto simp: never_misses_def wake_worker_def wakes_def)
qed (auto simp: never_misses_def pop_locked_def split: if_splits)

lemma never_misses_init: "never_misses (stop_init n)"
  by (simp add: never_misses_def stop_init_def new_buffer_queue_wf)

lemma never_misses_steps: "(stop_step True mv)\<^sup>*\<^sup>* (stop_init n) s \<Longrightarrow> never_misses s"
  by (induction rule: rtranclp_induct) (auto intro: never_misses_step never_misses_init)

section \<open>Properties\<close>

text \<open>
  A read of a positive number of bytes returns the next bytes that were posted, in order,
  as many as were asked for or, when fewer are there, all of them; the rest stays for the next
  read. It waits exactly when nothing is there and the stream is open, and fails exactly when
  nothing is there and the stream is closed.
\<close>

theorem stream_read_exact:
  assumes "in_ok s" "0 < wanted"
  shows "case stream_read mv wanted s of
      (Read_data bs, s') \<Rightarrow> bs = take wanted (unread s) \<and> unread s' = drop wanted (unread s) \<and> bs \<noteq> [] \<and> in_ok s'
    | (Read_wait, s') \<Rightarrow> unread s = [] \<and> unread s' = [] \<and> \<not> bq_closed (is_in s) \<and> in_ok s'
    | (Read_failed, s') \<Rightarrow> unread s = [] \<and> unread s' = [] \<and> bq_closed (is_in s) \<and> in_ok s'"
  using stream_read_post [OF assms(1), of wanted mv] assms(2)
  by (auto simp: read_post_def split: prod.split read_result.split)

definition sample_stream :: io_stream where
  "sample_stream = (new_io_stream (\<lambda>i. 0) 384)\<lparr>is_read_buffer := [1, 2, 3], is_read_left := 2,
     is_in := \<lparr>bq_capacity = 2, bq_pos = 1, bq_count = 2, bq_closed = False, bq_buffers = [[5], [4]]\<rparr>\<rparr>"

theorem stream_read_exact_witness:
  "fst (stream_read (\<lambda>b. b) 3 sample_stream) = Read_data [2, 3, 4]"
proof -
  have ok: "in_ok sample_stream" and u: "unread sample_stream = [2, 3, 4, 5]"
    by (simp_all add: sample_stream_def in_ok_def bq_wf_def unread_def bq_contents_def window_def
        upt_rec numeral_2_eq_2)
  show ?thesis
    using stream_read_exact [OF ok, of 3 "\<lambda>b. b"] by (auto simp: u split: prod.splits read_result.splits)
qed

text \<open>
  C6. Replies go out in order and once: however the writing and flushing of replies, the
  sending of queued buffers (in whatever pieces the socket takes them), posts and reads
  interleave, the bytes sent followed by those still in the stream are the bytes replied; and
  when the worker has drained the queue after a flush, everything replied has been sent.
\<close>

theorem replies_in_order:
  assumes "(reply_step junk mv)\<^sup>*\<^sup>* ([], [], new_io_stream junk n) (rs, ws, s)"
  shows "rs = ws @ concat (bq_contents (is_out s)) @ unflushed s \<and>
    (bq_contents (is_out s) = [] \<and> unflushed s = [] \<longrightarrow> rs = ws)"
proof -
  have "reply_inv (rs, ws, s)"
    using assms by (induction rule: rtranclp_induct) (auto intro: reply_inv_step new_stream_ok)
  then show ?thesis by (auto simp: reply_inv_def queued_def simp del: bq_contents_Nil)
qed



theorem replies_in_order_witness:
  "\<exists>s. (reply_step (\<lambda>i. 0) (\<lambda>b. b))\<^sup>*\<^sup>* ([], [], new_io_stream (\<lambda>i. 0) 384) ([7], [], s) \<and>
     concat (bq_contents (is_out s)) @ unflushed s = [7]"
proof -
  let ?s = "new_io_stream (\<lambda>i. 0) 384"
  obtain s ns where s: "put_reply (\<lambda>i. 0) [7] ?s = Inr (Return (s, ns))"
    by (auto simp: put_reply_def alloc_def then_call_def new_io_stream_def case_prod_unfold)
  have "(reply_step (\<lambda>i. 0) (\<lambda>b. b))\<^sup>*\<^sup>* ([], [], ?s) ([7], [], s)"
    using reply [OF s, of "\<lambda>b. b" "[]" "[]"] by auto
  with replies_in_order [OF this] show ?thesis by auto
qed

end
