(* ===== verification/Render_Thread.thy ===== *)
theory Render_Thread
  imports Io_Stream Renderer_State
begin

text \<open>
  The render thread of one guest connection (\<open>graphics/emugl/RenderThread.cpp\<close>): it fills its
  window from the stream, lets the three decoders consume it until none makes progress, and
  releases its objects in the renderer when the stream ends. The decoders are generated code
  and parameters: \<open>dec bytes d\<close> is the number of bytes consumed and the state after it, where
  \<open>'d\<close> holds the decoders' own state, the renderer and the writing half of the stream.
\<close>

section \<open>The thread\<close>

type_synonym 'd decoder = "bytes \<Rightarrow> 'd \<Rightarrow> nat \<times> 'd"

definition decode_with :: "'d decoder \<Rightarrow> bool \<times> read_buffer \<times> 'd \<Rightarrow> (bool \<times> read_buffer \<times> 'd) res" where
  "decode_with dec = (\<lambda>(progress, rb, d).
     case dec (rb_data rb) d of
       (n, d) \<Rightarrow>
         if n > 0 then rbind (consume n rb) (\<lambda>rb. Inr (True, rb, d)) else Inr (progress, rb, d))"

definition decode_round ::
  "'d decoder \<Rightarrow> 'd decoder \<Rightarrow> 'd decoder \<Rightarrow> read_buffer \<Rightarrow> 'd \<Rightarrow> (bool \<times> read_buffer \<times> 'd) res" where
  "decode_round gl gl2 rc rb d =
     rbind (decode_with gl (False, rb, d)) (\<lambda>st. rbind (decode_with gl2 st) (decode_with rc))"

lemma decode_with_decreases:
  assumes "decode_with dec (p, rb, d) = Inr (p', rb', d')"
  shows "rb_valid rb' \<le> rb_valid rb \<and> (p' \<longrightarrow> p \<or> rb_valid rb' < rb_valid rb) \<and> (p \<longrightarrow> p') \<and> (\<not> p' \<longrightarrow> rb' = rb)"
  using assms by (auto simp: decode_with_def consume_def split: prod.splits if_splits)

lemma decode_round_decreases:
  "decode_round gl gl2 rc rb d = Inr (True, rb', d') \<Longrightarrow> rb_valid rb' < rb_valid rb"
  by (auto simp: decode_round_def rbind_eq_Inr dest!: decode_with_decreases)

function decode_loop ::
  "'d decoder \<Rightarrow> 'd decoder \<Rightarrow> 'd decoder \<Rightarrow> read_buffer \<Rightarrow> 'd \<Rightarrow> (read_buffer \<times> 'd) res" where
  "decode_loop gl gl2 rc rb d =
     (case decode_round gl gl2 rc rb d of
        Inl e \<Rightarrow> Inl e
      | Inr (progress, rb, d) \<Rightarrow> if progress then decode_loop gl gl2 rc rb d else Inr (rb, d))"
  by pat_completeness auto
termination
  by (relation "measure (\<lambda>(gl, gl2, rc, rb, d). rb_valid rb)") (auto dest: decode_round_decreases)

declare decode_loop.simps [simp del]

text \<open>One turn of the outer loop: \<open>None\<close> while it waits for data.\<close>

datatype 'd turn = Turn_waits | Turn_ends | Turn_done 'd | Turn_fails exn

definition render_turn ::
  "(nat \<Rightarrow> byte) \<Rightarrow> (nat \<Rightarrow> bool) \<Rightarrow> (bytes \<Rightarrow> bytes) \<Rightarrow> 'd decoder \<Rightarrow> 'd decoder \<Rightarrow> 'd decoder \<Rightarrow>
     read_buffer \<Rightarrow> io_stream \<Rightarrow> 'd \<Rightarrow> 'd turn \<times> read_buffer \<times> io_stream" where
  "render_turn junk realloc mv gl gl2 rc rb s d =
     (case getData junk realloc (stream_read mv) rb s of
        (None, rb, s) \<Rightarrow> (Turn_waits, rb, s)
      | (Some stat, rb, s) \<Rightarrow>
          if stat \<le> 0 then (Turn_ends, rb, s)
          else (case decode_loop gl gl2 rc rb d of
                  Inl e \<Rightarrow> (Turn_fails e, rb, s)
                | Inr (rb, d) \<Rightarrow> (Turn_done d, rb, s)))"

text \<open>The end of \<open>main\<close>: unbind, then drop the thread's surfaces and contexts.\<close>

definition render_exit :: "'e egl_api \<Rightarrow> 'e renderer \<Rightarrow> thread_info \<Rightarrow> 'e renderer \<times> thread_info" where
  "render_exit api r ti =
     (case bindContext api 0 0 0 r ti of
        (ok, r, ti) \<Rightarrow> (case drainWindowSurface r ti of (r, ti) \<Rightarrow> drainRenderContext r ti))"

text \<open>
  \<open>OpenGlesMessageProcessor::process_data\<close> posts what the socket delivered; its result does
  not tell whether the stream took it.
\<close>

definition gles_process_data :: "bytes \<Rightarrow> io_stream \<Rightarrow> (bool \<times> io_stream \<times> notification list) blocking" where
  "gles_process_data data s =
     (case post_data data s of Wait cv \<Rightarrow> Wait cv | Return (r, s, ns) \<Rightarrow> Return (True, s, ns))"

section \<open>Decoding\<close>

text \<open>The contract of a decoder: it consumes no more than it was given.\<close>

definition sound_decoder :: "'d decoder \<Rightarrow> bool" where
  "sound_decoder dec \<longleftrightarrow> (\<forall>bs d. fst (dec bs d) \<le> length bs)"

definition decoded :: "read_buffer \<Rightarrow> read_buffer \<Rightarrow> bool" where
  "decoded rb rb' \<longleftrightarrow> rb_ok rb' \<and> length (rb_buf rb') = length (rb_buf rb) \<and> (\<exists>bs. rb_data rb = bs @ rb_data rb')"

lemma decoded_refl: "rb_ok rb \<Longrightarrow> decoded rb rb"
  by (simp add: decoded_def)

lemma decoded_trans: "decoded rb rb' \<Longrightarrow> decoded rb' rb'' \<Longrightarrow> decoded rb rb''"
  by (auto simp: decoded_def)

lemma decode_with_ok:
  assumes "sound_decoder dec" "rb_ok rb"
  shows "\<exists>p' rb' d'. decode_with dec (p, rb, d) = Inr (p', rb', d') \<and> decoded rb rb'"
proof -
  obtain n d' where n: "dec (rb_data rb) d = (n, d')" by force
  have "n \<le> rb_valid rb"
    using assms n length_rb_data [OF assms(2)] unfolding sound_decoder_def by (metis fst_conv)
  from consume_ok [OF assms(2) this] obtain rb' where "consume n rb = Inr rb'" "rb_ok rb'"
    "rb_data rb' = drop n (rb_data rb)" "length (rb_buf rb') = length (rb_buf rb)" by blast
  moreover from this have "decoded rb rb'"
    unfolding decoded_def by (metis append_take_drop_id)
  ultimately show ?thesis using n assms(2) by (auto simp: decode_with_def decoded_refl)
qed

lemma decode_round_ok:
  assumes "sound_decoder gl" "sound_decoder gl2" "sound_decoder rc" "rb_ok rb"
  shows "\<exists>p rb' d'. decode_round gl gl2 rc rb d = Inr (p, rb', d') \<and> decoded rb rb'"
proof -
  obtain p1 rb1 d1 where 1: "decode_with gl (False, rb, d) = Inr (p1, rb1, d1)" "decoded rb rb1"
    using decode_with_ok [OF assms(1,4), of False d] by blast
  then have "rb_ok rb1" by (simp add: decoded_def)
  then obtain p2 rb2 d2 where 2: "decode_with gl2 (p1, rb1, d1) = Inr (p2, rb2, d2)" "decoded rb1 rb2"
    using decode_with_ok [OF assms(2), of rb1 p1 d1] by blast
  then have "rb_ok rb2" by (simp add: decoded_def)
  then obtain p3 rb3 d3 where 3: "decode_with rc (p2, rb2, d2) = Inr (p3, rb3, d3)" "decoded rb2 rb3"
    using decode_with_ok [OF assms(3), of rb2 p2 d2] by blast
  have "decoded rb rb3" using 1(2) 2(2) 3(2) decoded_trans by blast
  with 1(1) 2(1) 3(1) show ?thesis by (simp add: decode_round_def)
qed

lemma decode_round_idle:
  "decode_round gl gl2 rc rb d = Inr (False, rb', d') \<Longrightarrow> rb' = rb"
  by (auto simp: decode_round_def rbind_eq_Inr dest!: decode_with_decreases)

lemma decode_loop_ok:
  assumes "sound_decoder gl" "sound_decoder gl2" "sound_decoder rc"
  shows "rb_ok rb \<Longrightarrow> \<exists>rb' d0 d'. decode_loop gl gl2 rc rb d = Inr (rb', d') \<and> decoded rb rb' \<and>
    decode_round gl gl2 rc rb' d0 = Inr (False, rb', d')"
  using assms
proof (induction gl gl2 rc rb d rule: decode_loop.induct)
  case (1 gl gl2 rc rb d)
  obtain p rb' d' where r: "decode_round gl gl2 rc rb d = Inr (p, rb', d')" "decoded rb rb'"
    using decode_round_ok [OF "1.prems"(2-4,1)] by blast
  show ?case
  proof (cases p)
    case True
    from r(2) have "rb_ok rb'" by (simp add: decoded_def)
    from "1.IH" [OF r(1) refl refl True this "1.prems"(2-4)] r decoded_trans [OF r(2)] True show ?thesis
      by (subst decode_loop.simps) auto
  next
    case False
    with r decode_round_idle [of gl gl2 rc rb d rb' d'] show ?thesis
      by (subst decode_loop.simps) auto
  qed
qed

section \<open>The whole way in\<close>

text \<open>A decoder that also notes what it has consumed.\<close>

definition recording :: "'d decoder \<Rightarrow> (bytes \<times> 'd) decoder" where
  "recording dec = (\<lambda>bs (h, d). case dec bs d of (n, d) \<Rightarrow> (n, (h @ take n bs, d)))"

lemma recording_sound: "sound_decoder dec \<Longrightarrow> sound_decoder (recording dec)"
  by (simp add: sound_decoder_def recording_def case_prod_unfold)

lemma decode_with_recording:
  assumes "sound_decoder dec" "rb_ok rb" "decode_with (recording dec) (p, rb, (h, d)) = Inr (p', rb', (h', d'))"
  shows "rb_ok rb' \<and> h' @ rb_data rb' = h @ rb_data rb"
proof -
  obtain n e where n: "dec (rb_data rb) d = (n, e)" by force
  have "n \<le> rb_valid rb"
    using assms(1,2) n length_rb_data [OF assms(2)] unfolding sound_decoder_def by (metis fst_conv)
  from consume_ok [OF assms(2) this] obtain rb1 where "consume n rb = Inr rb1" "rb_ok rb1"
    "rb_data rb1 = drop n (rb_data rb)" by blast
  with assms(2,3) n show ?thesis
    by (cases "n = 0") (auto simp: decode_with_def recording_def)
qed

lemma decode_round_recording:
  assumes "sound_decoder gl" "sound_decoder gl2" "sound_decoder rc" "rb_ok rb"
    "decode_round (recording gl) (recording gl2) (recording rc) rb (h, d) = Inr (p', rb', (h', d'))"
  shows "rb_ok rb' \<and> h' @ rb_data rb' = h @ rb_data rb"
proof -
  obtain p1 rb1 h1 d1 p2 rb2 h2 d2 where
    "decode_with (recording gl) (False, rb, (h, d)) = Inr (p1, rb1, (h1, d1))"
    "decode_with (recording gl2) (p1, rb1, (h1, d1)) = Inr (p2, rb2, (h2, d2))"
    "decode_with (recording rc) (p2, rb2, (h2, d2)) = Inr (p', rb', (h', d'))"
    using assms(5) by (auto simp: decode_round_def rbind_eq_Inr)
  with decode_with_recording [OF assms(1,4)] decode_with_recording [OF assms(2)] decode_with_recording [OF assms(3)]
  show ?thesis by metis
qed

lemma decode_loop_recording:
  assumes "sound_decoder gl" "sound_decoder gl2" "sound_decoder rc"
  shows "rb_ok rb \<Longrightarrow> decode_loop (recording gl) (recording gl2) (recording rc) rb (h, d) = Inr (rb', (h', d')) \<Longrightarrow>
    rb_ok rb' \<and> h' @ rb_data rb' = h @ rb_data rb"
proof (induction "rb_valid rb" arbitrary: rb h d rule: less_induct)
  case less
  obtain p rb1 h1 d1 where r: "decode_round (recording gl) (recording gl2) (recording rc) rb (h, d) = Inr (p, rb1, (h1, d1))"
    using less.prems(2) by (subst (asm) decode_loop.simps) (auto split: sum.splits)
  note s = decode_round_recording [OF assms less.prems(1) r]
  show ?case
  proof (cases p)
    case True
    with r have "rb_valid rb1 < rb_valid rb" by (auto intro: decode_round_decreases)
    moreover have "decode_loop (recording gl) (recording gl2) (recording rc) rb1 (h1, d1) = Inr (rb', (h', d'))"
      using less.prems(2) r True by (subst (asm) decode_loop.simps) simp
    ultimately show ?thesis using less.hyps [of rb1 h1 d1] s by simp
  next
    case False
    with less.prems(2) r s show ?thesis by (subst (asm) decode_loop.simps) simp
  qed
qed

text \<open>
  The network thread posts data and may close the stream at any time, the render thread takes
  its turns. \<open>posted\<close> is what the stream took.
\<close>

inductive render_runs ::
  "(nat \<Rightarrow> byte) \<Rightarrow> (nat \<Rightarrow> bool) \<Rightarrow> (bytes \<Rightarrow> bytes) \<Rightarrow> 'd decoder \<Rightarrow> 'd decoder \<Rightarrow> 'd decoder \<Rightarrow> 'd \<Rightarrow>
     bytes \<Rightarrow> read_buffer \<Rightarrow> io_stream \<Rightarrow> 'd \<Rightarrow> bool"
  for junk realloc mv gl gl2 rc d0 where
  start: "render_runs junk realloc mv gl gl2 rc d0 [] (new_read_buffer junk (4 * 1024 * 1024)) (new_io_stream junk 384) d0"
| posts:
    "render_runs junk realloc mv gl gl2 rc d0 posted rb s d \<Longrightarrow> \<not> bq_closed (is_in s) \<Longrightarrow>
     gles_process_data data s = Return (True, s', ns) \<Longrightarrow>
     render_runs junk realloc mv gl gl2 rc d0 (posted @ data) rb s' d"
| closes:
    "render_runs junk realloc mv gl gl2 rc d0 posted rb s d \<Longrightarrow> stream_forceStop s = (s', ns) \<Longrightarrow>
     render_runs junk realloc mv gl gl2 rc d0 posted rb s' d"
| waits:
    "render_runs junk realloc mv gl gl2 rc d0 posted rb s d \<Longrightarrow>
     render_turn junk realloc mv gl gl2 rc rb s d = (Turn_waits, rb', s') \<Longrightarrow>
     render_runs junk realloc mv gl gl2 rc d0 posted rb' s' d"
| decodes:
    "render_runs junk realloc mv gl gl2 rc d0 posted rb s d \<Longrightarrow>
     render_turn junk realloc mv gl gl2 rc rb s d = (Turn_done d', rb', s') \<Longrightarrow>
     render_runs junk realloc mv gl gl2 rc d0 posted rb' s' d'"

definition window_ok :: "read_buffer \<Rightarrow> io_stream \<Rightarrow> bool" where
  "window_ok rb s \<longleftrightarrow> rb_ok rb \<and> 0 < length (rb_buf rb) \<and> length (rb_buf rb) < 2 ^ 63 \<and> in_ok s"

lemma getData_window:
  assumes "window_ok rb s" "\<And>n. realloc n \<Longrightarrow> n < 2 ^ 63" "getData junk realloc (stream_read mv) rb s = (r, rb', s')" "r \<noteq> Some (- 1)"
  shows "window_ok rb' s' \<and> rb_data rb' @ unread s' = rb_data rb @ unread s \<and> (rb_valid rb' \<le> length (rb_buf rb'))"
proof -
  have w: "rb_ok rb" "0 < length (rb_buf rb)" "length (rb_buf rb) < 2 ^ 63" "in_ok s"
    using assms(1) by (simp_all add: window_ok_def)
  have post: "getData_post in_ok unread (\<lambda>s. bq_closed (is_in s)) realloc rb s (r, rb', s')" using stream.getData_ok [OF w, of realloc junk mv] assms(3) by simp
  then have "0 < length (rb_buf rb') \<and> length (rb_buf rb') < 2 ^ 63"
    using w(2,3) assms(2) by (auto simp: getData_post_def)
  with post assms(4) show ?thesis by (auto simp: getData_post_def window_ok_def rb_ok_def)
qed

lemma forceStop_in:
  assumes "stream_forceStop s = (s', ns)"
  shows "in_ok s' = in_ok s \<and> unread s' = unread s \<and> bq_closed (is_in s') \<and> bq_closed (is_out s')"
proof -
  have "s' = s\<lparr>is_in := fst (close_locked (is_in s)), is_out := fst (close_locked (is_out s))\<rparr>"
    using assms by (auto simp: stream_forceStop_def split: prod.splits)
  then show ?thesis by (simp add: in_ok_def unread_def)
qed

lemma render_runs_inv:
  assumes dec: "sound_decoder gl" "sound_decoder gl2" "sound_decoder rc" and mem: "\<And>n. realloc n \<Longrightarrow> n < 2 ^ 63"
  shows "render_runs junk realloc mv (recording gl) (recording gl2) (recording rc) ([], d0) posted rb s st \<Longrightarrow>
    window_ok rb s \<and> posted = fst st @ rb_data rb @ unread s"
proof (induction rule: render_runs.induct)
  case start
  then show ?case
    by (simp add: window_ok_def new_read_buffer_def rb_ok_def new_stream_ok rb_data_def)
next
  case (posts posted rb s d data s' ns)
  obtain r where p: "post_data data s = Return (r, s', ns)"
    using posts.hyps(3) by (auto simp: gles_process_data_def split: blocking.splits)
  have "in_ok s" using posts.IH by (simp add: window_ok_def)
  from post_data_ok [OF this p] posts.IH posts.hyps(2) show ?case
    by (auto simp: window_ok_def split: if_splits)
next
  case (closes posted rb s d s' ns)
  with forceStop_in [of s s' ns] show ?case by (simp add: window_ok_def)
next
  case (waits posted rb s d rb' s')
  then have g: "getData junk realloc (stream_read mv) rb s = (None, rb', s')"
    by (auto simp: render_turn_def split: prod.splits option.splits if_splits sum.splits)
  from getData_window [OF _ mem g] waits.IH show ?case by simp
next
  case (decodes posted rb s d d' rb' s')
  obtain h e h' e' where d: "d = (h, e)" "d' = (h', e')" by (cases d, cases d')
  obtain stat rb1 where g: "getData junk realloc (stream_read mv) rb s = (Some stat, rb1, s')" "0 < stat"
    "decode_loop (recording gl) (recording gl2) (recording rc) rb1 d = Inr (rb', d')"
    using decodes.hyps(2) by (auto simp: render_turn_def split: prod.splits option.splits if_splits sum.splits)
  from getData_window [OF _ mem g(1)] g(2) decodes.IH have w: "window_ok rb1 s'"
    "rb_data rb1 @ unread s' = rb_data rb @ unread s" by auto
  then have ok: "rb_ok rb1" by (simp add: window_ok_def)
  have l: "length (rb_buf rb') = length (rb_buf rb1)"
    using decode_loop_ok [OF dec [THEN recording_sound] ok, of d] g(3) by (auto simp: decoded_def)
  have r: "rb_ok rb' \<and> h' @ rb_data rb' = h @ rb_data rb1"
    using decode_loop_recording [OF dec ok] g(3) d by simp
  then have "h @ rb_data rb1 @ unread s' = h' @ rb_data rb' @ unread s'" by (metis append_assoc)
  with r w l decodes.IH show ?case by (simp add: window_ok_def d)
qed

section \<open>Leaving\<close>

lemma bindContext_none:
  assumes "bindContext api 0 0 0 r ti = (ok, r', ti')"
  shows "rn_contexts r' = rn_contexts r \<and> rn_windows r' = rn_windows r \<and> rn_colorbuffers r' = rn_colorbuffers r \<and>
    ti_context_set ti' = ti_context_set ti \<and> ti_window_set ti' = ti_window_set ti \<and>
    (ok \<longrightarrow> ti_context ti' = None \<and> ti_draw ti' = None \<and> ti_read ti' = None)"
  using assms
  by (auto simp: bindContext_def bind_targets_def Let_def update_surface_def split: prod.splits bool.splits option.splits if_splits)

lemma drain_windows_contexts: "rn_contexts (fold drain_window hs r) = rn_contexts r"
  by (induction hs arbitrary: r) (auto simp: drain_window_def split: option.splits)

section \<open>Properties\<close>

text \<open>
  C4. Nothing on the way from the socket to the decoders is lost, repeated or reordered: in
  every state that posts, turns of the render thread and the closing of the stream can reach,
  the bytes the three decoders have consumed so far, followed by the window and the bytes still
  unread, are the bytes the stream took, however they were split and however much the decoders
  left for later. Memory beyond half the address space is never granted.
\<close>

theorem render_thread_in_order:
  assumes "sound_decoder gl" "sound_decoder gl2" "sound_decoder rc" and "\<And>n. realloc n \<Longrightarrow> n < 2 ^ 63"
    and "render_runs junk realloc mv (recording gl) (recording gl2) (recording rc) ([], d0) posted rb s (consumed, d)"
  shows "posted = consumed @ rb_data rb @ unread s"
  using render_runs_inv [OF assms(1-3) _ assms(5)] assms(4) by simp

text \<open>
  C5. A turn of the render thread ends: it waits if nothing was posted, ends the thread if the
  stream was closed and is empty, and otherwise returns with a window on which a round of all
  three decoders makes no progress, so no complete command is left undecoded. The window
  is below 1 GB and memory is granted.
\<close>

theorem render_turn_complete:
  assumes "sound_decoder gl" "sound_decoder gl2" "sound_decoder rc" and "realloc = (\<lambda>n. True)"
    and "rb_ok rb" "0 < length (rb_buf rb)" "length (rb_buf rb) < 2 ^ 30" "in_ok s"
  shows "case render_turn junk realloc mv gl gl2 rc rb s d of
      (Turn_waits, rb', s') \<Rightarrow> unread s = [] \<and> \<not> bq_closed (is_in s)
    | (Turn_ends, rb', s') \<Rightarrow> unread s = [] \<and> bq_closed (is_in s)
    | (Turn_done d', rb', s') \<Rightarrow> unread s \<noteq> [] \<and> (\<exists>d0. decode_round gl gl2 rc rb' d0 = Inr (False, rb', d'))
    | (Turn_fails e, rb', s') \<Rightarrow> False"
proof -
  obtain r rb1 s1 where g: "getData junk realloc (stream_read mv) rb s = (r, rb1, s1)" by (metis prod_cases3)
  have "length (rb_buf rb) < 2 ^ 63" using assms(7) by simp
  from stream.getData_ok [OF assms(5,6) this assms(8), of realloc junk mv] g
  have post: "getData_post in_ok unread (\<lambda>s. bq_closed (is_in s)) realloc rb s (r, rb1, s1)" by simp
  show ?thesis
  proof (cases "r = None \<or> r = Some (- 1)")
    case True
    moreover have "realloc (2 * length (rb_buf rb))" using assms(4) by simp
    ultimately show ?thesis
      using post assms(7) unfolding render_turn_def g by (auto simp: getData_post_def)
  next
    case False
    then have p: "rb_ok rb1" "rb_valid rb < rb_valid rb1" "unread s \<noteq> []"
      "r = Some (s32 (int (rb_valid rb1 - rb_valid rb)))" "rb_valid rb1 < 2 ^ 31"
      using post assms(7) by (auto simp: getData_post_def rb_ok_def)
    then have "s32 (int (rb_valid rb1 - rb_valid rb)) = int (rb_valid rb1 - rb_valid rb)"
      by (intro s32_nat) simp
    with p have "\<exists>stat. r = Some stat \<and> 0 < stat" by simp
    then obtain stat where "r = Some stat" "0 < stat" by blast
    moreover obtain rb' d0 d' where "decode_loop gl gl2 rc rb1 d = Inr (rb', d')"
      "decode_round gl gl2 rc rb' d0 = Inr (False, rb', d')"
      using decode_loop_ok [OF assms(1-3) p(1), of d] by blast
    ultimately show ?thesis using p(3) unfolding render_turn_def g by (simp add: exI [of _ d0])
  qed
qed

text \<open>Decoders for the witnesses: pairs of equal bytes, anything after a zero, nothing.\<close>

definition pair_decoder :: "nat decoder" where
  "pair_decoder bs d = (case bs of b # c # cs \<Rightarrow> if b = c then (2, d + 1) else (0, d) | _ \<Rightarrow> (0, d))"

definition zero_decoder :: "nat decoder" where
  "zero_decoder bs d = (case bs of b # cs \<Rightarrow> if b = 0 then (length bs, d) else (0, d) | [] \<Rightarrow> (0, d))"

definition idle_decoder :: "nat decoder" where
  "idle_decoder bs d = (0, d)"

lemma sample_decoders_sound:
  "sound_decoder pair_decoder" "sound_decoder zero_decoder" "sound_decoder idle_decoder"
  by (auto simp: sound_decoder_def pair_decoder_def zero_decoder_def idle_decoder_def split: list.split)

theorem render_turn_complete_witness:
  "fst (render_turn (\<lambda>i. 0) (\<lambda>n. True) (\<lambda>b. b) pair_decoder zero_decoder idle_decoder
      (new_read_buffer (\<lambda>i. 0) 4) (new_io_stream (\<lambda>i. 0) 384) 0) = Turn_waits"
proof -
  let ?s = "new_io_stream (\<lambda>i. 0) 384" and ?rb = "new_read_buffer (\<lambda>i. 0) 4"
  have "rb_ok ?rb" "length (rb_buf ?rb) = 4" by (simp_all add: new_read_buffer_def rb_ok_def)
  then show ?thesis
    using render_turn_complete [OF sample_decoders_sound refl, of ?rb ?s "\<lambda>i. 0" "\<lambda>b. b" 0]
      new_stream_ok(1,2) [of "\<lambda>i. 0" 384]
    by (simp add: new_io_stream_def new_buffer_queue_def split: prod.splits turn.splits)
qed

theorem render_thread_in_order_witness:
  "\<exists>rb s. render_runs (\<lambda>i. 0) (\<lambda>n. n < 1000) (\<lambda>b. b) (recording pair_decoder) (recording zero_decoder)
       (recording idle_decoder) ([], 0) [5, 5, 6] rb s ([], 0) \<and>
     [5, 5, 6] = [] @ rb_data rb @ unread s"
proof -
  let ?P = "render_runs (\<lambda>i. 0) (\<lambda>n. n < 1000) (\<lambda>b. b) (recording pair_decoder) (recording zero_decoder)
       (recording idle_decoder) ([], 0)"
  let ?s = "new_io_stream (\<lambda>i. 0) 384"
  let ?rb = "new_read_buffer (\<lambda>i. 0) (4 * 1024 * 1024)"
  obtain s ns where "gles_process_data [5, 5, 6] ?s = Return (True, s, ns)"
    by (auto simp: gles_process_data_def post_data_def push_locked_def new_io_stream_def new_buffer_queue_def
        case_prod_unfold)
  moreover have "\<not> bq_closed (is_in ?s)" by (simp add: new_io_stream_def new_buffer_queue_def)
  ultimately have "?P ([] @ [5, 5, 6]) ?rb s ([], 0)" by (intro posts [OF start])
  then have r: "?P [5, 5, 6] ?rb s ([], 0)" by simp
  have "[5, 5, 6] = [] @ rb_data ?rb @ unread s"
    by (rule render_thread_in_order [OF sample_decoders_sound _ r]) simp
  with r show ?thesis by blast
qed

text \<open>
  C8. A render thread that ends leaves nothing behind: none of the contexts and window surfaces
  it created is in the renderer's tables any more, those of other threads are all still
  there, and nothing is current for the thread if EGL accepted the unbinding.
\<close>

theorem render_exit_releases:
  assumes "render_exit api r ti = (r', ti')"
  shows "(\<forall>h. map_of (rn_contexts r') h = (if h \<in> set (ti_context_set ti) then None else map_of (rn_contexts r) h)) \<and>
    (\<forall>h. map_of (rn_windows r') h = (if h \<in> set (ti_window_set ti) then None else map_of (rn_windows r) h)) \<and>
    ti_context_set ti' = [] \<and> ti_window_set ti' = [] \<and>
    (fst (bindContext api 0 0 0 r ti) \<longrightarrow> ti_context ti' = None \<and> ti_draw ti' = None \<and> ti_read ti' = None)"
proof -
  obtain ok r1 ti1 where b: "bindContext api 0 0 0 r ti = (ok, r1, ti1)" by (metis prod_cases3)
  have "r' = (fold drain_window (ti_window_set ti1) r1)
        \<lparr>rn_contexts := fold om_erase (ti_context_set ti1) (rn_contexts (fold drain_window (ti_window_set ti1) r1))\<rparr>"
    "ti' = ti1\<lparr>ti_window_set := [], ti_context_set := []\<rparr>"
    using assms by (auto simp: render_exit_def b drainWindowSurface_def drainRenderContext_def)
  with bindContext_none [OF b] show ?thesis
    by (simp add: b fold_erase_lookup drain_windows_lookup drain_windows_contexts)
qed

theorem render_exit_releases_witness:
  "map_of (rn_contexts (fst (render_exit simple_egl
      ((empty_renderer nothing_current)\<lparr>rn_contexts := [(1, \<lparr>rc_context = 4, rc_isGL2 = True\<rparr>), (2, \<lparr>rc_context = 5, rc_isGL2 = True\<rparr>)]\<rparr>)
      (empty_thread_info\<lparr>ti_context_set := [2]\<rparr>)))) 2 = None"
proof -
  let ?r = "(empty_renderer nothing_current)
      \<lparr>rn_contexts := [(1, \<lparr>rc_context = 4, rc_isGL2 = True\<rparr>), (2, \<lparr>rc_context = 5, rc_isGL2 = True\<rparr>)]\<rparr>"
  let ?ti = "empty_thread_info\<lparr>ti_context_set := [2]\<rparr>"
  obtain r' ti' where e: "render_exit simple_egl ?r ?ti = (r', ti')" by force
  from render_exit_releases [OF e] show ?thesis by (simp add: e)
qed

end
