(* ===== verification/App_Database.thy ===== *)
theory App_Database
  imports Text_Utils
begin

text \<open>
  The database of the applications installed in the container (\<open>application/database.cpp\<close>) and
  the desktop launchers it keeps on disk (\<open>application/launcher_storage.cpp\<close>). The launcher
  directory is a map from file names to entries; whether a file can be opened for writing is the
  parameter \<open>can_open\<close>, the path of the executable and the environment are parameters too.
  Package names hold no directory separator.
\<close>

section \<open>Data\<close>

record intent =
  in_action :: string
  in_uri :: string
  in_type :: string
  in_flags :: int
  in_package :: string
  in_component :: string
  in_categories :: "string list"

record app_item =
  ai_name :: string
  ai_package :: string
  ai_intent :: intent
  ai_icon :: string

definition empty_intent :: intent where
  "empty_intent = \<lparr>in_action = [], in_uri = [], in_type = [], in_flags = 0, in_package = [],
     in_component = [], in_categories = []\<rparr>"

definition unknown_item :: app_item where
  "unknown_item = \<lparr>ai_name = [], ai_package = [], ai_intent = empty_intent, ai_icon = []\<rparr>"

definition item_valid :: "app_item \<Rightarrow> bool" where
  "item_valid item \<longleftrightarrow> length (ai_package item) > 0"

datatype dir_entry = Regular string | Other_entry

record launcher_dir =
  ld_path :: string
  ld_exists :: bool
  ld_files :: "string \<rightharpoonup> dir_entry"

section \<open>LauncherStorage\<close>

definition launcher_reset :: "launcher_dir \<Rightarrow> launcher_dir" where
  "launcher_reset d =
     (if ld_exists d
      then d\<lparr>ld_files := (\<lambda>f. case ld_files d f of
               Some (Regular c) \<Rightarrow> if string_starts_with f ''anbox-'' then None else Some (Regular c)
             | e \<Rightarrow> e)\<rparr>
      else d)"

definition clean_package_name :: "string \<Rightarrow> string" where
  "clean_package_name package_name = map (\<lambda>c. if c = CHR ''.'' then CHR ''-'' else c) package_name"

definition path_for_item :: "string \<Rightarrow> string" where
  "path_for_item package_name = ''anbox-'' @ package_name @ ''.desktop''"

definition path_for_item_icon :: "string \<Rightarrow> string" where
  "path_for_item_icon package_name = ''anbox-'' @ package_name @ ''.png''"

definition option_text :: "string \<Rightarrow> string \<Rightarrow> string" where
  "option_text flag value = (if value = [] then [] else flag @ value @ '' '')"

definition exec_text :: "string \<Rightarrow> (string \<rightharpoonup> string) \<Rightarrow> intent \<Rightarrow> string" where
  "exec_text exe getenv i =
     (if length (get_env_value getenv ''SNAP'' []) > 0 then ''/snap/bin/anbox'' else exe) @ '' launch '' @
     option_text ''--action='' (in_action i) @ option_text ''--type='' (in_type i) @
     option_text ''--uri='' (in_uri i) @ option_text ''--package='' (in_package i) @
     option_text ''--component='' (in_component i)"

definition line :: "string \<Rightarrow> string" where
  "line s = s @ [CHR 0x0A]"

definition desktop_text :: "string \<Rightarrow> (string \<rightharpoonup> string) \<Rightarrow> string \<Rightarrow> app_item \<Rightarrow> string" where
  "desktop_text exe getenv dir item =
     line ''[Desktop Entry]'' @ line (''Name='' @ ai_name item) @
     line (''Exec='' @ exec_text exe getenv (ai_intent item)) @ line ''Terminal=false'' @
     line ''Type=Application'' @
     line (''Icon='' @ dir @ ''/'' @ path_for_item_icon (clean_package_name (ai_package item)))"

definition launcher_add ::
  "(string \<Rightarrow> bool) \<Rightarrow> string \<Rightarrow> (string \<rightharpoonup> string) \<Rightarrow> app_item \<Rightarrow> launcher_dir \<Rightarrow> exn option \<times> launcher_dir" where
  "launcher_add can_open exe getenv item d =
     (let d = d\<lparr>ld_exists := True\<rparr>;
          package_name = clean_package_name (ai_package item);
          f = path_for_item package_name; g = path_for_item_icon package_name
      in if \<not> can_open f then (Some (Runtime_error ''Failed to create desktop item''), d)
         else
           (let d = d\<lparr>ld_files := (ld_files d)(f \<mapsto> Regular (desktop_text exe getenv (ld_path d) item))\<rparr>
            in if \<not> can_open g then (Some (Runtime_error ''Failed to write icon''), d)
               else (None, d\<lparr>ld_files := (ld_files d)(g \<mapsto> Regular (ai_icon item))\<rparr>)))"

definition launcher_remove :: "app_item \<Rightarrow> launcher_dir \<Rightarrow> launcher_dir" where
  "launcher_remove item d =
     (let package_name = clean_package_name (ai_package item)
      in d\<lparr>ld_files := (ld_files d)(path_for_item package_name := None, path_for_item_icon package_name := None)\<rparr>)"

section \<open>Database\<close>

record app_database =
  db_storage :: launcher_dir
  db_items :: "(string, app_item) omap"
  db_done_reset :: bool

definition store_or_update ::
  "(string \<Rightarrow> bool) \<Rightarrow> string \<Rightarrow> (string \<rightharpoonup> string) \<Rightarrow> app_item \<Rightarrow> app_database \<Rightarrow> exn option \<times> app_database" where
  "store_or_update can_open exe getenv item db =
     (let db = (if db_done_reset db then db
                else db\<lparr>db_storage := launcher_reset (db_storage db), db_done_reset := True\<rparr>)
      in (case launcher_add can_open exe getenv item (db_storage db) of
            (Some e, d) \<Rightarrow> (Some e, db\<lparr>db_storage := d\<rparr>)
          | (None, d) \<Rightarrow>
              (None, db\<lparr>db_storage := d, db_items := om_put (ai_package item) (item\<lparr>ai_icon := []\<rparr>) (db_items db)\<rparr>)))"

definition db_remove :: "app_item \<Rightarrow> app_database \<Rightarrow> app_database" where
  "db_remove item db =
     (case map_of (db_items db) (ai_package item) of
        None \<Rightarrow> db
      | Some _ \<Rightarrow> db\<lparr>db_storage := launcher_remove item (db_storage db),
                     db_items := om_erase (ai_package item) (db_items db)\<rparr>)"

definition find_by_package :: "string \<Rightarrow> app_database \<Rightarrow> app_item" where
  "find_by_package package db =
     (case map_of (db_items db) package of None \<Rightarrow> unknown_item | Some item \<Rightarrow> item)"

definition new_database :: "launcher_dir \<Rightarrow> app_database" where
  "new_database d = \<lparr>db_storage = d, db_items = [], db_done_reset = False\<rparr>"

section \<open>File names\<close>

lemma clean_inj:
  assumes "clean_package_name p = clean_package_name q" "CHR ''-'' \<notin> set p" "CHR ''-'' \<notin> set q"
  shows "p = q"
  using assms unfolding clean_package_name_def
proof (induction p arbitrary: q)
  case (Cons c p)
  then obtain e q' where q: "q = e # q'" by (cases q) auto
  with Cons show ?case by (auto split: if_splits)
qed simp

lemma item_names [simp]:
  "path_for_item a = path_for_item b \<longleftrightarrow> a = b" "path_for_item_icon a = path_for_item_icon b \<longleftrightarrow> a = b"
  "path_for_item a \<noteq> path_for_item_icon b" "path_for_item_icon b \<noteq> path_for_item a"
  "string_starts_with (path_for_item a) ''anbox-''" "string_starts_with (path_for_item_icon a) ''anbox-''"
proof -
  have "last (path_for_item a) \<noteq> last (path_for_item_icon b)"
    by (simp add: path_for_item_def path_for_item_icon_def)
  then show "path_for_item a \<noteq> path_for_item_icon b" "path_for_item_icon b \<noteq> path_for_item a" by metis+
qed (simp_all add: path_for_item_def path_for_item_icon_def string_starts_with_def)

section \<open>The launchers on disk are those of the database\<close>

definition our_files :: "launcher_dir \<Rightarrow> string \<rightharpoonup> dir_entry" where
  "our_files d f = (if string_starts_with f ''anbox-'' \<and> ld_files d f \<noteq> Some Other_entry then ld_files d f else None)"

definition package_ok :: "string \<Rightarrow> bool" where
  "package_ok p \<longleftrightarrow> CHR ''-'' \<notin> set p"

definition items_ok :: "(string \<rightharpoonup> app_item) \<Rightarrow> bool" where
  "items_ok m \<longleftrightarrow> (\<forall>p item. m p = Some item \<longrightarrow> package_ok p \<and> ai_package item = p \<and> ai_icon item = [])"

definition item_files :: "string \<Rightarrow> string set" where
  "item_files p = {path_for_item (clean_package_name p), path_for_item_icon (clean_package_name p)}"

definition files_ok ::
  "string \<Rightarrow> (string \<rightharpoonup> string) \<Rightarrow> string \<Rightarrow> (string \<rightharpoonup> app_item) \<Rightarrow> (string \<rightharpoonup> dir_entry) \<Rightarrow> bool" where
  "files_ok exe getenv dir m fs \<longleftrightarrow>
     dom fs = (\<Union>p \<in> dom m. item_files p) \<and>
     (\<forall>p item. m p = Some item \<longrightarrow>
        fs (path_for_item (clean_package_name p)) = Some (Regular (desktop_text exe getenv dir item)))"

definition db_inv :: "string \<Rightarrow> (string \<rightharpoonup> string) \<Rightarrow> app_database \<Rightarrow> bool" where
  "db_inv exe getenv db \<longleftrightarrow>
     items_ok (map_of (db_items db)) \<and> (db_items db \<noteq> [] \<longrightarrow> db_done_reset db) \<and>
     (db_done_reset db \<longrightarrow>
        files_ok exe getenv (ld_path (db_storage db)) (map_of (db_items db)) (our_files (db_storage db)))"

lemma our_files_upd:
  "string_starts_with f ''anbox-'' \<Longrightarrow>
     our_files (d\<lparr>ld_files := (ld_files d)(f \<mapsto> Regular c)\<rparr>) = (our_files d)(f \<mapsto> Regular c)"
  "our_files (d\<lparr>ld_files := (ld_files d)(f := None)\<rparr>) = (our_files d)(f := None)"
  by (auto simp: our_files_def fun_eq_iff)

lemma our_files_exists [simp]: "our_files (d\<lparr>ld_exists := b\<rparr>) = our_files d"
  by (simp add: our_files_def fun_eq_iff)

definition dir_ok :: "launcher_dir \<Rightarrow> bool" where
  "dir_ok d \<longleftrightarrow> (\<not> ld_exists d \<longrightarrow> ld_files d = Map.empty)"

lemma our_files_reset: "dir_ok d \<Longrightarrow> our_files (launcher_reset d) = Map.empty"
  by (auto simp: our_files_def launcher_reset_def dir_ok_def fun_eq_iff split: option.splits dir_entry.splits)

lemma launcher_add_files:
  "\<exists>d'. launcher_add (\<lambda>f. True) exe getenv item d = (None, d') \<and> ld_path d' = ld_path d \<and> ld_exists d' \<and>
     our_files d' = (our_files d)
       (path_for_item (clean_package_name (ai_package item)) \<mapsto> Regular (desktop_text exe getenv (ld_path d) item),
        path_for_item_icon (clean_package_name (ai_package item)) \<mapsto> Regular (ai_icon item))"
proof -
  let ?p = "clean_package_name (ai_package item)"
  let ?d1 = "d\<lparr>ld_exists := True\<rparr>"
  let ?d2 = "?d1\<lparr>ld_files := (ld_files ?d1)(path_for_item ?p \<mapsto> Regular (desktop_text exe getenv (ld_path d) item))\<rparr>"
  let ?d3 = "?d2\<lparr>ld_files := (ld_files ?d2)(path_for_item_icon ?p \<mapsto> Regular (ai_icon item))\<rparr>"
  have "launcher_add (\<lambda>f. True) exe getenv item d = (None, ?d3)"
    by (simp add: launcher_add_def Let_def)
  moreover have "our_files ?d3 = (our_files d)(path_for_item ?p \<mapsto> Regular (desktop_text exe getenv (ld_path d) item),
      path_for_item_icon ?p \<mapsto> Regular (ai_icon item))"
    by (simp only: our_files_upd item_names our_files_exists)
  ultimately show ?thesis by (intro exI [of _ ?d3]) simp
qed

lemma launcher_remove_files:
  "our_files (launcher_remove item d) = (our_files d)
     (path_for_item (clean_package_name (ai_package item)) := None,
      path_for_item_icon (clean_package_name (ai_package item)) := None) \<and> ld_path (launcher_remove item d) = ld_path d"
  by (auto simp: launcher_remove_def Let_def our_files_def fun_eq_iff)

lemma desktop_text_icon [simp]: "desktop_text exe getenv dir (item\<lparr>ai_icon := i\<rparr>) = desktop_text exe getenv dir item"
  by (simp add: desktop_text_def)

lemma item_files_disjoint: "package_ok p \<Longrightarrow> package_ok q \<Longrightarrow> p \<noteq> q \<Longrightarrow> item_files p \<inter> item_files q = {}"
  using clean_inj [of p q] by (auto simp: item_files_def package_ok_def)

lemma item_files_neq:
  "items_ok m \<Longrightarrow> m q = Some it \<Longrightarrow> package_ok p \<Longrightarrow> q \<noteq> p \<Longrightarrow>
     path_for_item (clean_package_name q) \<notin> item_files p \<and> item_files q \<inter> item_files p = {}"
  using item_files_disjoint [of q p] by (auto simp: items_ok_def item_files_def)

lemma files_ok_put:
  assumes "files_ok exe getenv dir m fs" "items_ok m" "package_ok (ai_package item)"
  shows "files_ok exe getenv dir (m(ai_package item \<mapsto> item\<lparr>ai_icon := []\<rparr>))
    (fs(path_for_item (clean_package_name (ai_package item)) \<mapsto> Regular (desktop_text exe getenv dir item),
        path_for_item_icon (clean_package_name (ai_package item)) \<mapsto> Regular i))"
proof -
  let ?p = "ai_package item"
  have "(\<Union>q \<in> dom (m(?p \<mapsto> item\<lparr>ai_icon := []\<rparr>)). item_files q) = item_files ?p \<union> (\<Union>q \<in> dom m. item_files q)"
    by auto
  moreover have "path_for_item (clean_package_name q) \<notin> item_files ?p" if "m q = Some it" "q \<noteq> ?p" for q it
    using item_files_neq [OF assms(2) that(1) assms(3) that(2)] by simp
  ultimately show ?thesis
    using assms(1) by (auto simp: files_ok_def item_files_def)
qed

lemma files_ok_delete:
  assumes "files_ok exe getenv dir m fs" "items_ok m" "m p = Some item"
  shows "files_ok exe getenv dir (m(p := None))
    (fs(path_for_item (clean_package_name p) := None, path_for_item_icon (clean_package_name p) := None))"
proof -
  have p: "package_ok p" using assms(2,3) by (simp add: items_ok_def)
  have ne: "path_for_item (clean_package_name q) \<notin> item_files p \<and> item_files q \<inter> item_files p = {}"
    if "m q = Some it" "q \<noteq> p" for q it
    using item_files_neq [OF assms(2) that(1) p that(2)] .
  have "(\<Union>q \<in> dom (m(p := None)). item_files q) = (\<Union>q \<in> dom m. item_files q) - item_files p"
    using ne by (fastforce split: if_splits)
  moreover have "dom (fs(path_for_item (clean_package_name p) := None, path_for_item_icon (clean_package_name p) := None)) =
      dom fs - item_files p"
    by (auto simp: item_files_def)
  moreover have "(fs(path_for_item (clean_package_name p) := None, path_for_item_icon (clean_package_name p) := None))
      (path_for_item (clean_package_name q)) = Some (Regular (desktop_text exe getenv dir it))"
    if "(m(p := None)) q = Some it" for q it
    using that ne [of q it] assms(1) by (auto simp: files_ok_def item_files_def split: if_splits)
  ultimately show ?thesis using assms(1) by (simp add: files_ok_def)
qed

lemma items_ok_put: "items_ok m \<Longrightarrow> package_ok (ai_package item) \<Longrightarrow> items_ok (m(ai_package item \<mapsto> item\<lparr>ai_icon := []\<rparr>))"
  by (simp add: items_ok_def)

lemma items_ok_delete: "items_ok m \<Longrightarrow> items_ok (m(p := None))"
  by (simp add: items_ok_def)

lemma launcher_reset_path [simp]: "ld_path (launcher_reset d) = ld_path d"
  by (simp add: launcher_reset_def)

lemma store_ok:
  assumes "db_inv exe getenv db" "dir_ok (db_storage db)" "package_ok (ai_package item)"
  shows "\<exists>db'. store_or_update (\<lambda>f. True) exe getenv item db = (None, db') \<and> db_inv exe getenv db' \<and>
    dir_ok (db_storage db') \<and> db_done_reset db' \<and> ld_path (db_storage db') = ld_path (db_storage db) \<and>
    map_of (db_items db') = (map_of (db_items db))(ai_package item \<mapsto> item\<lparr>ai_icon := []\<rparr>)"
proof -
  define db1 where "db1 = (if db_done_reset db then db
    else db\<lparr>db_storage := launcher_reset (db_storage db), db_done_reset := True\<rparr>)"
  have db: "db_items db1 = db_items db" "ld_path (db_storage db1) = ld_path (db_storage db)"
    "files_ok exe getenv (ld_path (db_storage db)) (map_of (db_items db)) (our_files (db_storage db1))"
    using assms(1) our_files_reset [OF assms(2)] by (auto simp: db1_def db_inv_def files_ok_def)
  have dn: "db_done_reset db1" by (simp add: db1_def)
  obtain d' where d': "launcher_add (\<lambda>f. True) exe getenv item (db_storage db1) = (None, d')"
    "ld_path d' = ld_path (db_storage db)" "ld_exists d'"
    "our_files d' = (our_files (db_storage db1))
       (path_for_item (clean_package_name (ai_package item)) \<mapsto> Regular (desktop_text exe getenv (ld_path (db_storage db)) item),
        path_for_item_icon (clean_package_name (ai_package item)) \<mapsto> Regular (ai_icon item))"
    using launcher_add_files [of exe getenv item "db_storage db1"] db(2) by auto
  have "items_ok (map_of (db_items db))" using assms(1) by (simp add: db_inv_def)
  note keep = files_ok_put [OF db(3) this assms(3), of "ai_icon item"] items_ok_put [OF this assms(3)]
  let ?db' = "db1\<lparr>db_storage := d', db_items := om_put (ai_package item) (item\<lparr>ai_icon := []\<rparr>) (db_items db1)\<rparr>"
  have "store_or_update (\<lambda>f. True) exe getenv item db = (None, ?db')"
    using d'(1) by (simp add: store_or_update_def Let_def flip: db1_def)
  moreover have "db_inv exe getenv ?db'"
    using keep d'(2) dn by (simp add: db_inv_def d'(4) db(1))
  ultimately show ?thesis
    using d'(2,3) dn db(1) by (intro exI [of _ ?db']) (simp add: dir_ok_def)
qed

lemma remove_ok:
  assumes "db_inv exe getenv db" "dir_ok (db_storage db)"
  shows "db_inv exe getenv (db_remove item db) \<and> dir_ok (db_storage (db_remove item db)) \<and>
    db_done_reset (db_remove item db) = db_done_reset db \<and>
    ld_path (db_storage (db_remove item db)) = ld_path (db_storage db) \<and>
    map_of (db_items (db_remove item db)) = (map_of (db_items db))(ai_package item := None)"
proof (cases "map_of (db_items db) (ai_package item)")
  case None
  with assms show ?thesis by (simp add: db_remove_def fun_upd_idem)
next
  case (Some it)
  then have r: "db_done_reset db" "items_ok (map_of (db_items db))"
    "files_ok exe getenv (ld_path (db_storage db)) (map_of (db_items db)) (our_files (db_storage db))"
    using assms(1) by (auto simp: db_inv_def)
  have "dir_ok (launcher_remove item (db_storage db))"
    using assms(2) by (simp add: dir_ok_def launcher_remove_def Let_def)
  then show ?thesis
    using r Some files_ok_delete [OF r(3,2) Some] items_ok_delete [OF r(2)] launcher_remove_files [of item "db_storage db"]
    by (simp add: db_remove_def db_inv_def)
qed

section \<open>Sequences of operations\<close>

datatype db_op = Store app_item | Remove app_item

fun db_run :: "string \<Rightarrow> (string \<rightharpoonup> string) \<Rightarrow> db_op list \<Rightarrow> app_database \<Rightarrow> app_database" where
  "db_run exe getenv [] db = db"
| "db_run exe getenv (Store item # ops) db =
     db_run exe getenv ops (snd (store_or_update (\<lambda>f. True) exe getenv item db))"
| "db_run exe getenv (Remove item # ops) db = db_run exe getenv ops (db_remove item db)"

fun db_spec :: "db_op list \<Rightarrow> (string \<rightharpoonup> app_item) \<Rightarrow> (string \<rightharpoonup> app_item)" where
  "db_spec [] m = m"
| "db_spec (Store item # ops) m = db_spec ops (m(ai_package item \<mapsto> item\<lparr>ai_icon := []\<rparr>))"
| "db_spec (Remove item # ops) m = db_spec ops (m(ai_package item := None))"

definition is_store :: "db_op \<Rightarrow> bool" where
  "is_store op \<longleftrightarrow> (case op of Store _ \<Rightarrow> True | Remove _ \<Rightarrow> False)"

lemma db_run_inv:
  assumes "db_inv exe getenv db" "dir_ok (db_storage db)" "\<And>item. Store item \<in> set ops \<Longrightarrow> package_ok (ai_package item)"
  shows "db_inv exe getenv (db_run exe getenv ops db) \<and>
    map_of (db_items (db_run exe getenv ops db)) = db_spec ops (map_of (db_items db)) \<and>
    ld_path (db_storage (db_run exe getenv ops db)) = ld_path (db_storage db) \<and>
    (db_done_reset db \<or> (\<exists>op \<in> set ops. is_store op) \<longrightarrow> db_done_reset (db_run exe getenv ops db))"
  using assms
proof (induction ops arbitrary: db)
  case (Cons op ops)
  show ?case
  proof (cases op)
    case (Store item)
    then have "package_ok (ai_package item)" using Cons.prems(3) by simp
    from store_ok [OF Cons.prems(1,2) this] obtain db' where
      s: "store_or_update (\<lambda>f. True) exe getenv item db = (None, db')" "db_inv exe getenv db'"
      "dir_ok (db_storage db')" "db_done_reset db'" "ld_path (db_storage db') = ld_path (db_storage db)"
      "map_of (db_items db') = (map_of (db_items db))(ai_package item \<mapsto> item\<lparr>ai_icon := []\<rparr>)" by blast
    have "package_ok (ai_package i)" if "Store i \<in> set ops" for i using that Cons.prems(3) by simp
    from Cons.IH [OF s(2,3) this, unfolded s(5,6)] s(1,4) show ?thesis unfolding Store by (simp add: fun_upd_def)
  next
    case (Remove item)
    note r = remove_ok [OF Cons.prems(1,2), of item]
    have "package_ok (ai_package i)" if "Store i \<in> set ops" for i using that Cons.prems(3) by simp
    with Cons.IH [of "db_remove item db"] r show ?thesis unfolding Remove by (simp add: is_store_def fun_upd_def)
  qed
qed simp

section \<open>Properties\<close>


definition sample_item :: "string \<Rightarrow> app_item" where
  "sample_item p = unknown_item\<lparr>ai_package := p, ai_icon := ''PNG''\<rparr>"


end
