(* ===== verification/Android_Bridge.thy ===== *)
theory Android_Bridge
  imports App_Database Window_Manager
begin

text \<open>
  The bridge to the Android side: the wait handle of a pending call (\<open>common/wait_handle.cpp\<close>),
  the calls into Android (\<open>bridge/android_api_stub.cpp\<close>) and the requests and events that come
  from there (\<open>bridge/platform_api_skeleton.cpp\<close>, \<open>bridge/platform_message_processor.cpp\<close>).
  Protobuf messages are records of their fields; parsing them is a parameter. A call that waits
  gets the number of answers that arrive before its limit runs out.
\<close>

section \<open>WaitHandle\<close>

record wait_handle =
  wh_expecting :: int
  wh_received :: int

definition new_wait_handle :: wait_handle where
  "new_wait_handle = \<lparr>wh_expecting = 0, wh_received = 0\<rparr>"

definition expect_result :: "wait_handle \<Rightarrow> wait_handle" where
  "expect_result h = h\<lparr>wh_expecting := s32 (wh_expecting h + 1)\<rparr>"

definition result_received :: "wait_handle \<Rightarrow> wait_handle" where
  "result_received h = h\<lparr>wh_received := s32 (wh_received h + 1)\<rparr>"

text \<open>The waits that may block for ever: \<open>None\<close> while the condition does not hold.\<close>

definition wait_for_all :: "wait_handle \<Rightarrow> wait_handle option" where
  "wait_for_all h = (if wh_received h = wh_expecting h then Some (h\<lparr>wh_received := 0, wh_expecting := 0\<rparr>) else None)"

definition wait_for_one :: "wait_handle \<Rightarrow> wait_handle option" where
  "wait_for_one h =
     (if wh_received h \<noteq> 0
      then Some (h\<lparr>wh_received := s32 (wh_received h - 1), wh_expecting := s32 (wh_expecting h - 1)\<rparr>)
      else None)"

text \<open>
  The wait with a limit, during which \<open>n\<close> results arrive: it ends as soon as as many were
  received as expected, or when the limit is over. Neither counter is reset.
\<close>

fun wait_for_pending :: "nat \<Rightarrow> wait_handle \<Rightarrow> wait_handle" where
  "wait_for_pending 0 h = h"
| "wait_for_pending (Suc n) h =
     (if wh_received h = wh_expecting h then h else wait_for_pending n (result_received h))"

definition has_result :: "wait_handle \<Rightarrow> bool" where
  "has_result h \<longleftrightarrow> wh_received h > 0"

definition is_pending :: "wait_handle \<Rightarrow> bool" where
  "is_pending h \<longleftrightarrow> wh_expecting h > 0 \<and> wh_received h \<noteq> wh_expecting h"

section \<open>AndroidApiStub\<close>

datatype launch_stack = LAUNCH_DEFAULT | LAUNCH_FULLSCREEN | LAUNCH_FREEFORM

record launch_msg =
  lm_stack :: "launch_stack option"
  lm_bounds :: "rect option"
  lm_action :: "string option"
  lm_uri :: "string option"
  lm_type :: "string option"
  lm_package :: "string option"
  lm_component :: "string option"
  lm_categories :: "string list"

datatype bridge_call =
    Call_launch_application launch_msg
  | Call_set_focused_task int
  | Call_remove_task int
  | Call_resize_task int rect int

record api_stub =
  as_channel :: bool
  as_launch_wait :: wait_handle
  as_focused_wait :: wait_handle
  as_remove_wait :: wait_handle
  as_resize_wait :: wait_handle
  as_launch_bounds :: rect              \<comment> \<open>the member \<open>launch_bounds_\<close>\<close>
  as_calls :: "bridge_call list"

definition new_api_stub :: api_stub where
  "new_api_stub = \<lparr>as_channel = False, as_launch_wait = new_wait_handle, as_focused_wait = new_wait_handle,
     as_remove_wait = new_wait_handle, as_resize_wait = new_wait_handle,
     as_launch_bounds = rect_Invalid, as_calls = []\<rparr>"

definition set_rpc_channel :: "api_stub \<Rightarrow> api_stub" where
  "set_rpc_channel s = s\<lparr>as_channel := True\<rparr>"

definition reset_rpc_channel :: "api_stub \<Rightarrow> api_stub" where
  "reset_rpc_channel s = s\<lparr>as_channel := False\<rparr>"

definition ensure_rpc_channel :: "api_stub \<Rightarrow> unit res" where
  "ensure_rpc_channel s = (if as_channel s then Inr () else Inl (Runtime_error ''No remote client connected''))"

text \<open>
  What the four calls do after they have built their message: \<open>n\<close> results arrive on the handle
  in time, \<open>error\<close> is the error field of the call's own response by then.
\<close>

definition wait_result :: "nat \<Rightarrow> string option \<Rightarrow> wait_handle \<Rightarrow> unit res \<times> wait_handle" where
  "wait_result n error h =
     (let h = wait_for_pending n h
      in if \<not> has_result h then (Inl (Runtime_error ''RPC call timed out''), h)
         else (case error of Some e \<Rightarrow> (Inl (Runtime_error e), h) | None \<Rightarrow> (Inr (), h)))"

definition stack_msg :: "stack_id \<Rightarrow> launch_stack option" where
  "stack_msg stack =
     (case stack of
        Stack_Default \<Rightarrow> Some LAUNCH_DEFAULT
      | Stack_Fullscreen \<Rightarrow> Some LAUNCH_FULLSCREEN
      | Stack_Freeform \<Rightarrow> Some LAUNCH_FREEFORM
      | Stack_Invalid \<Rightarrow> None)"

definition non_empty :: "string \<Rightarrow> string option" where
  "non_empty s = (if s = [] then None else Some s)"

definition launch_message :: "rect \<Rightarrow> intent \<Rightarrow> rect \<Rightarrow> stack_id \<Rightarrow> launch_msg" where
  "launch_message member_bounds i launch_bounds stack =
     \<lparr>lm_stack = stack_msg stack,
      lm_bounds = (if launch_bounds \<noteq> rect_Invalid then Some member_bounds else None),
      lm_action = non_empty (in_action i), lm_uri = non_empty (in_uri i), lm_type = non_empty (in_type i),
      lm_package = non_empty (in_package i), lm_component = non_empty (in_component i),
      lm_categories = in_categories i\<rparr>"

definition launch ::
  "intent \<Rightarrow> rect \<Rightarrow> stack_id \<Rightarrow> nat \<Rightarrow> string option \<Rightarrow> api_stub \<Rightarrow> unit res \<times> api_stub" where
  "launch i launch_bounds stack n error s =
     (case ensure_rpc_channel s of
        Inl e \<Rightarrow> (Inl e, s)
      | Inr _ \<Rightarrow>
          (let h = expect_result (as_launch_wait s);
               call = Call_launch_application (launch_message (as_launch_bounds s) i launch_bounds stack)
           in (case wait_result n error h of
                 (r, h) \<Rightarrow> (r, s\<lparr>as_launch_wait := h, as_calls := as_calls s @ [call]\<rparr>))))"

definition set_focused_task :: "int \<Rightarrow> nat \<Rightarrow> string option \<Rightarrow> api_stub \<Rightarrow> unit res \<times> api_stub" where
  "set_focused_task task n error s =
     (case ensure_rpc_channel s of
        Inl e \<Rightarrow> (Inl e, s)
      | Inr _ \<Rightarrow>
          (case wait_result n error (expect_result (as_focused_wait s)) of
             (r, h) \<Rightarrow> (r, s\<lparr>as_focused_wait := h, as_calls := as_calls s @ [Call_set_focused_task task]\<rparr>)))"

definition remove_task :: "int \<Rightarrow> nat \<Rightarrow> string option \<Rightarrow> api_stub \<Rightarrow> unit res \<times> api_stub" where
  "remove_task task n error s =
     (case ensure_rpc_channel s of
        Inl e \<Rightarrow> (Inl e, s)
      | Inr _ \<Rightarrow>
          (case wait_result n error (expect_result (as_remove_wait s)) of
             (r, h) \<Rightarrow> (r, s\<lparr>as_remove_wait := h, as_calls := as_calls s @ [Call_remove_task task]\<rparr>)))"

definition resize_task :: "int \<Rightarrow> rect \<Rightarrow> int \<Rightarrow> nat \<Rightarrow> string option \<Rightarrow> api_stub \<Rightarrow> unit res \<times> api_stub" where
  "resize_task task rect mode n error s =
     (case ensure_rpc_channel s of
        Inl e \<Rightarrow> (Inl e, s)
      | Inr _ \<Rightarrow>
          (case wait_result n error (expect_result (as_resize_wait s)) of
             (r, h) \<Rightarrow> (r, s\<lparr>as_resize_wait := h, as_calls := as_calls s @ [Call_resize_task task rect mode]\<rparr>)))"

section \<open>PlatformApiSkeleton\<close>

record window_msg =
  wm_display_id :: int
  wm_has_surface :: bool
  wm_package_name :: string
  wm_frame_left :: int
  wm_frame_top :: int
  wm_frame_right :: int
  wm_frame_bottom :: int
  wm_task_id :: int
  wm_stack_id :: int

record intent_msg =
  im_action :: string
  im_uri :: string
  im_type :: string
  im_package :: string
  im_component :: string
  im_categories :: "string list"

record app_msg =
  am_name :: string
  am_package :: string
  am_launch_intent :: intent_msg
  am_icon :: string

record event_sequence =
  es_boot_finished :: bool
  es_windows :: "(window_msg list \<times> window_msg list) option"      \<comment> \<open>updated, removed\<close>
  es_applications :: "(app_msg list \<times> app_msg list) option"         \<comment> \<open>updated, removed\<close>

text \<open>
  The cast of the number to the enumeration; the code compares stacks only with their named
  values, so any other number acts like \<open>Invalid\<close>.
\<close>

definition stack_of_int :: "int \<Rightarrow> stack_id" where
  "stack_of_int i =
     (if i = 0 then Stack_Default else if i = 1 then Stack_Fullscreen else if i = 2 then Stack_Freeform
      else Stack_Invalid)"

definition convert_window_state :: "window_msg \<Rightarrow> window_state" where
  "convert_window_state window =
     \<lparr>st_display = wm_display_id window, st_has_surface = wm_has_surface window,
      st_frame = mk_rect (wm_frame_left window) (wm_frame_top window) (wm_frame_right window) (wm_frame_bottom window),
      st_package_name = wm_package_name window, st_task = wm_task_id window,
      st_stack = stack_of_int (wm_stack_id window)\<rparr>"

definition handle_window_state_update_event ::
  "'e egl_api \<Rightarrow> ('e, 'p) create_window option \<Rightarrow> (string \<Rightarrow> string option) \<Rightarrow>
   window_msg list \<times> window_msg list \<Rightarrow> ('e, 'p) desktop_scheme \<Rightarrow> exn option \<times> ('e, 'p) desktop_scheme" where
  "handle_window_state_update_event api platform app_db event d =
     apply_window_state_update api platform app_db (map convert_window_state (fst event))
       (map convert_window_state (snd event)) d"

definition convert_application :: "app_msg \<Rightarrow> app_item" where
  "convert_application app =
     (let li = am_launch_intent app
      in \<lparr>ai_name = am_name app, ai_package = am_package app,
          ai_intent = \<lparr>in_action = im_action li, in_uri = im_uri li, in_type = im_uri li, in_flags = 0,
            in_package = im_package li, in_component = im_component li, in_categories = im_categories li\<rparr>,
          ai_icon = am_icon app\<rparr>)"

fun remove_applications :: "app_msg list \<Rightarrow> app_database \<Rightarrow> app_database" where
  "remove_applications [] db = db"
| "remove_applications (app # apps) db =
     remove_applications apps
       (if am_package app = [] then db else db_remove (unknown_item\<lparr>ai_package := am_package app\<rparr>) db)"

fun store_applications ::
  "(string \<Rightarrow> bool) \<Rightarrow> string \<Rightarrow> (string \<rightharpoonup> string) \<Rightarrow> app_msg list \<Rightarrow> app_database \<Rightarrow> exn option \<times> app_database" where
  "store_applications can_open exe getenv [] db = (None, db)"
| "store_applications can_open exe getenv (app # apps) db =
     (if am_package app = [] then store_applications can_open exe getenv apps db
      else (case store_or_update can_open exe getenv (convert_application app) db of
              (Some e, db) \<Rightarrow> (Some e, db)
            | (None, db) \<Rightarrow> store_applications can_open exe getenv apps db))"

definition handle_application_list_update_event ::
  "(string \<Rightarrow> bool) \<Rightarrow> string \<Rightarrow> (string \<rightharpoonup> string) \<Rightarrow> app_msg list \<times> app_msg list \<Rightarrow> app_database \<Rightarrow>
     exn option \<times> app_database" where
  "handle_application_list_update_event can_open exe getenv event db =
     store_applications can_open exe getenv (fst event) (remove_applications (snd event) db)"

definition set_clipboard_data :: "string option \<Rightarrow> string \<Rightarrow> string" where
  "set_clipboard_data text clipboard = (case text of None \<Rightarrow> clipboard | Some t \<Rightarrow> t)"

definition get_clipboard_data :: "string \<Rightarrow> string option" where
  "get_clipboard_data clipboard = non_empty clipboard"

section \<open>PlatformMessageProcessor\<close>

datatype platform_method = Set_clipboard_data | Get_clipboard_data

definition platform_dispatch :: "string \<Rightarrow> platform_method option" where
  "platform_dispatch method_name =
     (if method_name = ''set_clipboard_data'' then Some Set_clipboard_data
      else if method_name = ''get_clipboard_data'' then Some Get_clipboard_data
      else None)"

text \<open>The name of a known application, as the window manager asks for it.\<close>

definition app_name :: "app_database \<Rightarrow> string \<Rightarrow> string option" where
  "app_name db package =
     (let item = find_by_package package db in if item_valid item then Some (ai_name item) else None)"

text \<open>
  The events of one sequence, in the order of the code. The state holds the desktop, the
  database and how often the boot handler ran; an exception leaves the rest undone.
\<close>

definition process_event_sequence ::
  "(string \<Rightarrow> event_sequence option) \<Rightarrow> 'e egl_api \<Rightarrow> ('e, 'p) create_window option \<Rightarrow>
   (string \<Rightarrow> bool) \<Rightarrow> string \<Rightarrow> (string \<rightharpoonup> string) \<Rightarrow> string \<Rightarrow>
   ('e, 'p) desktop_scheme \<times> app_database \<times> nat \<Rightarrow>
   exn option \<times> (('e, 'p) desktop_scheme \<times> app_database \<times> nat)" where
  "process_event_sequence parse api platform can_open exe getenv raw_events st =
     (case st of (d, db, boots) \<Rightarrow>
       (case parse raw_events of
          None \<Rightarrow> (None, st)
        | Some seq \<Rightarrow>
            (let boots = (if es_boot_finished seq then boots + 1 else boots)
             in (case (case es_windows seq of
                         None \<Rightarrow> (None, d)
                       | Some event \<Rightarrow> handle_window_state_update_event api platform (app_name db) event d) of
                   (Some e, d) \<Rightarrow> (Some e, (d, db, boots))
                 | (None, d) \<Rightarrow>
                     (case es_applications seq of
                        None \<Rightarrow> (None, (d, db, boots))
                      | Some event \<Rightarrow>
                          (case handle_application_list_update_event can_open exe getenv event db of
                             (x, db) \<Rightarrow> (x, (d, db, boots))))))))"

section \<open>Applications\<close>

definition app_ops :: "app_msg list \<times> app_msg list \<Rightarrow> db_op list" where
  "app_ops event =
     map (\<lambda>app. Remove (unknown_item\<lparr>ai_package := am_package app\<rparr>)) (filter (\<lambda>app. am_package app \<noteq> []) (snd event)) @
     map (\<lambda>app. Store (convert_application app)) (filter (\<lambda>app. am_package app \<noteq> []) (fst event))"

lemma db_run_append: "db_run exe getenv (ops @ ops') db = db_run exe getenv ops' (db_run exe getenv ops db)"
  by (induction exe getenv ops db rule: db_run.induct) auto

lemma remove_applications_run:
  "remove_applications apps db =
     db_run exe getenv (map (\<lambda>app. Remove (unknown_item\<lparr>ai_package := am_package app\<rparr>)) (filter (\<lambda>app. am_package app \<noteq> []) apps)) db"
  by (induction apps arbitrary: db) auto

lemma fst_store: "fst (store_or_update (\<lambda>f. True) exe getenv item db) = None"
  by (simp add: store_or_update_def launcher_add_def Let_def)

lemma store_applications_run:
  "store_applications (\<lambda>f. True) exe getenv apps db =
     (None, db_run exe getenv (map (\<lambda>app. Store (convert_application app)) (filter (\<lambda>app. am_package app \<noteq> []) apps)) db)"
proof (induction apps arbitrary: db)
  case (Cons app apps)
  obtain db' where "store_or_update (\<lambda>f. True) exe getenv (convert_application app) db = (None, db')"
    using fst_store [of exe getenv "convert_application app" db] by (metis prod.collapse)
  with Cons show ?case by simp
qed simp

lemma handle_applications_run:
  "handle_application_list_update_event (\<lambda>f. True) exe getenv event db = (None, db_run exe getenv (app_ops event) db)"
  by (cases event) (simp add: handle_application_list_update_event_def store_applications_run app_ops_def db_run_append
      remove_applications_run [of _ db exe getenv])

lemma db_spec_append: "db_spec (ops @ ops') m = db_spec ops' (db_spec ops m)"
  by (induction ops m rule: db_spec.induct) (auto simp: fun_upd_def)

lemma convert_package [simp]: "ai_package (convert_application app) = am_package app"
  by (simp add: convert_application_def Let_def)

lemma db_spec_removes:
  "db_spec (map (\<lambda>app. Remove (unknown_item\<lparr>ai_package := am_package app\<rparr>)) apps) m p =
     (if p \<in> am_package ` set apps then None else m p)"
  by (induction apps arbitrary: m) auto

lemma db_spec_stores_other:
  "p \<notin> am_package ` set apps \<Longrightarrow> db_spec (map (\<lambda>app. Store (convert_application app)) apps) m p = m p"
  by (induction apps arbitrary: m) auto

lemma db_spec_stores:
  "distinct (map am_package apps) \<Longrightarrow> app \<in> set apps \<Longrightarrow>
     db_spec (map (\<lambda>app. Store (convert_application app)) apps) m (am_package app) =
       Some ((convert_application app)\<lparr>ai_icon := []\<rparr>)"
proof (induction apps arbitrary: m)
  case (Cons a apps)
  then show ?case by (cases "app = a") (auto simp: db_spec_stores_other)
qed simp

section \<open>Calls\<close>

inductive stub_step :: "api_stub \<Rightarrow> api_stub \<Rightarrow> bool" where
  connects: "stub_step s (set_rpc_channel s)"
| disconnects: "stub_step s (reset_rpc_channel s)"
| launches: "Android_Bridge.launch i b st n e s = (r, s') \<Longrightarrow> stub_step s s'"
| focuses: "set_focused_task t n e s = (r, s') \<Longrightarrow> stub_step s s'"
| removes: "remove_task t n e s = (r, s') \<Longrightarrow> stub_step s s'"
| resizes: "resize_task t rect m n e s = (r, s') \<Longrightarrow> stub_step s s'"

definition launches_unbounded :: "api_stub \<Rightarrow> bool" where
  "launches_unbounded s \<longleftrightarrow> as_launch_bounds s = rect_Invalid \<and>
     (\<forall>m. Call_launch_application m \<in> set (as_calls s) \<longrightarrow> lm_bounds m \<in> {None, Some rect_Invalid})"

lemma launches_unbounded_init: "launches_unbounded new_api_stub"
  by (simp add: launches_unbounded_def new_api_stub_def)

lemma unbounded_call:
  assumes "launches_unbounded s" "as_launch_bounds s' = as_launch_bounds s"
    "as_calls s' = as_calls s \<or> (\<exists>c. as_calls s' = as_calls s @ [c] \<and>
       (\<forall>m. c = Call_launch_application m \<longrightarrow> lm_bounds m \<in> {None, Some (as_launch_bounds s)}))"
  shows "launches_unbounded s'"
  using assms(3)
proof
  assume "as_calls s' = as_calls s"
  with assms(1,2) show ?thesis by (simp add: launches_unbounded_def)
next
  assume "\<exists>c. as_calls s' = as_calls s @ [c] \<and>
    (\<forall>m. c = Call_launch_application m \<longrightarrow> lm_bounds m \<in> {None, Some (as_launch_bounds s)})"
  then obtain c where "as_calls s' = as_calls s @ [c]"
    "\<forall>m. c = Call_launch_application m \<longrightarrow> lm_bounds m \<in> {None, Some (as_launch_bounds s)}" by blast
  with assms(1,2) show ?thesis unfolding launches_unbounded_def by fastforce
qed

lemma launches_unbounded_step: "stub_step s s' \<Longrightarrow> launches_unbounded s \<Longrightarrow> launches_unbounded s'"
  by (erule stub_step.cases; erule unbounded_call)
    (auto simp: set_rpc_channel_def reset_rpc_channel_def launch_def launch_message_def
      set_focused_task_def remove_task_def resize_task_def Let_def split: sum.splits prod.splits if_splits)

section \<open>Properties\<close>

text \<open>
  An update of the application list, when the launchers can be written, removes the
  applications it lists as removed and stores those it lists as installed, ignores entries
  without a package name, and leaves the launchers on disk in step with the database. Every
  stored intent gets the URI of the message as its type, whatever type the message had.
\<close>

theorem application_list_update:
  assumes "db_inv exe getenv db" "dir_ok (db_storage db)"
    and "\<And>app. app \<in> set updated \<Longrightarrow> package_ok (am_package app)"
    and "distinct (map am_package (filter (\<lambda>app. am_package app \<noteq> []) updated))"
  shows "\<exists>db'. handle_application_list_update_event (\<lambda>f. True) exe getenv (updated, removed) db = (None, db') \<and>
    db_inv exe getenv db' \<and>
    (\<forall>app \<in> set updated. am_package app \<noteq> [] \<longrightarrow>
       find_by_package (am_package app) db' = (convert_application app)\<lparr>ai_icon := []\<rparr> \<and>
       in_type (ai_intent (find_by_package (am_package app) db')) = im_uri (am_launch_intent app)) \<and>
    (\<forall>p. p \<notin> am_package ` set updated \<longrightarrow>
       map_of (db_items db') p = (if p \<in> am_package ` set removed \<and> p \<noteq> [] then None else map_of (db_items db) p))"
proof -
  let ?ops = "app_ops (updated, removed)"
  let ?db = "db_run exe getenv ?ops db"
  have h: "handle_application_list_update_event (\<lambda>f. True) exe getenv (updated, removed) db = (None, ?db)"
    by (rule handle_applications_run)
  have "package_ok (ai_package item)" if "Store item \<in> set ?ops" for item
    using that assms(3) by (auto simp: app_ops_def)
  from db_run_inv [OF assms(1,2) this] have inv: "db_inv exe getenv ?db"
    and m: "map_of (db_items ?db) = db_spec ?ops (map_of (db_items db))" by blast+
  have stored: "map_of (db_items ?db) (am_package app) = Some ((convert_application app)\<lparr>ai_icon := []\<rparr>)"
    if "app \<in> set updated" "am_package app \<noteq> []" for app
    unfolding m using db_spec_stores [OF assms(4)] that by (simp add: app_ops_def db_spec_append)
  have "map_of (db_items ?db) p = (if p \<in> am_package ` set removed \<and> p \<noteq> [] then None else map_of (db_items db) p)"
    if "p \<notin> am_package ` set updated" for p
  proof -
    have np: "p \<notin> am_package ` set (filter (\<lambda>app. am_package app \<noteq> []) updated)" using that by auto
    have "map_of (db_items ?db) p =
        (if p \<in> am_package ` set (filter (\<lambda>app. am_package app \<noteq> []) removed) then None else map_of (db_items db) p)"
      unfolding m by (simp only: app_ops_def db_spec_append fst_conv snd_conv db_spec_stores_other [OF np] db_spec_removes)
    then show ?thesis by auto
  qed
  with h inv stored show ?thesis
    by (intro exI [of _ ?db]) (simp add: find_by_package_def convert_application_def Let_def)
qed

definition sample_app :: app_msg where
  "sample_app = \<lparr>am_name = ''Clock'', am_package = ''org.clock'',
     am_launch_intent = \<lparr>im_action = ''main'', im_uri = ''u:1'', im_type = ''text'', im_package = [], im_component = [],
       im_categories = []\<rparr>, am_icon = ''PNG''\<rparr>"

theorem application_list_update_witness:
  "\<exists>db'. handle_application_list_update_event (\<lambda>f. True) ''anbox'' Map.empty ([sample_app], [])
       (new_database \<lparr>ld_path = ''d'', ld_exists = False, ld_files = Map.empty\<rparr>) = (None, db') \<and>
     in_type (ai_intent (find_by_package ''org.clock'' db')) = ''u:1''"
proof -
  let ?db = "new_database \<lparr>ld_path = ''d'', ld_exists = False, ld_files = Map.empty\<rparr>"
  have "db_inv ''anbox'' Map.empty ?db" "dir_ok (db_storage ?db)"
    by (simp_all add: new_database_def db_inv_def items_ok_def dir_ok_def)
  from application_list_update [OF this, of "[sample_app]" "[]"] show ?thesis
    by (simp add: sample_app_def package_ok_def) blast
qed

text \<open>
  A call into Android that gets no answer is reported as timed out only if no call of the
  same kind was ever answered: the wait handle is never reset, so after \<open>k\<close> answered calls a
  call that no answer arrives for returns as if it had succeeded.
\<close>

theorem rpc_timeout_unnoticed:
  assumes "as_channel s" "0 \<le> k" "k < 2 ^ 31 - 1"
    and "as_launch_wait s = \<lparr>wh_expecting = k, wh_received = k\<rparr>" "as_focused_wait s = \<lparr>wh_expecting = k, wh_received = k\<rparr>"
    and "as_remove_wait s = \<lparr>wh_expecting = k, wh_received = k\<rparr>" "as_resize_wait s = \<lparr>wh_expecting = k, wh_received = k\<rparr>"
  shows "let result = (if k = 0 then Inl (Runtime_error ''RPC call timed out'') else Inr ()) in
    fst (launch i b st 0 None s) = result \<and> fst (set_focused_task t 0 None s) = result \<and>
    fst (remove_task t 0 None s) = result \<and> fst (resize_task t rect m 0 None s) = result"
  using assms
  by (simp add: launch_def set_focused_task_def remove_task_def resize_task_def ensure_rpc_channel_def wait_result_def
      has_result_def expect_result_def)

text \<open>How a handle gets there: a call whose answer arrives in time leaves both counters equal.\<close>

lemma answered_call:
  assumes "as_channel s" "as_launch_wait s = \<lparr>wh_expecting = k, wh_received = k\<rparr>" "0 \<le> k" "k < 2 ^ 31 - 1" "0 < n"
  shows "fst (launch i b st n None s) = Inr () \<and>
    as_launch_wait (snd (launch i b st n None s)) = \<lparr>wh_expecting = k + 1, wh_received = k + 1\<rparr>"
proof -
  obtain j where n: "n = Suc j" using assms(5) by (cases n) auto
  have s: "s32 (k + 1) = k + 1" using assms(3,4) by (simp add: in_s32_def)
  have "wait_for_pending j \<lparr>wh_expecting = k + 1, wh_received = k + 1\<rparr> = \<lparr>wh_expecting = k + 1, wh_received = k + 1\<rparr>"
    by (cases j) simp_all
  then show ?thesis
    using assms by (simp add: launch_def ensure_rpc_channel_def wait_result_def n has_result_def expect_result_def
        result_received_def s)
qed

theorem rpc_timeout_unnoticed_witness:
  "fst (remove_task 3 0 None (new_api_stub\<lparr>as_channel := True, as_launch_wait := \<lparr>wh_expecting = 1, wh_received = 1\<rparr>,
     as_focused_wait := \<lparr>wh_expecting = 1, wh_received = 1\<rparr>, as_remove_wait := \<lparr>wh_expecting = 1, wh_received = 1\<rparr>,
     as_resize_wait := \<lparr>wh_expecting = 1, wh_received = 1\<rparr>\<rparr>)) = Inr ()"
  using rpc_timeout_unnoticed [of "new_api_stub\<lparr>as_channel := True, as_launch_wait := \<lparr>wh_expecting = 1, wh_received = 1\<rparr>,
     as_focused_wait := \<lparr>wh_expecting = 1, wh_received = 1\<rparr>, as_remove_wait := \<lparr>wh_expecting = 1, wh_received = 1\<rparr>,
     as_resize_wait := \<lparr>wh_expecting = 1, wh_received = 1\<rparr>\<rparr>" 1 empty_intent rect_Invalid Stack_Default 3 rect_Invalid 0]
  by (simp add: Let_def)

text \<open>
  No application is ever launched at the bounds the caller asked for: whatever calls are
  made, every launch request sent so far either has no bounds or has the invalid rectangle, and
  it has the invalid rectangle exactly when bounds were asked for.
\<close>

theorem launch_bounds_lost:
  assumes "stub_step\<^sup>*\<^sup>* new_api_stub s" "as_channel s" "b \<noteq> rect_Invalid"
  shows "(\<forall>m. Call_launch_application m \<in> set (as_calls s) \<longrightarrow> lm_bounds m \<in> {None, Some rect_Invalid}) \<and>
    (\<exists>m. last (as_calls (snd (launch i b st n e s))) = Call_launch_application m \<and> lm_bounds m = Some rect_Invalid)"
proof -
  have "launches_unbounded s"
    using assms(1) by (induction rule: rtranclp_induct)
      (auto intro: launches_unbounded_step launches_unbounded_init)
  moreover from this have "\<exists>m. last (as_calls (snd (launch i b st n e s))) = Call_launch_application m \<and>
      lm_bounds m = Some rect_Invalid"
    using assms(2,3)
    by (simp add: launches_unbounded_def launch_def ensure_rpc_channel_def launch_message_def Let_def split: prod.split)
  ultimately show ?thesis by (simp add: launches_unbounded_def)
qed

theorem launch_bounds_lost_witness:
  "\<exists>m. last (as_calls (snd (launch empty_intent (mk_rect 0 0 100 100) Stack_Freeform 1 None (set_rpc_channel new_api_stub)))) =
      Call_launch_application m \<and> lm_bounds m = Some rect_Invalid"
proof -
  have "stub_step\<^sup>*\<^sup>* new_api_stub (set_rpc_channel new_api_stub)" by (auto intro: connects)
  from launch_bounds_lost [OF this, of "mk_rect 0 0 100 100"] show ?thesis
    by (simp add: set_rpc_channel_def rect_Invalid_def mk_rect_def)
qed

end
