(* ===== verification/Lxc_Container.thy ===== *)
theory Lxc_Container
  imports Text_Utils Binary_Config
begin

text \<open>
  The container of the Android system (\<open>container/lxc_container.cpp\<close>) and the management API
  through which the session starts it (\<open>container/management_api_stub.cpp\<close>,
  \<open>container/management_api_skeleton.cpp\<close>, \<open>container/configuration.h\<close>). The calls into liblxc
  and the kernel are a trace; whether a call succeeds is the parameter \<open>ok\<close>, what the host's
  file system answers the record \<open>host_view\<close>. Hash maps are association lists; the order in
  which the code visits them is unspecified, the model takes the order of insertion.
\<close>

unbundle bit_operations_syntax

section \<open>Configuration\<close>

record device_specification =
  ds_permission :: u32
  ds_old_device_name :: string

record configuration =
  cf_bind_mounts :: "(string \<times> string) list"
  cf_devices :: "(string \<times> device_specification) list"
  cf_extra_properties :: "string list"

text \<open>\<open>unordered_map::insert\<close>: an entry that is there stays.\<close>

definition hm_insert :: "'k \<times> 'v \<Rightarrow> ('k \<times> 'v) list \<Rightarrow> ('k \<times> 'v) list" where
  "hm_insert kv m = (if map_of m (fst kv) = None then m @ [kv] else m)"

section \<open>Calls\<close>

datatype container_call =
    Set_config string string
  | Lxc_new
  | Lxc_put
  | Lxc_stop
  | Lxc_save_config
  | Lxc_start
  | Unlink string
  | Mknod string u32 u64
  | Chown string u32 u32
  | Chmod string u32
  | Remove_all string
  | Remove_file string
  | Create_directories string
  | Write_file string bytes

record file_stat =
  fs_mode :: u32
  fs_uid :: u32
  fs_gid :: u32
  fs_rdev :: u64

record host_view =
  hv_root :: bool                                  \<comment> \<open>\<open>getuid() == 0\<close>\<close>
  hv_exists :: "string \<Rightarrow> bool"
  hv_is_directory :: "string \<Rightarrow> bool"
  hv_stat :: "string \<Rightarrow> file_stat option"
  hv_read_file :: "string \<Rightarrow> string res"           \<comment> \<open>\<open>read_file_if_exists_or_throw\<close>\<close>
  hv_running :: bool                               \<comment> \<open>the container is running\<close>
  hv_binderfs :: bool
  hv_binders :: "string option list"               \<comment> \<open>what \<open>new_device\<close> returns, in order\<close>
  hv_snap_env :: bool
  hv_split :: "string \<Rightarrow> string list"              \<comment> \<open>Boost's split at a slash\<close>
  hv_basename :: "string \<Rightarrow> string"
  hv_data_dir :: string

record build_flags =
  bf_lxc2 :: bool
  bf_snap :: bool

text \<open>An action appends to the trace of calls and may throw.\<close>

type_synonym act = "container_call list \<Rightarrow> exn option \<times> container_call list"

fun seq :: "act list \<Rightarrow> act" where
  "seq [] tr = (None, tr)"
| "seq (a # as) tr = (case a tr of (Some e, tr) \<Rightarrow> (Some e, tr) | (None, tr) \<Rightarrow> seq as tr)"

definition call :: "container_call \<Rightarrow> act" where
  "call c tr = (None, tr @ [c])"

definition call_or_throw :: "(container_call \<Rightarrow> bool) \<Rightarrow> container_call \<Rightarrow> exn \<Rightarrow> act" where
  "call_or_throw ok c e tr = ((if ok c then None else Some e), tr @ [c])"

definition throw :: "exn \<Rightarrow> act" where
  "throw e tr = (Some e, tr)"

definition set_config_item :: "(container_call \<Rightarrow> bool) \<Rightarrow> string \<Rightarrow> string \<Rightarrow> act" where
  "set_config_item ok key value =
     call_or_throw ok (Set_config key value) (Runtime_error (''Failed to set config item '' @ key))"

section \<open>Directories\<close>

definition data_path :: "host_view \<Rightarrow> string \<Rightarrow> string" where
  "data_path hv name = hv_data_dir hv @ ''/'' @ name"

definition rootfs_dir :: "host_view \<Rightarrow> string" where "rootfs_dir hv = data_path hv ''rootfs''"
definition combined_rootfs_dir :: "host_view \<Rightarrow> string" where "combined_rootfs_dir hv = data_path hv ''combined-rootfs''"
definition log_dir :: "host_view \<Rightarrow> string" where "log_dir hv = data_path hv ''logs''"
definition container_config_dir :: "host_view \<Rightarrow> string" where "container_config_dir hv = data_path hv ''containers''"
definition container_devices_dir :: "host_view \<Rightarrow> string" where "container_devices_dir hv = data_path hv ''devices''"
definition container_state_dir :: "host_view \<Rightarrow> string" where "container_state_dir hv = data_path hv ''state''"

section \<open>User and group ids\<close>

definition unprivileged_uid :: nat where "unprivileged_uid = 100000"
definition android_system_uid :: nat where "android_system_uid = 1000"

record id_entry =
  ie_kind :: char
  ie_ns :: nat
  ie_host :: nat
  ie_range :: nat

definition id_entries :: "nat \<Rightarrow> nat \<Rightarrow> id_entry list" where
  "id_entries uid gid =
     (let base_id = unprivileged_uid; max_id = 100000
      in [\<lparr>ie_kind = CHR ''u'', ie_ns = 0, ie_host = base_id, ie_range = android_system_uid - 1\<rparr>,
          \<lparr>ie_kind = CHR ''g'', ie_ns = 0, ie_host = base_id, ie_range = android_system_uid - 1\<rparr>,
          \<lparr>ie_kind = CHR ''u'', ie_ns = android_system_uid, ie_host = uid, ie_range = 1\<rparr>,
          \<lparr>ie_kind = CHR ''g'', ie_ns = android_system_uid, ie_host = gid, ie_range = 1\<rparr>,
          \<lparr>ie_kind = CHR ''u'', ie_ns = android_system_uid + 1, ie_host = base_id + android_system_uid + 1,
           ie_range = max_id - android_system_uid\<rparr>,
          \<lparr>ie_kind = CHR ''g'', ie_ns = android_system_uid + 1, ie_host = base_id + android_system_uid + 1,
           ie_range = max_id - android_system_uid\<rparr>])"

definition id_entry_text :: "id_entry \<Rightarrow> string" where
  "id_entry_text e = [ie_kind e] @ '' '' @ show_nat (ie_ns e) @ '' '' @ show_nat (ie_host e) @ '' '' @ show_nat (ie_range e)"

definition get_id_map :: "nat \<Rightarrow> nat \<Rightarrow> string list" where
  "get_id_map uid gid = map id_entry_text (id_entries uid gid)"

section \<open>LxcContainer\<close>

datatype container_state = Inactive | Running

record lxc_container =
  lx_state :: container_state
  lx_container :: bool                       \<comment> \<open>\<open>container_\<close> is not null\<close>
  lx_privileged :: bool
  lx_rootfs_overlay :: bool
  lx_network_address :: string
  lx_network_gateway :: string
  lx_network_dns_servers :: "string list"
  lx_uid :: nat
  lx_gid :: nat
  lx_binder_devices :: "string list"

definition key_idmap :: "build_flags \<Rightarrow> string" where
  "key_idmap bf = (if bf_lxc2 bf then ''lxc.id_map'' else ''lxc.idmap'')"
definition key_net :: "build_flags \<Rightarrow> string \<Rightarrow> string" where
  "key_net bf name = (if bf_lxc2 bf then ''lxc.network.'' else ''lxc.net.0.'') @ name"

definition setup_id_map :: "(container_call \<Rightarrow> bool) \<Rightarrow> build_flags \<Rightarrow> lxc_container \<Rightarrow> act" where
  "setup_id_map ok bf c = seq (map (set_config_item ok (key_idmap bf)) (get_id_map (lx_uid c) (lx_gid c)))"

text \<open>\<open>atoi\<close>: white space, a sign, digits.\<close>

definition digit_value :: "char \<Rightarrow> int" where
  "digit_value c = of_char c - 48"

definition is_digit :: "char \<Rightarrow> bool" where
  "is_digit c \<longleftrightarrow> (48::nat) \<le> of_char c \<and> of_char c \<le> (57::nat)"

definition is_space :: "char \<Rightarrow> bool" where
  "is_space c \<longleftrightarrow> (of_char c :: nat) \<in> {9, 10, 11, 12, 13, 32}"

definition atoi :: "string \<Rightarrow> int" where
  "atoi s =
     (let t = dropWhile is_space s;
          sign = (if t \<noteq> [] \<and> hd t = CHR ''-'' then - 1 else 1);
          t = (if t \<noteq> [] \<and> (hd t = CHR ''-'' \<or> hd t = CHR ''+'') then tl t else t)
      in s32 (sign * foldl (\<lambda>n c. 10 * n + digit_value c) 0 (takeWhile is_digit t)))"

definition network_config :: "host_view \<Rightarrow> lxc_container \<Rightarrow> ip_config_builder" where
  "network_config hv c =
     (let tokens = hv_split hv (lx_network_address c);
          given = lx_network_address c \<noteq> [];
          address = (if given \<and> (length tokens = 1 \<or> length tokens = 2) then tokens ! 0 else ''192.168.250.2'');
          prefix_length = (if given \<and> length tokens = 2 then word_of_int (atoi (tokens ! 1)) else 24);
          gateway = (if lx_network_gateway c \<noteq> [] then lx_network_gateway c else ''192.168.250.1'');
          dns = (if length (lx_network_dns_servers c) > 0 then lx_network_dns_servers c else [''8.8.8.8''])
      in \<lparr>ip_version = Version2, ip_assignment = Static, ip_link_address = address,
          ip_link_prefix_length = prefix_length, ip_gateway = gateway, ip_dns_servers = dns, ip_id = 0\<rparr>)"

definition chown_path :: "host_view \<Rightarrow> string \<Rightarrow> act" where
  "chown_path hv path =
     (case hv_stat hv path of
        None \<Rightarrow> seq []
      | Some st \<Rightarrow>
          if fs_uid st \<noteq> 0 \<and> fs_gid st \<noteq> 0 then seq []
          else call (Chown path (of_nat unprivileged_uid) (of_nat unprivileged_uid)))"

text \<open>
  The IP configuration file. A directory that cannot be created throws; a file that cannot be
  opened is only logged.
\<close>

definition setup_network ::
  "(container_call \<Rightarrow> bool) \<Rightarrow> build_flags \<Rightarrow> bool \<Rightarrow> host_view \<Rightarrow> lxc_container \<Rightarrow> act" where
  "setup_network ok bf little_endian hv c =
     (if \<not> hv_exists hv ''/sys/class/net/anbox0'' then seq []
      else
        seq [set_config_item ok (key_net bf ''type'') ''veth'',
             set_config_item ok (key_net bf ''flags'') ''up'',
             set_config_item ok (key_net bf ''link'') ''anbox0'',
             (case ip_config_write (network_config hv c) (new_binary_writer little_endian (replicate 512 0)) of
                Inl e \<Rightarrow> throw e
              | Inr (n, w) \<Rightarrow>
                  (let ip_conf_dir = data_path hv ''data/misc/ethernet''; ip_conf_path = ip_conf_dir @ ''/ipconfig.txt''
                   in seq [(if hv_exists hv ip_conf_dir then seq []
                            else call_or_throw ok (Create_directories ip_conf_dir) (System_error ''create_directories'')),
                           chown_path hv (data_path hv ''data''),
                           chown_path hv (data_path hv ''data/misc''),
                           chown_path hv ip_conf_dir,
                           (if hv_exists hv ip_conf_path then call (Remove_file ip_conf_path) else seq []),
                           (if ok (Write_file ip_conf_path (take n (bw_buffer w)))
                            then call (Write_file ip_conf_path (take n (bw_buffer w))) else seq [])]))])"

section \<open>Device nodes\<close>

definition device_major :: "u64 \<Rightarrow> int" where
  "device_major dev = s32 (uint (((drop_bit 8 dev) AND 0xfff) OR ((drop_bit 32 dev) AND 0xfffff000)))"

definition device_minor :: "u64 \<Rightarrow> int" where
  "device_minor dev = s32 (uint ((dev AND 0xff) OR ((drop_bit 12 dev) AND 0xffffff00)))"

text \<open>The logical negation of C, which the code applies to the mask.\<close>

definition logical_not :: "int \<Rightarrow> int" where
  "logical_not x = (if x = 0 then 1 else 0)"

definition encoded_device_number :: "int \<Rightarrow> int \<Rightarrow> int" where
  "encoded_device_number major minor =
     (minor AND 0xff) OR s32 (push_bit 8 major) OR s32 (push_bit 12 (minor AND logical_not 0xff))"

definition device_mode :: "u32 \<Rightarrow> u32 \<Rightarrow> u32" where
  "device_mode st_mode permission = (push_bit 9 (drop_bit 9 st_mode)) OR (permission AND NOT (push_bit 9 1))"

definition add_device ::
  "(container_call \<Rightarrow> bool) \<Rightarrow> host_view \<Rightarrow> lxc_container \<Rightarrow> string \<times> device_specification \<Rightarrow> act" where
  "add_device ok hv c dev =
     (case dev of (device, spec) \<Rightarrow>
       (let old_device_name = (if ds_old_device_name spec \<noteq> [] then ds_old_device_name spec else device)
        in (case hv_stat hv old_device_name of
              None \<Rightarrow> throw (Runtime_error (''Failed to retrieve information about device '' @ device))
            | Some st \<Rightarrow>
                (let mode = device_mode (fs_mode st) (ds_permission spec);
                     new_device_path = container_devices_dir hv @ ''/'' @ hv_basename hv device;
                     number = word_of_int (encoded_device_number (device_major (fs_rdev st)) (device_minor (fs_rdev st)));
                     base_uid = (if lx_privileged c then 0 else of_nat unprivileged_uid);
                     target_path = (if string_starts_with device ''/'' then drop 1 device else device)
                 in seq [call_or_throw ok (Mknod new_device_path mode number)
                           (Runtime_error (''Failed to create node for device '' @ device)),
                         call_or_throw ok (Chown new_device_path (base_uid + fs_uid st) (base_uid + fs_gid st))
                           (Runtime_error (''Failed to change ownership of new node for '' @ device)),
                         call_or_throw ok (Chmod new_device_path mode)
                           (Runtime_error (''Failed to change mode of new node for '' @ device)),
                         set_config_item ok ''lxc.mount.entry''
                           (new_device_path @ '' '' @ target_path @ '' none bind,create=file,optional 0 0'')]))))"

section \<open>Starting and stopping\<close>

definition num_needed_binders :: nat where "num_needed_binders = 1"

fun create_binder_devices :: "nat \<Rightarrow> string option list \<Rightarrow> string list \<Rightarrow> bool \<times> string list" where
  "create_binder_devices 0 answers devices = (True, devices)"
| "create_binder_devices (Suc n) answers devices =
     (case answers of
        Some device # rest \<Rightarrow> create_binder_devices n rest (devices @ [device])
      | _ \<Rightarrow> (False, devices))"

definition base_items :: "build_flags \<Rightarrow> host_view \<Rightarrow> string \<Rightarrow> (string \<times> string) list" where
  "base_items bf hv rootfs_path =
     [(''lxc.mount.auto'', ''proc:mixed sys:mixed cgroup:mixed''),
      (''lxc.autodev'', ''1''),
      (if bf_lxc2 bf then ''lxc.pts'' else ''lxc.pty.max'', ''1024''),
      (if bf_lxc2 bf then ''lxc.tty'' else ''lxc.tty.max'', ''0''),
      (if bf_lxc2 bf then ''lxc.utsname'' else ''lxc.uts.name'', ''anbox''),
      (''lxc.group.devices.deny'', ''''),
      (''lxc.group.devices.allow'', ''''),
      (if bf_lxc2 bf then ''lxc.devttydir'' else ''lxc.tty.dir'', ''''),
      (''lxc.environment'', ''PATH=/system/bin:/system/sbin:/system/xbin''),
      (if bf_lxc2 bf then ''lxc.init_cmd'' else ''lxc.init.cmd'', ''/anbox-init.sh''),
      (''lxc.cap.drop'', ''wake_alarm'')] @
     (if bf_snap bf \<and> hv_snap_env hv then [(''lxc.namespace.keep'', ''cgroup'')] else []) @
     [(if bf_lxc2 bf then ''lxc.rootfs'' else ''lxc.rootfs.path'', rootfs_path),
      (if bf_lxc2 bf then ''lxc.loglevel'' else ''lxc.log.level'', ''0''),
      (if bf_lxc2 bf then ''lxc.logfile'' else ''lxc.log.file'', log_dir hv @ ''/container.log'')] @
     (if bf_lxc2 bf then []
      else [(''lxc.console.logfile'', log_dir hv @ ''/console.log''), (''lxc.console.rotate'', ''1'')])"

definition apparmor_item :: "build_flags \<Rightarrow> string \<times> string" where
  "apparmor_item bf =
     (if bf_snap bf then (''lxc.apparmor.profile'', ''snap.anbox.container-manager//container'')
      else (if bf_lxc2 bf then ''lxc.aa_profile'' else ''lxc.apparmor.profile'', ''unconfined''))"

definition bind_mount_entry :: "host_view \<Rightarrow> string \<Rightarrow> string \<times> string \<Rightarrow> string" where
  "bind_mount_entry hv rootfs_path bm =
     (let create_type = (if hv_is_directory hv (fst bm) then ''dir'' else ''file'');
          target_path = (if string_starts_with (snd bm) ''/'' then snd bm else ''/'' @ snd bm)
      in fst bm @ '' '' @ rootfs_path @ target_path @ '' none bind,create='' @ create_type @ '',optional 0 0'')"

definition device :: "string \<Rightarrow> u32 \<Rightarrow> string \<Rightarrow> string \<times> device_specification" where
  "device path permission old = (path, \<lparr>ds_permission = permission, ds_old_device_name = old\<rparr>)"

text \<open>The permissions are 0600, 0666 and 0660 in octal.\<close>

definition standard_devices :: "(string \<times> device_specification) list" where
  "standard_devices =
     [device ''/dev/console'' 0x180 '''', device ''/dev/full'' 0x1B6 '''', device ''/dev/null'' 0x1B6 '''',
      device ''/dev/random'' 0x1B6 '''', device ''/dev/tty'' 0x1B6 '''', device ''/dev/urandom'' 0x1B6 '''',
      device ''/dev/zero'' 0x1B6 '''', device ''/dev/tun'' 0x1B0 ''/dev/net/tun'', device ''/dev/ashmem'' 0x1B6 '''']"

definition text_line :: "string \<Rightarrow> string" where
  "text_line s = s @ [CHR 0x0A]"

definition extra_properties_acts ::
  "(container_call \<Rightarrow> bool) \<Rightarrow> host_view \<Rightarrow> string \<Rightarrow> string list \<Rightarrow> act" where
  "extra_properties_acts ok hv rootfs_path props =
     (if length props > 0 then
        (case hv_read_file hv (rootfs_path @ ''/default.prop'') of
           Inl e \<Rightarrow> throw e
         | Inr old \<Rightarrow>
             (let path = container_state_dir hv @ ''/default.prop'';
                  content = text_line ''# Properties added by Anbox'' @ concat (map text_line props) @
                    text_line '''' @ text_line old
              in seq [call_or_throw ok (Write_file path (bytes_of content))
                        (Runtime_error ''Failed to open new default properties file''),
                      set_config_item ok ''lxc.mount.entry''
                        (path @ '' '' @ rootfs_path @ ''/default.prop none bind,optional,ro 0 0'')]))
      else seq [])"

definition rootfs_path_of :: "host_view \<Rightarrow> lxc_container \<Rightarrow> string" where
  "rootfs_path_of hv c = (if lx_rootfs_overlay c then combined_rootfs_dir hv else rootfs_dir hv)"

text \<open>The four parts of \<open>start\<close>: before, up to and after the allocation of the binder devices.\<close>

definition prepare :: "(container_call \<Rightarrow> bool) \<Rightarrow> host_view \<Rightarrow> lxc_container \<Rightarrow> act" where
  "prepare ok hv c =
     (if \<not> hv_root hv then throw (Runtime_error ''You have to start the container as root'')
      else if lx_container c then (if hv_running hv then call Lxc_stop else seq [])
      else
        seq [call (Unlink (container_config_dir hv @ ''/default/config'')),
             call_or_throw ok Lxc_new (Runtime_error ''Failed to create LXC container instance''),
             (if hv_running hv then call Lxc_stop else seq [])])"

definition configure ::
  "(container_call \<Rightarrow> bool) \<Rightarrow> build_flags \<Rightarrow> bool \<Rightarrow> host_view \<Rightarrow> lxc_container \<Rightarrow> act" where
  "configure ok bf little_endian hv c =
     seq (map (\<lambda>(k, v). set_config_item ok k v) (base_items bf hv (rootfs_path_of hv c)) @
          [setup_network ok bf little_endian hv c,
           (\<lambda>(k, v). set_config_item ok k v) (apparmor_item bf),
           (if lx_privileged c then seq [] else setup_id_map ok bf c)])"

definition launch_steps ::
  "(container_call \<Rightarrow> bool) \<Rightarrow> host_view \<Rightarrow> configuration \<Rightarrow> string list \<Rightarrow> lxc_container \<Rightarrow> act list" where
  "launch_steps ok hv conf binders c =
     (let rootfs_path = rootfs_path_of hv c;
          bind_mounts = (if hv_binderfs hv then hm_insert (binders ! 0, ''/dev/binder'') (cf_bind_mounts conf)
                         else cf_bind_mounts conf);
          devices = (if hv_binderfs hv then cf_devices conf
                     else hm_insert (device ''/dev/binder'' 0x1B6 '''') (cf_devices conf));
          devices = fold hm_insert standard_devices devices;
          devices_dir = container_devices_dir hv
      in map (\<lambda>bm. set_config_item ok ''lxc.mount.entry'' (bind_mount_entry hv rootfs_path bm)) bind_mounts @
         [call_or_throw ok (Remove_all devices_dir) (System_error ''remove_all''),
          call_or_throw ok (Create_directories devices_dir) (System_error ''create_directories'')] @
         map (add_device ok hv c) devices @ [extra_properties_acts ok hv rootfs_path (cf_extra_properties conf)])"

definition launch_container ::
  "(container_call \<Rightarrow> bool) \<Rightarrow> host_view \<Rightarrow> configuration \<Rightarrow> string list \<Rightarrow> lxc_container \<Rightarrow> act" where
  "launch_container ok hv conf binders c =
     seq (launch_steps ok hv conf binders c @
       [call_or_throw ok Lxc_save_config (Runtime_error ''Failed to save container configuration''),
        call_or_throw ok Lxc_start (Runtime_error ''Failed to start container'')])"

definition container_start ::
  "(container_call \<Rightarrow> bool) \<Rightarrow> build_flags \<Rightarrow> bool \<Rightarrow> host_view \<Rightarrow> configuration \<Rightarrow> lxc_container \<Rightarrow>
     container_call list \<Rightarrow> exn option \<times> lxc_container \<times> container_call list" where
  "container_start ok bf little_endian hv conf c tr =
     (case prepare ok hv c tr of
        (Some e, tr) \<Rightarrow> (Some e, c, tr)
      | (None, tr) \<Rightarrow>
          (let c = c\<lparr>lx_container := True\<rparr>
           in (case configure ok bf little_endian hv c tr of
                 (Some e, tr) \<Rightarrow> (Some e, c, tr)
               | (None, tr) \<Rightarrow>
                   (let (created, binders) =
                      (if hv_binderfs hv then create_binder_devices num_needed_binders (hv_binders hv) [] else (True, []))
                    in if \<not> created then (Some (Runtime_error ''Failed to allocate necessary binder devices''), c, tr)
                       else
                         (let c = (if hv_binderfs hv then c\<lparr>lx_binder_devices := binders\<rparr> else c)
                          in (case launch_container ok hv conf binders c tr of
                                (Some e, tr) \<Rightarrow> (Some e, c, tr)
                              | (None, tr) \<Rightarrow> (None, c\<lparr>lx_state := Running\<rparr>, tr)))))))"

definition container_stop ::
  "(container_call \<Rightarrow> bool) \<Rightarrow> bool \<Rightarrow> lxc_container \<Rightarrow> container_call list \<Rightarrow>
     exn option \<times> lxc_container \<times> container_call list" where
  "container_stop ok running c tr =
     (if \<not> lx_container c \<or> \<not> running then (None, c, tr)
      else if ok Lxc_stop
      then (None, c\<lparr>lx_state := Inactive, lx_binder_devices := []\<rparr>, tr @ [Lxc_stop] @ map Unlink (lx_binder_devices c))
      else (Some (Runtime_error ''Failed to stop container''), c, tr @ [Lxc_stop]))"

definition container_dtor ::
  "(container_call \<Rightarrow> bool) \<Rightarrow> bool \<Rightarrow> lxc_container \<Rightarrow> container_call list \<Rightarrow> exn option \<times> container_call list" where
  "container_dtor ok running c tr =
     (case container_stop ok running c tr of
        (Some e, c, tr) \<Rightarrow> (Some e, tr)
      | (None, c, tr) \<Rightarrow> (None, if lx_container c then tr @ [Lxc_put] else tr))"

section \<open>Management API\<close>

record device_msg =
  dm_path :: string
  dm_permission :: u32

record configuration_msg =
  cm_bind_mounts :: "(string \<times> string) list"
  cm_devices :: "device_msg list"
  cm_extra_properties :: "string list"

definition stub_configuration :: "configuration \<Rightarrow> configuration_msg" where
  "stub_configuration conf =
     \<lparr>cm_bind_mounts = cf_bind_mounts conf,
      cm_devices = map (\<lambda>(path, spec). \<lparr>dm_path = path, dm_permission = ds_permission spec\<rparr>) (cf_devices conf),
      cm_extra_properties = cf_extra_properties conf\<rparr>"

definition skeleton_configuration :: "configuration_msg \<Rightarrow> configuration" where
  "skeleton_configuration msg =
     \<lparr>cf_bind_mounts = fold hm_insert (cm_bind_mounts msg) [],
      cf_devices = fold hm_insert (map (\<lambda>d. device (dm_path d) (dm_permission d) '''') (cm_devices msg)) [],
      cf_extra_properties = cm_extra_properties msg\<rparr>"

fun what :: "exn \<Rightarrow> string" where
  "what (Runtime_error s) = s"
| "what (Logic_error s) = s"
| "what (Out_of_range s) = s"
| "what (Invalid_argument s) = s"
| "what (System_error s) = s"
| "what (Undefined s) = s"

text \<open>The response carries an error or not; the completion always runs.\<close>

definition start_container ::
  "(container_call \<Rightarrow> bool) \<Rightarrow> build_flags \<Rightarrow> bool \<Rightarrow> host_view \<Rightarrow> configuration_msg \<Rightarrow>
     lxc_container \<Rightarrow> container_call list \<Rightarrow> string option \<times> lxc_container \<times> container_call list" where
  "start_container ok bf little_endian hv request c tr =
     (if lx_state c = Running then (Some ''Container is already running'', c, tr)
      else
        (case container_start ok bf little_endian hv (skeleton_configuration request) c tr of
           (Some e, c, tr) \<Rightarrow> (Some (''Failed to start container: '' @ what e), c, tr)
         | (None, c, tr) \<Rightarrow> (None, c, tr)))"

definition stop_container ::
  "(container_call \<Rightarrow> bool) \<Rightarrow> bool \<Rightarrow> lxc_container \<Rightarrow> container_call list \<Rightarrow>
     string option \<times> lxc_container \<times> container_call list" where
  "stop_container ok running c tr =
     (if lx_state c \<noteq> Running then (Some ''Container is not running'', c, tr)
      else
        (case container_stop ok running c tr of
           (Some e, c, tr) \<Rightarrow> (Some (''Failed to stop container: '' @ what e), c, tr)
         | (None, c, tr) \<Rightarrow> (None, c, tr)))"

text \<open>The session's side: the message goes out, an error in the response is thrown.\<close>

definition stub_start ::
  "(container_call \<Rightarrow> bool) \<Rightarrow> build_flags \<Rightarrow> bool \<Rightarrow> host_view \<Rightarrow> configuration \<Rightarrow>
     lxc_container \<Rightarrow> container_call list \<Rightarrow> exn option \<times> lxc_container \<times> container_call list" where
  "stub_start ok bf little_endian hv conf c tr =
     (case start_container ok bf little_endian hv (stub_configuration conf) c tr of
        (Some e, c, tr) \<Rightarrow> (Some (Runtime_error e), c, tr)
      | (None, c, tr) \<Rightarrow> (None, c, tr))"

text \<open>
  A stop is waited for three seconds. When no response arrives in time, the response is still empty
  and the call returns as if the container had stopped.
\<close>

definition stub_stop ::
  "(container_call \<Rightarrow> bool) \<Rightarrow> bool \<Rightarrow> bool \<Rightarrow> lxc_container \<Rightarrow> container_call list \<Rightarrow>
     exn option \<times> lxc_container \<times> container_call list" where
  "stub_stop ok in_time running c tr =
     (case stop_container ok running c tr of
        (e, c, tr) \<Rightarrow> (if in_time then map_option Runtime_error e else None, c, tr))"

datatype management_method = Start_container | Stop_container

definition management_dispatch :: "string \<Rightarrow> management_method option" where
  "management_dispatch method_name =
     (if method_name = ''start_container'' then Some Start_container
      else if method_name = ''stop_container'' then Some Stop_container
      else None)"

section \<open>Paths of the session\<close>

text \<open>
  The parts of \<open>system_configuration.cpp\<close> that depend on the environment. The code computes
  each once and keeps it, so a later change of the environment has no effect; a function of the
  environment at the first call.
\<close>

definition runtime_dir :: "(string \<rightharpoonup> string) \<Rightarrow> string res" where
  "runtime_dir getenv =
     (let snap_user_common = get_env_value getenv ''SNAP_USER_COMMON'' []
      in if snap_user_common \<noteq> [] then Inr (snap_user_common @ ''/runtime'')
         else (let path = get_env_value getenv ''XDG_RUNTIME_DIR'' []
               in if path = [] then Inl (Runtime_error ''No runtime directory specified'') else Inr path))"

definition socket_dir :: "(string \<rightharpoonup> string) \<Rightarrow> string res" where
  "socket_dir getenv = rbind (runtime_dir getenv) (\<lambda>d. Inr (d @ ''/anbox/sockets''))"

definition input_device_dir :: "(string \<rightharpoonup> string) \<Rightarrow> string res" where
  "input_device_dir getenv = rbind (runtime_dir getenv) (\<lambda>d. Inr (d @ ''/anbox/input''))"

definition container_socket_path :: "(string \<rightharpoonup> string) \<Rightarrow> string" where
  "container_socket_path getenv =
     (let snap_common = get_env_value getenv ''SNAP_COMMON'' []
      in if snap_common \<noteq> [] then snap_common @ ''/sockets/anbox-container.socket'' else ''/run/anbox-container.socket'')"

definition resource_path :: "string \<Rightarrow> (string \<rightharpoonup> string) \<Rightarrow> string" where
  "resource_path default_resource_path getenv =
     (let snap_path = get_env_value getenv ''SNAP'' []
      in if snap_path \<noteq> [] then snap_path @ ''/usr/share/anbox'' else default_resource_path)"

definition application_item_dir :: "string \<Rightarrow> (string \<rightharpoonup> string) \<Rightarrow> string" where
  "application_item_dir data_home getenv =
     (if length (get_env_value getenv ''ANBOX_NO_DESKTOP_SUBDIR'' []) > 0 then data_home @ ''/applications''
      else data_home @ ''/applications/anbox'')"

section \<open>Binder devices\<close>

text \<open>
  \<open>BinderDeviceAllocator::new_device\<close>: whether the control node opens, the ioctl succeeds and
  the node appears are parameters. The counter grows before the name is checked.
\<close>

definition new_binder_device ::
  "bool \<Rightarrow> (string \<Rightarrow> bool) \<Rightarrow> (string \<Rightarrow> bool) \<Rightarrow> string \<Rightarrow> u32 \<Rightarrow> string option \<times> u32" where
  "new_binder_device ctl_open ioctl_ok exists base next_id =
     (if \<not> ctl_open then (None, next_id)
      else
        (let device_name = ''binder'' @ show_int (sint next_id); next_id = next_id + 1
         in if length device_name > 255 then (None, next_id)
            else if \<not> ioctl_ok device_name then (None, next_id)
            else (let path = base @ ''/'' @ device_name
                  in if \<not> exists path then (None, next_id) else (Some path, next_id))))"

section \<open>The service and its client\<close>

text \<open>The manager serves one session at a time: a second connection is closed at once.\<close>

record container_service =
  cs_next_connection_id :: int
  cs_connections :: "int list"

definition service_new_client :: "container_service \<Rightarrow> bool \<times> container_service" where
  "service_new_client s =
     (if length (cs_connections s) \<ge> 1 then (False, s)
      else (True, s\<lparr>cs_next_connection_id := s32 (cs_next_connection_id s + 1),
                    cs_connections := cs_connections s @ [cs_next_connection_id s]\<rparr>))"

definition service_disconnect :: "int \<Rightarrow> container_service \<Rightarrow> container_service" where
  "service_disconnect i s = s\<lparr>cs_connections := removeAll i (cs_connections s)\<rparr>"

text \<open>\<open>Client::start\<close> catches what the stub throws and calls the terminate handler, if any.\<close>

definition client_start :: "exn option \<Rightarrow> bool \<Rightarrow> bool" where
  "client_start result has_handler \<longleftrightarrow> result \<noteq> None \<and> has_handler"

datatype client_read = Terminated bool | Read_next | Read_done

definition client_on_read_size :: "bool \<Rightarrow> (bytes \<Rightarrow> bool) \<Rightarrow> bytes \<Rightarrow> bool \<Rightarrow> client_read" where
  "client_on_read_size error process_data data has_handler =
     (if error then Terminated has_handler else if process_data data then Read_next else Read_done)"

section \<open>Device numbers\<close>

text \<open>The encoding of device numbers of the C library.\<close>

definition makedev :: "u64 \<Rightarrow> u64 \<Rightarrow> u64" where
  "makedev major minor =
     push_bit 8 (major AND 0xfff) OR push_bit 32 (major AND NOT 0xfff) OR (minor AND 0xff) OR
     push_bit 12 (minor AND NOT 0xff)"

lemma masks: "(0xff :: u64) = mask 8" "(0xfff :: u64) = mask 12"
  "(0xfffff000 :: u64) = push_bit 12 (mask 20)" "(0xffffff00 :: u64) = push_bit 8 (mask 24)"
  by (simp_all add: mask_eq_exp_minus_1 push_bit_eq_mult)

lemmas word_bit_simps = bit_or_iff bit_and_iff bit_push_bit_iff bit_take_bit_iff bit_mask_iff bit_not_iff
  possible_bit_word bit_drop_bit_eq o_apply

lemma bit_makedev:
  "bit (makedev (take_bit 12 m) (take_bit 20 n)) j \<longleftrightarrow>
     j < 64 \<and> (8 \<le> j \<and> j < 20 \<and> bit m (j - 8) \<or> j < 8 \<and> bit n j \<or> 20 \<le> j \<and> j < 32 \<and> bit n (j - 12))"
proof -
  consider "j < 8" | "8 \<le> j" "j < 20" | "20 \<le> j" "j < 32" | "32 \<le> j" by linarith
  then show ?thesis
    unfolding makedev_def masks word_bit_simps by cases (auto simp: less_diff_conv2 not_less)
qed

lemma major_bits:
  "(drop_bit 8 (makedev (take_bit 12 m) (take_bit 20 n)) AND 0xfff) OR
   (drop_bit 32 (makedev (take_bit 12 m) (take_bit 20 n)) AND 0xfffff000) = take_bit 12 m"
  unfolding masks
proof (rule bit_word_eqI)
  fix i assume "i < LENGTH(64)"
  then show "bit ((drop_bit 8 (makedev (take_bit 12 m) (take_bit 20 n)) AND mask 12) OR
      (drop_bit 32 (makedev (take_bit 12 m) (take_bit 20 n)) AND push_bit 12 (mask 20))) i = bit (take_bit 12 m) i"
    by (simp only: word_bit_simps bit_makedev) (cases "i < 12"; simp)
qed

lemma minor_bits:
  "(makedev (take_bit 12 m) (take_bit 20 n) AND 0xff) OR
   (drop_bit 12 (makedev (take_bit 12 m) (take_bit 20 n)) AND 0xffffff00) = take_bit 20 n"
  unfolding masks
proof (rule bit_word_eqI)
  fix i assume i: "i < LENGTH(64)"
  consider "i < 8" | "8 \<le> i" "i < 20" | "20 \<le> i" by linarith
  then show "bit ((makedev (take_bit 12 m) (take_bit 20 n) AND mask 8) OR
      (drop_bit 12 (makedev (take_bit 12 m) (take_bit 20 n)) AND push_bit 8 (mask 24))) i = bit (take_bit 20 n) i"
    using i by cases (simp_all only: word_bit_simps bit_makedev, auto simp: less_diff_conv2)
qed

lemma uint_small: "take_bit k (w :: u64) = w \<Longrightarrow> k \<le> 31 \<Longrightarrow> s32 (uint w) = uint w \<and> uint w < 2 ^ k"
proof -
  assume a: "take_bit k w = w" "k \<le> 31"
  have "uint w = take_bit k (uint w)" using a(1) by (metis unsigned_take_bit_eq)
  then have "uint w < 2 ^ k" by (metis take_bit_int_less_exp)
  moreover have "(2 :: int) ^ k \<le> 2 ^ 31" using a(2) by (intro power_increasing) auto
  ultimately have "uint w < 2 ^ 31" by simp
  moreover have "- (2 ^ 31) \<le> uint w" by (rule order_trans [of _ 0]) auto
  ultimately show ?thesis using \<open>uint w < 2 ^ k\<close> by (simp add: in_s32_def)
qed

lemma device_numbers_makedev:
  assumes "take_bit 12 m = m" "take_bit 20 n = n"
  shows "device_major (makedev m n) = uint m" "device_minor (makedev m n) = uint n"
  using major_bits [of m n] minor_bits [of m n] uint_small [OF assms(1)] uint_small [OF assms(2)]
  unfolding device_major_def device_minor_def assms by simp_all

lemma encoded_word:
  assumes "take_bit 12 m = m" "take_bit 20 n = n"
  shows "word_of_int (encoded_device_number (uint m) (uint (n :: u64))) = makedev m (take_bit 8 n)"
proof -
  have m: "s32 (push_bit 8 (uint m)) = push_bit 8 (uint m)"
  proof (rule s32_id)
    have m0: "0 \<le> uint m" by simp
    have m1: "uint m < 4096" using uint_small [OF assms(1)] by simp
    from m0 have "- 8388608 \<le> uint m" by linarith
    with m1 show "in_s32 (push_bit 8 (uint m))" by (simp add: in_s32_def push_bit_eq_mult)
  qed
  have "encoded_device_number (uint m) (uint n) = (uint n AND 0xff) OR push_bit 8 (uint m)"
    by (simp add: encoded_device_number_def logical_not_def m in_s32_def)
  also have "word_of_int \<dots> = (n AND 0xff) OR push_bit 8 m"
    by (simp add: of_int_or_eq of_int_and_eq of_int_push_bit)
  also have "\<dots> = makedev m (take_bit 8 n)"
  proof (rule bit_word_eqI)
    fix i assume "i < LENGTH(64)"
    have e: "makedev m (take_bit 8 n) = makedev (take_bit 12 m) (take_bit 20 (take_bit 8 n))"
      by (simp add: assms(1))
    have m12: "i - 8 < 12" if "bit m (i - 8)" using that assms(1) by (metis bit_take_bit_iff)
    consider "i < 8" | "8 \<le> i" "i < 20" | "20 \<le> i" by linarith
    then show "bit ((n AND 0xff) OR push_bit 8 m) i = bit (makedev m (take_bit 8 n)) i"
      unfolding e bit_makedev masks word_bit_simps using \<open>i < _\<close> m12 by cases auto
  qed
  finally show ?thesis .
qed

lemma node_numbers:
  fixes m n :: u64
  assumes "take_bit 12 m = m" "take_bit 20 n = n"
  shows "device_major (word_of_int (encoded_device_number (uint m) (uint n))) = uint m \<and>
    device_minor (word_of_int (encoded_device_number (uint m) (uint n))) = uint n mod 256"
proof -
  have t: "take_bit 20 (take_bit 8 n) = take_bit 8 n" by simp
  have "uint (take_bit 8 n) = uint n mod 256"
    unfolding unsigned_take_bit_eq by (simp add: take_bit_eq_mod)
  then show ?thesis
    unfolding encoded_word [OF assms] using device_numbers_makedev [OF assms(1) t] by simp
qed

section \<open>What an action may do\<close>

text \<open>The calls whose failure stops the start; the others are only logged or not looked at.\<close>

fun critical :: "container_call \<Rightarrow> bool" where
  "critical (Set_config k v) = True"
| "critical Lxc_new = True"
| "critical Lxc_save_config = True"
| "critical Lxc_start = True"
| "critical (Mknod p m d) = True"
| "critical (Chmod p m) = True"
| "critical (Create_directories p) = True"
| "critical (Remove_all p) = True"
| "critical (Write_file p bs) = True"
| "critical _ = False"

text \<open>
  An action extends the trace; without an exception every critical call it made succeeded; it
  neither saves the configuration nor starts the container.
\<close>

definition careful :: "(container_call \<Rightarrow> bool) \<Rightarrow> act \<Rightarrow> bool" where
  "careful ok a \<longleftrightarrow>
     (\<forall>tr. \<exists>e ext. a tr = (e, tr @ ext) \<and> (e = None \<longrightarrow> (\<forall>x \<in> set ext. critical x \<longrightarrow> ok x)) \<and>
        Lxc_start \<notin> set ext \<and> Lxc_save_config \<notin> set ext)"

lemma careful_seq: "(\<And>a. a \<in> set as \<Longrightarrow> careful ok a) \<Longrightarrow> careful ok (seq as)"
proof (induction as)
  case Nil
  then show ?case by (simp add: careful_def)
next
  case (Cons a as)
  show ?case unfolding careful_def
  proof
    fix tr
    have "careful ok a" using Cons.prems by simp
    then obtain e ext where a: "a tr = (e, tr @ ext)" "e = None \<longrightarrow> (\<forall>x \<in> set ext. critical x \<longrightarrow> ok x)"
      "Lxc_start \<notin> set ext \<and> Lxc_save_config \<notin> set ext" unfolding careful_def by blast
    have "careful ok (seq as)" using Cons by simp
    then obtain e' ext' where r: "seq as (tr @ ext) = (e', (tr @ ext) @ ext')"
      "e' = None \<longrightarrow> (\<forall>x \<in> set ext'. critical x \<longrightarrow> ok x)" "Lxc_start \<notin> set ext' \<and> Lxc_save_config \<notin> set ext'"
      unfolding careful_def by blast
    show "\<exists>e ext. seq (a # as) tr = (e, tr @ ext) \<and> (e = None \<longrightarrow> (\<forall>x \<in> set ext. critical x \<longrightarrow> ok x)) \<and>
        Lxc_start \<notin> set ext \<and> Lxc_save_config \<notin> set ext"
      using a r by (cases e) auto
  qed
qed

lemma careful_call: "c \<notin> {Lxc_start, Lxc_save_config} \<Longrightarrow> \<not> critical c \<or> ok c \<Longrightarrow> careful ok (call c)"
  by (auto simp: careful_def call_def)

lemma careful_call_or_throw: "c \<notin> {Lxc_start, Lxc_save_config} \<Longrightarrow> careful ok (call_or_throw ok c e)"
  by (auto simp: careful_def call_or_throw_def)

lemma careful_throw: "careful ok (throw e)"
  by (simp add: careful_def throw_def)

lemma careful_set_config: "careful ok (set_config_item ok k v)"
  by (simp add: set_config_item_def careful_call_or_throw)

lemmas careful_intros = careful_seq careful_call careful_call_or_throw careful_throw careful_set_config

lemma careful_chown_path: "careful ok (chown_path hv p)"
  unfolding chown_path_def by (auto split: option.split intro!: careful_intros)

lemma careful_network: "careful ok (setup_network ok bf le hv c)"
  unfolding setup_network_def Let_def
  by (auto split: sum.split prod.split intro!: careful_intros careful_chown_path)

lemma careful_add_device: "careful ok (add_device ok hv c d)"
  unfolding add_device_def Let_def by (auto split: option.split prod.split intro!: careful_intros)

lemma careful_properties: "careful ok (extra_properties_acts ok hv rootfs_path props)"
  unfolding extra_properties_acts_def Let_def by (auto split: sum.split intro!: careful_intros)

lemma careful_configure: "careful ok (configure ok bf le hv c)"
  unfolding configure_def setup_id_map_def
  by (auto split: prod.split intro!: careful_intros careful_network)

lemma careful_prepare: "careful ok (prepare ok hv c)"
  unfolding prepare_def by (auto intro!: careful_intros)

lemma seq_append: "seq (as @ bs) tr = (case seq as tr of (Some e, tr) \<Rightarrow> (Some e, tr) | (None, tr) \<Rightarrow> seq bs tr)"
  by (induction as arbitrary: tr) (auto split: prod.split option.split)

lemma careful_launch_steps: "careful ok (seq (launch_steps ok hv conf binders c))"
  unfolding launch_steps_def Let_def
  by (auto intro!: careful_intros careful_add_device careful_properties)

lemma launch_container_trace:
  "\<exists>e ext. launch_container ok hv conf binders c tr = (e, tr @ ext) \<and>
     (e = None \<longrightarrow> (\<forall>x \<in> set ext. critical x \<longrightarrow> ok x) \<and>
        (\<exists>pre. ext = pre @ [Lxc_save_config, Lxc_start] \<and> Lxc_start \<notin> set pre)) \<and>
     (e \<noteq> None \<and> Lxc_start \<in> set ext \<longrightarrow> \<not> ok Lxc_start)"
proof -
  obtain e ext where s: "seq (launch_steps ok hv conf binders c) tr = (e, tr @ ext)"
    "e = None \<longrightarrow> (\<forall>x \<in> set ext. critical x \<longrightarrow> ok x)" "Lxc_start \<notin> set ext \<and> Lxc_save_config \<notin> set ext"
    using careful_launch_steps [of ok hv conf binders c] unfolding careful_def by blast
  show ?thesis
  proof (cases e)
    case (Some x)
    with s show ?thesis by (simp add: launch_container_def seq_append)
  next
    case None
    with s show ?thesis
      by (auto simp: launch_container_def seq_append call_or_throw_def)
  qed
qed

section \<open>Properties\<close>


definition plain_host :: host_view where
  "plain_host = \<lparr>hv_root = True, hv_exists = \<lambda>p. False, hv_is_directory = \<lambda>p. False,
     hv_stat = \<lambda>p. Some \<lparr>fs_mode = 0x21B6, fs_uid = 0, fs_gid = 0, fs_rdev = 0x103\<rparr>,
     hv_read_file = \<lambda>p. Inr [], hv_running = False, hv_binderfs = False, hv_binders = [], hv_snap_env = False,
     hv_split = \<lambda>s. [s], hv_basename = \<lambda>p. p, hv_data_dir = ''/d''\<rparr>"

definition new_container :: lxc_container where
  "new_container = \<lparr>lx_state = Inactive, lx_container = False, lx_privileged = True, lx_rootfs_overlay = False,
     lx_network_address = [], lx_network_gateway = [], lx_network_dns_servers = [], lx_uid = 1000, lx_gid = 1000,
     lx_binder_devices = []\<rparr>"


text \<open>
  C27. A device node made for the container has the major number of the host's device but only
  the low eight bits of its minor number: it is the same device exactly if the minor number is
  below 256 (numbers in the ranges of the kernel, 12 bits and 20 bits).
\<close>

theorem device_node_number:
  fixes m n :: u64
  assumes "take_bit 12 m = m" "take_bit 20 n = n"
  shows "let node = word_of_int (encoded_device_number (device_major (makedev m n)) (device_minor (makedev m n))) :: u64 in
    device_major (makedev m n) = uint m \<and> device_minor (makedev m n) = uint n \<and>
    device_major node = uint m \<and> device_minor node = uint n mod 256 \<and>
    (device_minor node = device_minor (makedev m n) \<longleftrightarrow> uint n < 256)"
proof -
  have "(uint n mod 256 = uint n) = (uint n < 256)"
    using mod_pos_pos_trivial [of "uint n" 256] pos_mod_bound [of 256 "uint n"] by force
  then show ?thesis
    using node_numbers [OF assms] by (simp add: device_numbers_makedev [OF assms] Let_def)
qed

theorem device_node_number_witness:
  "device_minor (word_of_int (encoded_device_number (device_major (makedev 10 300)) (device_minor (makedev 10 300)))) = 44"
proof -
  have "take_bit 12 (10 :: u64) = 10" "take_bit 20 (300 :: u64) = 300" by (simp_all add: take_bit_eq_mod)
  from device_node_number [OF this] show ?thesis by (auto simp: Let_def)
qed

text \<open>How the kernel reads the entries of an id map: the entry whose range holds the id.\<close>

definition map_id :: "char \<Rightarrow> id_entry list \<Rightarrow> nat \<Rightarrow> nat option" where
  "map_id kind entries k =
     map_option (\<lambda>e. ie_host e + (k - ie_ns e))
       (find (\<lambda>e. ie_kind e = kind \<and> ie_ns e \<le> k \<and> k < ie_ns e + ie_range e) entries)"

lemma map_id_entries:
  "map_id CHR ''u'' (id_entries uid gid) k =
     (if k < 999 then Some (100000 + k) else if k = 1000 then Some uid
      else if 1001 \<le> k \<and> k \<le> 100000 then Some (100000 + k) else None)"
  "map_id CHR ''g'' (id_entries uid gid) k =
     (if k < 999 then Some (100000 + k) else if k = 1000 then Some gid
      else if 1001 \<le> k \<and> k \<le> 100000 then Some (100000 + k) else None)"
  by (auto simp: map_id_def id_entries_def unprivileged_uid_def android_system_uid_def)

text \<open>
  The id map of an unprivileged container gives every Android user id up to 100000 except
  999 a host id: the system user becomes the user of the session, everyone else is shifted by
  100000; the same holds for groups. Two Android ids share a host id only if the user's own id
  lies in the shifted range.
\<close>

theorem id_map_shifts:
  "(\<forall>k. map_id CHR ''u'' (id_entries uid gid) k =
      (if k = 1000 then Some uid else if k \<le> 100000 \<and> k \<noteq> 999 then Some (100000 + k) else None)) \<and>
   (\<forall>k. map_id CHR ''g'' (id_entries uid gid) k =
      (if k = 1000 then Some gid else if k \<le> 100000 \<and> k \<noteq> 999 then Some (100000 + k) else None)) \<and>
   (uid < 100000 \<or> uid > 200000 \<longrightarrow>
      inj_on (map_id CHR ''u'' (id_entries uid gid)) {k. map_id CHR ''u'' (id_entries uid gid) k \<noteq> None})"
proof -
  have "inj_on (map_id CHR ''u'' (id_entries uid gid)) {k. map_id CHR ''u'' (id_entries uid gid) k \<noteq> None}"
    if "uid < 100000 \<or> uid > 200000"
    using that by (auto simp: inj_on_def map_id_entries split: if_splits)
  then show ?thesis by (auto simp: map_id_entries)
qed

theorem id_map_shifts_witness:
  "get_id_map 1000 1000 ! 2 = ''u 1000 1000 1'' \<and> map_id CHR ''u'' (id_entries 1000 1000) 1000 = Some 1000"
proof -
  have "show_nat 1000 = ''1000''" "show_nat 1 = ''1''"
    by (simp_all add: show_nat_def digits_of_step digits_of_small digit_char_def char_of_def bit_0)
  then have "get_id_map 1000 1000 ! 2 = ''u 1000 1000 1''"
    by (simp add: get_id_map_def id_entries_def id_entry_text_def android_system_uid_def Let_def)
  moreover have "map_id CHR ''u'' (id_entries 1000 1000) 1000 = Some 1000"
    using id_map_shifts [of 1000 1000, THEN conjunct1, THEN spec, of 1000] by simp
  ultimately show ?thesis by simp
qed

section \<open>The network\<close>


text \<open>
  With the bridge \<open>anbox0\<close> present and every call succeeding, setting up the network ends
  with writing the file \<open>ipconfig.txt\<close>, and what it holds reads back as the configured address,
  gateway and servers; if the configuration does not fit into 512 bytes nothing is written and
  the start fails with out_of_range.
\<close>

theorem network_file_written:
  assumes "hv_exists hv ''/sys/class/net/anbox0''" "ip_config_ok (network_config hv c)" "\<And>x. ok x"
  shows "if length (enc_ip_config (network_config hv c)) \<le> 512
    then \<exists>tr bs. setup_network ok bf le hv c [] =
          (None, tr @ [Write_file (data_path hv ''data/misc/ethernet'' @ ''/ipconfig.txt'') bs]) \<and>
        read_ip_config bs = Some (network_config hv c, [])
    else \<exists>tr. setup_network ok bf le hv c [] = (Some (Out_of_range ''Write buffer exhausted''), tr) \<and>
        (\<forall>p bs. Write_file p bs \<notin> set tr)"
proof -
  let ?w = "new_binary_writer le (replicate 512 0)"
  have wf: "bw_wf ?w" "bw_space ?w = 512" "bw_current ?w = 0" "length (bw_buffer ?w) = 512"
    by (simp_all add: bw_wf_def bw_space_def new_binary_writer_def)
  note wr = ip_config_write_eq [OF wf(1), of "network_config hv c"]
  show ?thesis
  proof (cases "length (enc_ip_config (network_config hv c)) \<le> 512")
    case True
    let ?e = "enc_ip_config (network_config hv c)"
    let ?w' = "bw_copy ?e (set_byte_order Big ?w)"
    have "ip_config_write (network_config hv c) ?w = Inr (length ?e, ?w')"
      using True wr wf by simp
    moreover have "take (length ?e) (bw_buffer ?w') = ?e"
      using True wf by (simp add: bw_copy_def set_byte_order_def)
    moreover have "read_ip_config ?e = Some (network_config hv c, [])"
      using read_ip_config_enc [OF assms(2), of "[]"] by simp
    ultimately show ?thesis
      using True assms(1,3)
      by (auto simp: setup_network_def Let_def set_config_item_def call_or_throw_def call_def chown_path_def
          split: option.split)
  next
    case False
    then have "ip_config_write (network_config hv c) ?w = Inl (Out_of_range ''Write buffer exhausted'')"
      using wr wf by simp
    with False assms(1,3) show ?thesis
      by (auto simp: setup_network_def set_config_item_def call_or_throw_def throw_def)
  qed
qed

theorem network_file_written_witness:
  "\<exists>tr bs. setup_network (\<lambda>x. True) \<lparr>bf_lxc2 = False, bf_snap = False\<rparr> True (plain_host\<lparr>hv_exists := \<lambda>p. True\<rparr>)
      new_container [] = (None, tr @ [Write_file ''/d/data/misc/ethernet/ipconfig.txt'' bs]) \<and>
     map_option (ip_gateway \<circ> fst) (read_ip_config bs) = Some ''192.168.250.1''"
proof -
  let ?hv = "plain_host\<lparr>hv_exists := \<lambda>p. True\<rparr>"
  have ok: "ip_config_ok (network_config ?hv new_container)"
    by (simp add: ip_config_ok_def network_config_def new_container_def plain_host_def)
  have gw: "ip_gateway (network_config ?hv new_container) = ''192.168.250.1''"
    by (simp add: network_config_def new_container_def)
  have len: "length (enc_ip_config (network_config ?hv new_container)) \<le> 512" by code_simp
  have path: "data_path ?hv ''data/misc/ethernet'' @ ''/ipconfig.txt'' = ''/d/data/misc/ethernet/ipconfig.txt''"
    by (simp add: data_path_def plain_host_def)
  from network_file_written [where hv = ?hv and ok = "\<lambda>x. True" and le = True and c = new_container
      and bf = "\<lparr>bf_lxc2 = False, bf_snap = False\<rparr>", OF _ ok] len gw path
  show ?thesis by (fastforce simp: plain_host_def)
qed

section \<open>The management API\<close>

lemma fold_hm_insert:
  "distinct (map fst (m @ kvs)) \<Longrightarrow> fold hm_insert kvs m = m @ kvs"
proof (induction kvs arbitrary: m)
  case (Cons kv kvs)
  then have "map_of m (fst kv) = None" by (auto simp: map_of_eq_None_iff)
  with Cons show ?case by (simp add: hm_insert_def)
qed simp

text \<open>
  The session's request reaches the container: \<open>start\<close> of the client runs \<open>start\<close> of the
  container with the same mounts, properties and devices, except that the host name of a renamed
  device is lost; what the container throws comes back to the caller, wrapped.
\<close>

theorem management_start_forwards:
  assumes "lx_state c = Inactive" "distinct (map fst (cf_bind_mounts conf))" "distinct (map fst (cf_devices conf))"
  shows "stub_start ok bf le hv conf c tr =
    (case container_start ok bf le hv
        (conf\<lparr>cf_devices := map (\<lambda>(path, spec). (path, spec\<lparr>ds_old_device_name := []\<rparr>)) (cf_devices conf)\<rparr>) c tr of
       (None, c, tr) \<Rightarrow> (None, c, tr)
     | (Some e, c, tr) \<Rightarrow> (Some (Runtime_error (''Failed to start container: '' @ what e)), c, tr))"
proof -
  let ?d = "map (\<lambda>(path, spec). (path, spec\<lparr>ds_old_device_name := []\<rparr>)) (cf_devices conf)"
  have m: "map (\<lambda>d. device (dm_path d) (dm_permission d) '''')
      (map (\<lambda>(path, spec). \<lparr>dm_path = path, dm_permission = ds_permission spec\<rparr>) (cf_devices conf)) = ?d"
    by (auto simp: device_def)
  have "map fst ?d = map fst (cf_devices conf)" by auto
  then have "skeleton_configuration (stub_configuration conf) = conf\<lparr>cf_devices := ?d\<rparr>"
    using assms(2,3) fold_hm_insert [of "[]" "cf_bind_mounts conf"] fold_hm_insert [of "[]" ?d]
    unfolding skeleton_configuration_def stub_configuration_def by (simp add: m del: map_map)
  then show ?thesis
    using assms(1) by (auto simp: stub_start_def start_container_def split: prod.split option.split)
qed

theorem management_start_forwards_witness:
  "fst (stub_start (\<lambda>x. True) \<lparr>bf_lxc2 = False, bf_snap = False\<rparr> True (plain_host\<lparr>hv_root := False\<rparr>)
      \<lparr>cf_bind_mounts = [(''a'', ''b'')], cf_devices = [], cf_extra_properties = []\<rparr> new_container []) =
     Some (Runtime_error ''Failed to start container: You have to start the container as root'')"
  using management_start_forwards [where c = new_container
      and conf = "\<lparr>cf_bind_mounts = [(''a'', ''b'')], cf_devices = [], cf_extra_properties = []\<rparr>"
      and ok = "\<lambda>x. True" and bf = "\<lparr>bf_lxc2 = False, bf_snap = False\<rparr>" and le = True
      and hv = "plain_host\<lparr>hv_root := False\<rparr>" and tr = "[]"]
  by (simp add: new_container_def container_start_def prepare_def throw_def)

text \<open>A sequence of requests: a configuration asks for a start, none for a stop.\<close>

fun management_requests ::
  "(container_call \<Rightarrow> bool) \<Rightarrow> build_flags \<Rightarrow> bool \<Rightarrow> host_view \<Rightarrow> configuration_msg option list \<Rightarrow>
     lxc_container \<Rightarrow> container_call list \<Rightarrow> string option list \<times> lxc_container \<times> container_call list" where
  "management_requests ok bf le hv [] c tr = ([], c, tr)"
| "management_requests ok bf le hv (r # rs) c tr =
     (case (case r of Some request \<Rightarrow> start_container ok bf le hv request c tr
                    | None \<Rightarrow> stop_container ok (hv_running hv) c tr) of
        (answer, c, tr) \<Rightarrow>
          (case management_requests ok bf le hv rs c tr of (answers, c, tr) \<Rightarrow> (answer # answers, c, tr)))"

text \<open>
  A container that ends by itself cannot be started again: its state stays running, every
  request to stop it succeeds without effect, and every request to start it is refused because
  it is already running.
\<close>

theorem dead_container_stuck:
  assumes "lx_state c = Running" "\<not> hv_running hv"
  shows "management_requests ok bf le hv rs c tr =
    (map (\<lambda>r. if r = None then None else Some ''Container is already running'') rs, c, tr)"
  using assms
  by (induction rs) (auto simp: start_container_def stop_container_def container_stop_def split: option.split)

theorem dead_container_stuck_witness:
  "fst (management_requests (\<lambda>x. True) \<lparr>bf_lxc2 = False, bf_snap = False\<rparr> True plain_host
      [None, Some \<lparr>cm_bind_mounts = [], cm_devices = [], cm_extra_properties = []\<rparr>]
      (new_container\<lparr>lx_state := Running, lx_container := True\<rparr>) []) = [None, Some ''Container is already running'']"
proof -
  have r: "lx_state (new_container\<lparr>lx_state := Running, lx_container := True\<rparr>) = Running" by simp
  have h: "\<not> hv_running plain_host" by (simp add: plain_host_def)
  show ?thesis unfolding dead_container_stuck [OF r h] by simp
qed

end
