(* ===== verification/Audio_Sink.thy ===== *)
theory Audio_Sink
  imports Io_Stream Network
begin

text \<open>
  Audio playback: the sink between a guest's audio connection and SDL
  (\<open>platform/sdl/audio_sink.cpp\<close>) and the server that accepts the connections
  (\<open>audio/server.cpp\<close>). The socket thread writes, SDL's audio thread reads; both hold the sink's
  lock. SDL is a parameter: the answer of \<open>SDL_OpenAudioDevice\<close> (0 for a failure) and the buffer it
  asks the callback to fill. Buffers are byte lists, as in \<open>Io_Stream\<close>.
\<close>

section \<open>The sink\<close>

record audio_sink =
  au_device_id :: u32
  au_queue :: "bytes buffer_queue"
  au_read_buffer :: bytes
  au_read_left :: nat

definition max_queue_size :: nat where "max_queue_size = 16"

definition new_audio_sink :: audio_sink where
  "new_audio_sink =
     \<lparr>au_device_id = 0, au_queue = new_buffer_queue [] max_queue_size, au_read_buffer = [], au_read_left = 0\<rparr>"

datatype sdl_audio_call = Open_audio_device int nat nat | Pause_audio_device u32 bool | Close_audio_device u32

text \<open>The device asks for 44100 samples per second, two channels, in blocks of 1024.\<close>

definition connect_audio :: "u32 \<Rightarrow> audio_sink \<Rightarrow> bool \<times> audio_sink \<times> sdl_audio_call list" where
  "connect_audio opened s =
     (if au_device_id s > 0 then (True, s, [])
      else
        (let s = s\<lparr>au_device_id := opened\<rparr>
         in if opened = 0 then (False, s, [Open_audio_device 44100 2 1024])
            else (True, s, [Open_audio_device 44100 2 1024, Pause_audio_device opened False])))"

definition disconnect_audio :: "audio_sink \<Rightarrow> audio_sink \<times> sdl_audio_call list" where
  "disconnect_audio s =
     (if au_device_id s = 0 then (s, [])
      else (s\<lparr>au_device_id := 0\<rparr>, [Close_audio_device (au_device_id s)]))"

text \<open>\<open>memcpy\<close> of \<open>src\<close> to position \<open>n\<close> of a buffer.\<close>

definition copy_to :: "nat \<Rightarrow> bytes \<Rightarrow> bytes \<Rightarrow> bytes" where
  "copy_to n src buffer = take n buffer @ src @ drop (n + length src) buffer"

text \<open>
  The callback: \<open>buffer\<close> is SDL's block, \<open>count\<close> the number of bytes filled. The first block of data
  is waited for, the rest is taken as long as it is there. \<open>None\<close>: the call waits.
\<close>

function read_data_loop ::
  "(bytes \<Rightarrow> bytes) \<Rightarrow> nat \<Rightarrow> bytes \<Rightarrow> nat \<Rightarrow> audio_sink \<Rightarrow> bytes option \<times> audio_sink" where
  "read_data_loop mv wanted buffer count s =
     (if count < wanted then
        if au_read_left s > 0 then
          (let avail = min (wanted - count) (au_read_left s);
               off = length (au_read_buffer s) - au_read_left s
           in read_data_loop mv wanted (copy_to count (take avail (drop off (au_read_buffer s))) buffer)
                (count + avail) (s\<lparr>au_read_left := au_read_left s - avail\<rparr>))
        else
          (case (if count = 0 then pop_locked mv (au_queue s) else Return (try_pop_locked mv (au_queue s))) of
             Wait cv \<Rightarrow> (None, s)
           | Return (result, item, q, ns) \<Rightarrow>
               (case item of
                  Some b \<Rightarrow> read_data_loop mv wanted buffer count
                      (s\<lparr>au_queue := q, au_read_buffer := b, au_read_left := length b\<rparr>)
                | None \<Rightarrow> (Some buffer, s)))
      else (Some buffer, s))"
  by pat_completeness auto
termination
proof (relation "measures [\<lambda>(mv, wanted, buffer, count, s). bq_count (au_queue s),
    \<lambda>(mv, wanted, buffer, count, s). au_read_left s]", goal_cases)
  case 3
  then show ?case by (auto simp: try_pop_locked_def pop_locked_def Let_def split: if_splits)
qed auto

definition read_data :: "(bytes \<Rightarrow> bytes) \<Rightarrow> bytes \<Rightarrow> audio_sink \<Rightarrow> bytes option \<times> audio_sink" where
  "read_data mv buffer s = read_data_loop mv (length buffer) buffer 0 s"

text \<open>The result says whether the data went into the queue; it is dropped without a device.\<close>

definition write_data ::
  "u32 \<Rightarrow> bytes \<Rightarrow> audio_sink \<Rightarrow> (bool \<times> audio_sink \<times> sdl_audio_call list \<times> notification list) blocking" where
  "write_data opened data s =
     (case connect_audio opened s of
        (False, s, cs) \<Rightarrow> Return (False, s, cs, [])
      | (True, s, cs) \<Rightarrow>
          (case push_locked data (au_queue s) of
             Wait cv \<Rightarrow> Wait cv
           | Return (r, q, ns) \<Rightarrow> Return (r = 0, s\<lparr>au_queue := q\<rparr>, cs, ns)))"

section \<open>The server\<close>

datatype audio_processor = Audio_forwarder | No_processor

record audio_server =
  as_next_id :: int
  as_connections :: "audio_processor connections"

text \<open>
  A new connection: \<open>receive\<close> is the byte the client sends first, or the error of reading it. The
  result is what is sent back. A recording client is accepted without a processor.
\<close>

definition audio_create_connection :: "byte option \<Rightarrow> audio_server \<Rightarrow> bytes option \<times> audio_server" where
  "audio_create_connection receive s =
     (case receive of
        None \<Rightarrow> (None, s)
      | Some t \<Rightarrow>
          (let accept = (\<lambda>p. (Some [t], s\<lparr>as_next_id := s32 (as_next_id s + 1),
                                       as_connections := conn_add (as_next_id s) p (as_connections s)\<rparr>))
           in if t = 0 then accept Audio_forwarder
              else if t = 1 then accept No_processor
              else (None, s)))"

text \<open>What a connection does with data: it calls its processor, through a null pointer if there is none.\<close>

definition audio_process_data ::
  "audio_processor \<Rightarrow> u32 \<Rightarrow> bytes \<Rightarrow> audio_sink \<Rightarrow>
     (bool \<times> audio_sink \<times> sdl_audio_call list \<times> notification list) blocking res" where
  "audio_process_data p opened data s =
     (case p of
        No_processor \<Rightarrow> Inl (Undefined ''call through a null processor'')
      | Audio_forwarder \<Rightarrow>
          (case write_data opened data s of
             Wait cv \<Rightarrow> Inr (Wait cv)
           | Return (pushed, s, cs, ns) \<Rightarrow> Inr (Return (True, s, cs, ns))))"

section \<open>The callback reads as a stream does\<close>

declare read_data_loop.simps [simp del]

text \<open>
  The loop of the callback is the loop of \<open>BufferedIOStream::read\<close> on the sink's queue, copying
  into SDL's block instead of a fresh one. \<open>t\<close> supplies the other fields of a stream.
\<close>

definition as_stream :: "io_stream \<Rightarrow> audio_sink \<Rightarrow> io_stream" where
  "as_stream t s = t\<lparr>is_in := au_queue s, is_read_buffer := au_read_buffer s, is_read_left := au_read_left s\<rparr>"

definition of_stream :: "audio_sink \<Rightarrow> io_stream \<Rightarrow> audio_sink" where
  "of_stream s t = s\<lparr>au_queue := is_in t, au_read_buffer := is_read_buffer t, au_read_left := is_read_left t\<rparr>"

fun filled :: "bytes \<Rightarrow> read_result \<Rightarrow> bytes option" where
  "filled buffer (Read_data bs) = Some (bs @ drop (length bs) buffer)"
| "filled buffer Read_failed = Some buffer"
| "filled buffer Read_wait = None"

lemma of_as_stream [simp]: "of_stream s (as_stream t s) = s"
  by (simp add: of_stream_def as_stream_def)

lemma copy_to_prefix:
  assumes "count \<le> length buffer"
  shows "take (count + length src) (copy_to count src buffer) = take count buffer @ src"
    and "count + length src \<le> length buffer \<Longrightarrow> length (copy_to count src buffer) = length buffer"
    and "drop (count + length src) (copy_to count src buffer) = drop (count + length src) buffer"
  using assms by (simp_all add: copy_to_def)

lemma read_post_dataD:
  assumes "read_post wanted dst s rt" "fst rt = Read_data bs"
  shows "bs = dst @ take (wanted - length dst) (unread s)" "unread (snd rt) = drop (wanted - length dst) (unread s)"
    "bs = [] \<longrightarrow> wanted = 0" "in_ok (snd rt)" "bq_closed (is_in (snd rt)) = bq_closed (is_in s)"
  using assms(1) unfolding read_post_def assms(2) read_result.case by blast+

lemma read_post_failedD: "read_post wanted dst s rt \<Longrightarrow> fst rt = Read_failed \<Longrightarrow> bq_closed (is_in s)"
  unfolding read_post_def by (simp only: read_result.case)

lemma filled_copy:
  assumes "read_post wanted (dst @ src) t rt" "count + length src \<le> length buffer"
    "length dst = count" "0 < length src"
  shows "filled (copy_to count src buffer) (fst rt) = filled buffer (fst rt)"
proof (cases "fst rt")
  case (Read_data bs)
  have "bs = (dst @ src) @ take (wanted - length (dst @ src)) (unread t)"
    by (rule read_post_dataD(1) [OF assms(1) Read_data])
  then obtain xs where "bs = (dst @ src) @ xs" by blast
  then have k: "length bs = length xs + (count + length src)" using assms(3) by simp
  have "drop (length bs) (copy_to count src buffer) = drop (length xs) (drop (count + length src) buffer)"
    using assms(2) copy_to_prefix(3) [of count buffer src] unfolding k drop_drop [symmetric] by simp
  also have "\<dots> = drop (length bs) buffer" unfolding k by (rule drop_drop)
  finally show ?thesis by (simp add: Read_data)
next
  case Read_failed
  with assms(1,4) show ?thesis by (simp add: read_post_def)
next
  case Read_wait
  with assms(1,4) show ?thesis by (simp add: read_post_def)
qed

lemma read_data_loop_eq:
  assumes "in_ok (as_stream t s)" "length buffer = wanted" "count \<le> wanted" "dst = take count buffer"
  shows "read_data_loop mv wanted buffer count s =
    (case read_loop mv wanted dst (as_stream t s) of (r, t') \<Rightarrow> (filled buffer r, of_stream s t'))"
  using assms
proof (induction mv wanted buffer count s arbitrary: dst rule: read_data_loop.induct)
  case (1 mv wanted buffer count s)
  note prems = "1.prems" and fields = as_stream_def of_stream_def
  show ?case
  proof (cases "count < wanted")
    case False
    with prems show ?thesis
      by (subst read_data_loop.simps, subst read_loop.simps) simp
  next
    case True
    have len: "length dst = count" using prems by simp
    show ?thesis
    proof (cases "au_read_left s > 0")
      case left: True
      let ?a = "min (wanted - count) (au_read_left s)"
      let ?src = "take ?a (drop (length (au_read_buffer s) - au_read_left s) (au_read_buffer s))"
      let ?s = "s\<lparr>au_read_left := au_read_left s - ?a\<rparr>"
      have src: "length ?src = ?a" "0 < length ?src" using prems(1) True left by (simp_all add: in_ok_def fields)
      have ok: "in_ok (as_stream t ?s)" using prems(1) by (auto simp: in_ok_def fields)
      have post: "read_post wanted (dst @ ?src) (as_stream t ?s) (read_loop mv wanted (dst @ ?src) (as_stream t ?s))"
        by (rule read_loop_post [OF ok]) (use prems src True in auto)
      have "read_data_loop mv wanted buffer count s =
          read_data_loop mv wanted (copy_to count ?src buffer) (count + ?a) ?s"
        by (subst read_data_loop.simps) (simp add: True left Let_def)
      also have "\<dots> = (case read_loop mv wanted (dst @ ?src) (as_stream t ?s) of
          (r, t') \<Rightarrow> (filled (copy_to count ?src buffer) r, of_stream ?s t'))"
        by (rule "1.IH"(1) [OF True left refl refl ok]) (use prems src in \<open>auto simp: copy_to_def\<close>)
      also have "\<dots> = (case read_loop mv wanted (dst @ ?src) (as_stream t ?s) of
          (r, t') \<Rightarrow> (filled buffer r, of_stream s t'))"
        using filled_copy [OF post] prems src True len by (simp add: of_stream_def split_beta)
      also have "read_loop mv wanted (dst @ ?src) (as_stream t ?s) = read_loop mv wanted dst (as_stream t s)"
        by (subst (2) read_loop.simps) (simp add: True left len Let_def as_stream_def)
      finally show ?thesis .
    next
      case False
      have wf: "bq_wf (au_queue s)" using prems(1) by (simp add: in_ok_def fields)
      show ?thesis
      proof (cases rule: pop_cases [OF wf, where mv = mv])
        case (1 b q)
        let ?s = "s\<lparr>au_queue := q, au_read_buffer := b, au_read_left := length b\<rparr>"
        obtain ns where pop: "(if count = 0 then pop_locked mv (au_queue s) else Return (try_pop_locked mv (au_queue s))) =
            Return (0, Some b, q, ns)" using 1(4,5) by (cases "count = 0") auto
        have "read_data_loop mv wanted buffer count s = read_data_loop mv wanted buffer count ?s"
          by (subst read_data_loop.simps) (simp add: True False pop)
        also have "\<dots> = (case read_loop mv wanted dst (as_stream t ?s) of (r, t') \<Rightarrow> (filled buffer r, of_stream ?s t'))"
          using "1.IH"(2) [OF True False pop refl refl refl refl] prems 1(2) by (simp add: in_ok_def fields)
        also have "read_loop mv wanted dst (as_stream t ?s) = read_loop mv wanted dst (as_stream t s)"
          by (subst (2) read_loop.simps) (use pop True False len in \<open>auto simp: as_stream_def split: if_splits\<close>)
        finally show ?thesis by (simp add: of_stream_def)
      next
        case 2
        have "buffer = dst @ drop (length dst) buffer" using prems(4) len by simp
        with 2 True False len show ?thesis
          by (subst read_data_loop.simps, subst read_loop.simps)
            (auto simp: as_stream_def of_stream_def pop_locked_def try_pop_locked_empty)
      qed
    qed
  qed
qed

section \<open>Every sample is played once and in order\<close>

definition au_pending :: "audio_sink \<Rightarrow> bytes" where
  "au_pending s = drop (length (au_read_buffer s) - au_read_left s) (au_read_buffer s) @ concat (bq_contents (au_queue s))"

definition au_ok :: "audio_sink \<Rightarrow> bool" where
  "au_ok s \<longleftrightarrow> bq_wf (au_queue s) \<and> au_read_left s \<le> length (au_read_buffer s) \<and> \<not> bq_closed (au_queue s)"

lemma as_stream_ok: "au_ok s \<Longrightarrow> in_ok (as_stream t s)"
  by (simp add: au_ok_def in_ok_def as_stream_def)

lemma unread_as_stream [simp]: "unread (as_stream t s) = au_pending s"
  by (simp add: unread_def as_stream_def au_pending_def)

lemma pending_of_stream [simp]: "au_pending (of_stream s t) = unread t"
  by (simp add: unread_def of_stream_def au_pending_def)

lemma read_data_ok:
  assumes "au_ok s" "read_data mv block s = (Some block', s')"
  shows "au_ok s' \<and> block' = take (length block) (au_pending s) @ drop (length (au_pending s)) block \<and>
    au_pending s' = drop (length block) (au_pending s) \<and> (block \<noteq> [] \<longrightarrow> au_pending s \<noteq> [])"
proof -
  fix t :: io_stream
  let ?rt = "stream_read mv (length block) (as_stream t s)"
  have post: "read_post (length block) [] (as_stream t s) ?rt"
    by (rule stream_read_post [OF as_stream_ok [OF assms(1)]])
  have eq: "filled block (fst ?rt) = Some block'" "s' = of_stream s (snd ?rt)"
    using assms(2) read_data_loop_eq [OF as_stream_ok [OF assms(1)] refl, of 0 block "[]" mv t]
    by (auto simp: read_data_def stream_read_def split_beta)
  have open_queue: "\<not> bq_closed (is_in (as_stream t s))" using assms(1) by (simp add: au_ok_def as_stream_def)
  obtain bs where bs: "fst ?rt = Read_data bs"
    using read_post_failedD [OF post] eq(1) open_queue by (cases "fst ?rt") simp_all
  note d = read_post_dataD [OF post bs]
  have r: "bs = take (length block) (au_pending s)" "unread (snd ?rt) = drop (length block) (au_pending s)"
      "bs = [] \<longrightarrow> block = []" "in_ok (snd ?rt)" "\<not> bq_closed (is_in (snd ?rt))"
    using d open_queue by (simp_all only: append_Nil list.size diff_zero unread_as_stream length_0_conv simp_thms)
  have "block' = bs @ drop (length bs) block" using eq(1) bs by simp
  also have "drop (length bs) block = drop (length (au_pending s)) block" using r(1) by (simp add: min_def)
  finally have "block' = bs @ drop (length (au_pending s)) block" .
  moreover have "au_ok s'" unfolding eq(2) au_ok_def using r(4,5) by (simp add: in_ok_def of_stream_def)
  moreover have "au_pending s' = drop (length block) (au_pending s)" unfolding eq(2) pending_of_stream by (rule r(2))
  moreover have "block \<noteq> [] \<longrightarrow> au_pending s \<noteq> []" using r(1,3) by (metis take_Nil)
  ultimately show ?thesis unfolding r(1) by (intro conjI)
qed

lemma connect_audio_queue:
  "connect_audio opened s = (b, s', cs) \<Longrightarrow> au_queue s' = au_queue s \<and> au_read_buffer s' = au_read_buffer s \<and>
     au_read_left s' = au_read_left s \<and> (b \<longleftrightarrow> au_device_id s' \<noteq> 0) \<and> (au_device_id s \<noteq> 0 \<longrightarrow> s' = s)"
  by (auto simp: connect_audio_def Let_def word_gt_0 split: if_splits)

lemma write_data_ok:
  assumes "au_ok s" "write_data opened data s = Return (stored, s', cs, ns)"
  shows "au_ok s' \<and> au_pending s' = au_pending s @ (if stored then data else []) \<and> (stored \<longleftrightarrow> au_device_id s' \<noteq> 0)"
proof -
  obtain b u cs' where c: "connect_audio opened s = (b, u, cs')" by (metis prod_cases3)
  note u = connect_audio_queue [OF c]
  show ?thesis
  proof (cases b)
    case False
    with assms c u show ?thesis by (simp add: write_data_def au_ok_def au_pending_def)
  next
    case True
    with assms(2) c obtain r q where p: "push_locked data (au_queue u) = Return (r, q, ns)"
      "stored = (r = 0)" "s' = u\<lparr>au_queue := q\<rparr>" by (auto simp: write_data_def split: blocking.splits)
    have "bq_wf (au_queue u)" using assms(1) u by (simp add: au_ok_def)
    from push_locked_Return [OF this p(1)] push_locked_closed [OF p(1)] assms(1) u p(2,3) True show ?thesis
      by (cases "r = 0") (simp_all add: au_ok_def au_pending_def)
  qed
qed

text \<open>
  A run of the sink: the data the guest wrote while a device was there, and SDL's blocks before
  and after each call of the callback.
\<close>

inductive audio_run :: "(bytes \<Rightarrow> bytes) \<Rightarrow> bytes \<Rightarrow> (bytes \<times> bytes) list \<Rightarrow> audio_sink \<Rightarrow> bool" for mv where
  audio_start: "audio_run mv [] [] new_audio_sink"
| audio_write: "audio_run mv written blocks s \<Longrightarrow> write_data opened data s = Return (stored, s', cs, ns) \<Longrightarrow>
    audio_run mv (written @ (if stored then data else [])) blocks s'"
| audio_read: "audio_run mv written blocks s \<Longrightarrow> read_data mv block s = (Some block', s') \<Longrightarrow>
    audio_run mv written (blocks @ [(block, block')]) s'"

text \<open>\<open>xs\<close> are the samples at the front of a filled block; the rest of the block is as SDL gave it.\<close>

definition carries :: "bytes \<Rightarrow> bytes \<times> bytes \<Rightarrow> bool" where
  "carries xs b \<longleftrightarrow> snd b = xs @ drop (length xs) (fst b) \<and> length xs \<le> length (fst b) \<and> (fst b \<noteq> [] \<longrightarrow> xs \<noteq> [])"

lemma new_audio_sink_ok: "au_ok new_audio_sink" "au_pending new_audio_sink = []"
  by (simp_all add: au_ok_def au_pending_def new_audio_sink_def new_buffer_queue_wf new_buffer_queue_contents
      max_queue_size_def, simp add: new_buffer_queue_def)

lemma read_data_carries:
  assumes "au_ok s" "read_data mv block s = (Some block', s')"
  shows "\<exists>xs. carries xs (block, block') \<and> au_pending s = xs @ au_pending s'"
proof (intro exI conjI)
  note r = read_data_ok [OF assms]
  show "au_pending s = take (length block) (au_pending s) @ au_pending s'" using r by simp
  have "drop (length (take (length block) (au_pending s))) block = drop (length (au_pending s)) block"
    by (simp add: min_def)
  with r show "carries (take (length block) (au_pending s)) (block, block')" by (simp add: carries_def)
qed


definition sample_sink :: audio_sink where
  "sample_sink = new_audio_sink\<lparr>au_device_id := 5,
     au_queue := fst (snd (try_push_locked [1, 2, 3] (au_queue new_audio_sink)))\<rparr>"

lemmas sink_simps = sample_sink_def write_data_def connect_audio_def new_audio_sink_def push_locked_def try_push_locked_def
  new_buffer_queue_def max_queue_size_def read_data_def copy_to_def pop_locked_def try_pop_locked_def


text \<open>
  A client that asks for recording is approved, and the first data it sends is a call through a
  null pointer.
\<close>

theorem recording_client_undefined:
  "fst (audio_create_connection (Some 1) s) = Some [1] \<and>
   as_connections (snd (audio_create_connection (Some 1) s)) = conn_add (as_next_id s) No_processor (as_connections s) \<and>
   audio_process_data No_processor opened data sink = Inl (Undefined ''call through a null processor'')"
  by (simp add: audio_create_connection_def audio_process_data_def conn_add_def)

end
