(* ===== verification/Rootfs_Mounts.thy ===== *)
theory Rootfs_Mounts
  imports Lxc_Container
begin

text \<open>
  The mounts of the Android image (\<open>cmds/container_manager.cpp\<close>, \<open>common/mount_entry.cpp\<close>,
  \<open>common/loop_device.cpp\<close>, \<open>common/loop_device_allocator.cpp\<close>). System calls are a trace; their
  answers are the record \<open>mount_host\<close>, existence of files and the data directory are the
  \<open>host_view\<close> of \<open>Lxc_Container\<close>. Objects are destroyed where C++ destroys them: a local at the end
  of its scope, the elements of a vector from the front.
\<close>

section \<open>System calls\<close>

datatype mount_call =
    Make_directory string
  | Make_directories string
  | Chown_dir string nat nat
  | Open_file string int                            \<comment> \<open>path and the descriptor, negative on failure\<close>
  | Close_fd int
  | Loop_ctl_get_free int
  | Loop_set_fd int int bool
  | Loop_clr_fd int
  | Mount_fs string string "string option" u64 "string option" bool
  | Exec_mount "string list" bool
  | Umount string

datatype dir_result = Dir_created | Dir_present | Dir_error
datatype exec_result = Exec_success | Exec_failure | Exec_throws

record mount_host =
  mh_open :: "string \<Rightarrow> int"
  mh_free_loop :: int
  mh_set_fd :: bool
  mh_mount :: "string \<Rightarrow> bool"                      \<comment> \<open>by target\<close>
  mh_create :: "string \<Rightarrow> dir_result"
  mh_chown :: "string \<Rightarrow> bool"
  mh_exec :: exec_result
  mh_mtab :: "string option list option"
  mh_getenv :: "string \<rightharpoonup> string"
  mh_is_exec :: "string \<Rightarrow> bool"

definition MS_RDONLY :: u64 where "MS_RDONLY = 1"
definition MS_BIND :: u64 where "MS_BIND = 4096"
definition MS_PRIVATE :: u64 where "MS_PRIVATE = 262144"
definition MS_MGC_VAL :: u64 where "MS_MGC_VAL = 0xC0ED0000"

section \<open>Loop devices\<close>

record loop_device =
  ld_fd :: int
  ld_path :: string

definition loop_create :: "mount_host \<Rightarrow> string \<Rightarrow> loop_device res \<times> mount_call list" where
  "loop_create mh path =
     (let fd = mh_open mh path
      in if fd < 0 then (Inl (System_error ''open''), [Open_file path fd])
         else (Inr \<lparr>ld_fd = fd, ld_path = path\<rparr>, [Open_file path fd]))"

text \<open>The destructor's body closes the descriptor, the destructor of the member \<open>Fd\<close> does so again.\<close>

definition loop_dtor :: "loop_device \<Rightarrow> mount_call list" where
  "loop_dtor l =
     (if ld_fd l < 0 then [] else [Loop_clr_fd (ld_fd l), Close_fd (ld_fd l)]) @
     (if ld_fd l > - 1 then [Close_fd (ld_fd l)] else [])"

definition attach_file :: "mount_host \<Rightarrow> string \<Rightarrow> loop_device \<Rightarrow> bool \<times> mount_call list" where
  "attach_file mh file_path l =
     (if ld_fd l < 0 then (False, [])
      else
        (let file_fd = mh_open mh file_path
         in if file_fd < 0 then (False, [Open_file file_path file_fd])
            else (mh_set_fd mh,
                  [Open_file file_path file_fd, Loop_set_fd (ld_fd l) file_fd (mh_set_fd mh), Close_fd file_fd])))"

definition new_loop_device :: "mount_host \<Rightarrow> loop_device res \<times> mount_call list" where
  "new_loop_device mh =
     (let ctl = mh_open mh ''/dev/loop-control''; opened = Open_file ''/dev/loop-control'' ctl
      in if ctl < 0 then (Inl (System_error ''open''), [opened])
         else if mh_free_loop mh < 0
         then (Inl (System_error ''ioctl''), [opened, Loop_ctl_get_free (mh_free_loop mh), Close_fd ctl])
         else (case loop_create mh (''/dev/loop'' @ show_int (mh_free_loop mh)) of
                 (r, tr) \<Rightarrow> (r, [opened, Loop_ctl_get_free (mh_free_loop mh)] @ tr @ [Close_fd ctl])))"

section \<open>Mount entries\<close>

record mount_entry =
  me_active :: bool
  me_loop :: "loop_device option"
  me_target :: string

definition opt_string :: "string \<Rightarrow> string option" where
  "opt_string s = (if s = [] then None else Some s)"

definition mount_create ::
  "mount_host \<Rightarrow> string \<Rightarrow> string \<Rightarrow> string \<Rightarrow> u64 \<Rightarrow> string \<Rightarrow> mount_entry option \<times> mount_call list" where
  "mount_create mh src target fs_type flags data =
     (let done_ok = mh_mount mh target
      in (if done_ok then Some \<lparr>me_active = True, me_loop = None, me_target = target\<rparr> else None,
          [Mount_fs src target (opt_string fs_type) flags (opt_string data) done_ok]))"

definition mount_create_loop ::
  "mount_host \<Rightarrow> loop_device \<Rightarrow> string \<Rightarrow> string \<Rightarrow> u64 \<Rightarrow> string \<Rightarrow> mount_entry option \<times> mount_call list" where
  "mount_create_loop mh l target fs_type flags data =
     (case mount_create mh (ld_path l) target fs_type flags data of
        (None, tr) \<Rightarrow> (None, tr)
      | (Some e, tr) \<Rightarrow> (Some (e\<lparr>me_loop := Some l\<rparr>), tr))"

definition mount_existing :: "string \<Rightarrow> mount_entry" where
  "mount_existing target = \<lparr>me_active = True, me_loop = None, me_target = target\<rparr>"

definition mount_dtor :: "mount_entry \<Rightarrow> mount_call list" where
  "mount_dtor e =
     (if me_active e then [Umount (me_target e)] else []) @ (case me_loop e of None \<Rightarrow> [] | Some l \<Rightarrow> loop_dtor l)"

section \<open>The container manager\<close>

record manager =
  mg_android_img_path :: string
  mg_rootfs_overlay :: bool
  mg_squashfuse :: bool
  mg_mounts :: "mount_entry list"
  mg_trace :: "mount_call list"

definition log_calls :: "mount_call list \<Rightarrow> manager \<Rightarrow> manager" where
  "log_calls tr m = m\<lparr>mg_trace := mg_trace m @ tr\<rparr>"

definition add_mount :: "mount_entry \<Rightarrow> manager \<Rightarrow> manager" where
  "add_mount e m = m\<lparr>mg_mounts := mg_mounts m @ [e]\<rparr>"

text \<open>\<open>mounts_.clear()\<close>, and the destruction of the vector.\<close>

definition clear_mounts :: "manager \<Rightarrow> manager" where
  "clear_mounts m = (log_calls (concat (map mount_dtor (mg_mounts m))) m)\<lparr>mg_mounts := []\<rparr>"

text \<open>A directory that is made when it is missing; an error of the file system throws.\<close>

definition ensure_dir :: "mount_host \<Rightarrow> host_view \<Rightarrow> mount_call \<Rightarrow> string \<Rightarrow> manager \<Rightarrow> unit res \<times> manager" where
  "ensure_dir mh hv c path m =
     (if hv_exists hv path then (Inr (), m)
      else (if mh_create mh path = Dir_error then Inl (System_error ''create_directory'') else Inr (), log_calls [c] m))"

definition overlay_dir :: "host_view \<Rightarrow> string" where "overlay_dir hv = data_path hv ''rootfs-overlay''"

definition setup_rootfs_overlay :: "mount_host \<Rightarrow> host_view \<Rightarrow> manager \<Rightarrow> bool res \<times> manager" where
  "setup_rootfs_overlay mh hv m =
     (let combined = combined_rootfs_dir hv; overlay = overlay_dir hv
      in case ensure_dir mh hv (Make_directories combined) combined m of
           (Inl e, m) \<Rightarrow> (Inl e, m)
         | (Inr _, m) \<Rightarrow>
             (case ensure_dir mh hv (Make_directories overlay) overlay m of
                (Inl e, m) \<Rightarrow> (Inl e, m)
              | (Inr _, m) \<Rightarrow>
                  (let overlay_config = ''lowerdir='' @ overlay @ '':'' @ rootfs_dir hv
                   in case mount_create mh ''overlay'' combined ''overlay'' MS_RDONLY overlay_config of
                        (None, tr) \<Rightarrow> (Inr False, clear_mounts (log_calls tr m))
                      | (Some e, tr) \<Rightarrow> (Inr True, add_mount e (log_calls tr m)))))"

definition unprivileged_user_id :: nat where "unprivileged_user_id = 100000"

text \<open>One directory of the loop over \<open>cache\<close> and \<open>data\<close>.\<close>

definition mount_dir :: "mount_host \<Rightarrow> host_view \<Rightarrow> string \<Rightarrow> string \<Rightarrow> manager \<Rightarrow> bool res \<times> manager" where
  "mount_dir mh hv final_rootfs dir_name m =
     (let target = final_rootfs @ ''/'' @ dir_name; src = data_path hv dir_name;
          bind = (\<lambda>m. case mount_create mh src target [] (MS_MGC_VAL OR MS_BIND OR MS_PRIVATE) [] of
                         (None, tr) \<Rightarrow> (Inr False, clear_mounts (log_calls tr m))
                       | (Some e, tr) \<Rightarrow> (Inr True, add_mount e (log_calls tr m)))
      in if hv_exists hv src then bind m
         else (let m = log_calls [Make_directory src] m
               in case mh_create mh src of
                    Dir_error \<Rightarrow> (Inl (System_error ''create_directory''), m)
                  | Dir_present \<Rightarrow> (Inr False, clear_mounts m)
                  | Dir_created \<Rightarrow>
                      (let m = log_calls [Chown_dir src unprivileged_user_id unprivileged_user_id] m
                       in if mh_chown mh src then bind m else (Inr False, clear_mounts m))))"

fun mount_dirs :: "mount_host \<Rightarrow> host_view \<Rightarrow> string \<Rightarrow> string list \<Rightarrow> manager \<Rightarrow> bool res \<times> manager" where
  "mount_dirs mh hv final_rootfs [] m = (Inr True, m\<lparr>mg_mounts := rev (mg_mounts m)\<rparr>)"
| "mount_dirs mh hv final_rootfs (d # ds) m =
     (case mount_dir mh hv final_rootfs d m of
        (Inr True, m) \<Rightarrow> mount_dirs mh hv final_rootfs ds m
      | (r, m) \<Rightarrow> (r, m))"

text \<open>The image through a loop device. The device is destroyed on every path that does not keep it.\<close>

definition mount_image_loop :: "mount_host \<Rightarrow> host_view \<Rightarrow> string \<Rightarrow> manager \<Rightarrow> bool res \<times> manager" where
  "mount_image_loop mh hv img m =
     (case new_loop_device mh of
        (Inl e, tr) \<Rightarrow> (Inr False, log_calls tr m)
      | (Inr l, tr) \<Rightarrow>
          (let m = log_calls tr m
           in case attach_file mh img l of
                (False, tr) \<Rightarrow> (Inr False, log_calls (tr @ loop_dtor l) m)
              | (True, tr) \<Rightarrow>
                  (let m = log_calls tr m
                   in case mount_create_loop mh l (rootfs_dir hv) ''squashfs'' (MS_MGC_VAL OR MS_RDONLY OR MS_PRIVATE) [] of
                        (None, tr) \<Rightarrow> (Inr False, log_calls (tr @ loop_dtor l) m)
                      | (Some e, tr) \<Rightarrow> (Inr True, add_mount e (log_calls tr m)))))"

definition mount_image_fuse :: "mount_host \<Rightarrow> host_view \<Rightarrow> string \<Rightarrow> manager \<Rightarrow> bool res \<times> manager" where
  "mount_image_fuse mh hv img m =
     (let args = [''-t'', ''fuse.squashfuse'', ''-o'', ''allow_other'', img, rootfs_dir hv]
      in case mh_exec mh of
           Exec_throws \<Rightarrow> (Inl (System_error ''exec''), m)
         | Exec_failure \<Rightarrow> (Inr False, log_calls [Exec_mount args False] m)
         | Exec_success \<Rightarrow> (Inr True, add_mount (mount_existing (rootfs_dir hv)) (log_calls [Exec_mount args True] m)))"

definition mount_image :: "mount_host \<Rightarrow> host_view \<Rightarrow> string \<Rightarrow> manager \<Rightarrow> bool res \<times> manager" where
  "mount_image mh hv img m =
     (let m = (if \<not> hv_exists hv ''/dev/loop-control'' \<and> \<not> mg_squashfuse m then m\<lparr>mg_squashfuse := True\<rparr> else m)
      in if \<not> mg_squashfuse m then mount_image_loop mh hv img m
         else if hv_exists hv ''/dev/fuse''
         then (case find_program_on_path (mh_getenv mh) (mh_is_exec mh) ''squashfuse'' of
                 Inl e \<Rightarrow> (Inl e, m)
               | Inr p \<Rightarrow> if p \<noteq> [] then mount_image_fuse mh hv img m else (Inr False, m))
         else (Inr False, m))"

definition setup_mounts :: "mount_host \<Rightarrow> host_view \<Rightarrow> manager \<Rightarrow> bool res \<times> manager" where
  "setup_mounts mh hv m =
     (let img = (if mg_android_img_path m = [] then data_path hv ''android.img'' else mg_android_img_path m);
          rootfs = rootfs_dir hv
      in if \<not> hv_exists hv img then (Inr False, m)
         else if is_mounted (mh_mtab mh) rootfs then (Inr False, m)
         else
           (case ensure_dir mh hv (Make_directory rootfs) rootfs m of
              (Inl e, m) \<Rightarrow> (Inl e, m)
            | (Inr _, m) \<Rightarrow>
                (case mount_image mh hv img m of
                   (Inr True, m) \<Rightarrow>
                     (if mg_rootfs_overlay m
                      then (case setup_rootfs_overlay mh hv m of
                              (Inr True, m) \<Rightarrow> mount_dirs mh hv (combined_rootfs_dir hv) [''cache'', ''data''] m
                            | (r, m) \<Rightarrow> (r, m))
                      else mount_dirs mh hv rootfs [''cache'', ''data''] m)
                 | (r, m) \<Rightarrow> (r, m))))"

text \<open>The whole life of the manager's mounts: the set-up, and the destructor.\<close>

definition manager_life :: "mount_host \<Rightarrow> host_view \<Rightarrow> manager \<Rightarrow> bool res \<times> mount_call list" where
  "manager_life mh hv m = (case setup_mounts mh hv m of (r, m) \<Rightarrow> (r, mg_trace (clear_mounts m)))"

section \<open>What was mounted is unmounted\<close>

fun call_mounts :: "mount_call \<Rightarrow> string list" where
  "call_mounts (Mount_fs src target fs_type flags data ok) = (if ok then [target] else [])"
| "call_mounts (Exec_mount args ok) = (if ok then [last args] else [])"
| "call_mounts _ = []"

fun call_umounts :: "mount_call \<Rightarrow> string list" where
  "call_umounts (Umount target) = [target]"
| "call_umounts _ = []"

definition mounted :: "mount_call list \<Rightarrow> string list" where "mounted tr = concat (map call_mounts tr)"
definition unmounted :: "mount_call list \<Rightarrow> string list" where "unmounted tr = concat (map call_umounts tr)"

lemma mounted_simps [simp]:
  "mounted [] = []" "mounted (c # tr) = call_mounts c @ mounted tr" "mounted (tr @ tr') = mounted tr @ mounted tr'"
  "unmounted [] = []" "unmounted (c # tr) = call_umounts c @ unmounted tr"
  "unmounted (tr @ tr') = unmounted tr @ unmounted tr'"
  by (simp_all add: mounted_def unmounted_def)

text \<open>While the mounts are set up they are those of the trace; after a failure all are undone.\<close>

definition held :: "manager \<Rightarrow> bool" where
  "held m \<longleftrightarrow> unmounted (mg_trace m) = [] \<and> mounted (mg_trace m) = map me_target (mg_mounts m) \<and>
     (\<forall>e \<in> set (mg_mounts m). me_active e)"

definition undone :: "manager \<Rightarrow> bool" where
  "undone m \<longleftrightarrow> mg_mounts m = [] \<and> unmounted (mg_trace m) = mounted (mg_trace m)"

fun outcome :: "bool res \<times> manager \<Rightarrow> bool" where
  "outcome (Inr False, m) = undone m"
| "outcome (r, m) = held m"

lemma loop_dtor_silent [simp]: "mounted (loop_dtor l) = []" "unmounted (loop_dtor l) = []"
  by (simp_all add: loop_dtor_def)

lemma mount_dtor_silent [simp]:
  "mounted (mount_dtor e) = []" "unmounted (mount_dtor e) = (if me_active e then [me_target e] else [])"
  by (simp_all add: mount_dtor_def split: option.split)

lemma dtors_unmount:
  "mounted (concat (map mount_dtor es)) = []"
  "\<forall>e \<in> set es. me_active e \<Longrightarrow> unmounted (concat (map mount_dtor es)) = map me_target es"
  by (induction es) simp_all

lemma log_calls_fields [simp]:
  "mg_trace (log_calls tr m) = mg_trace m @ tr" "mg_mounts (log_calls tr m) = mg_mounts m"
  "mg_rootfs_overlay (log_calls tr m) = mg_rootfs_overlay m"
  by (simp_all add: log_calls_def)

lemma clear_mounts_fields [simp]:
  "mg_trace (clear_mounts m) = mg_trace m @ concat (map mount_dtor (mg_mounts m))" "mg_mounts (clear_mounts m) = []"
  by (simp_all add: clear_mounts_def)

lemma held_log [intro]: "held m \<Longrightarrow> mounted tr = [] \<Longrightarrow> unmounted tr = [] \<Longrightarrow> held (log_calls tr m)"
  by (simp add: held_def)

lemma held_clear [intro]: "held m \<Longrightarrow> undone (clear_mounts m)"
  by (simp add: held_def undone_def dtors_unmount)

lemma held_add [intro]:
  "held m \<Longrightarrow> mounted tr = [me_target e] \<Longrightarrow> unmounted tr = [] \<Longrightarrow> me_active e \<Longrightarrow> held (add_mount e (log_calls tr m))"
  by (simp add: held_def add_mount_def)

lemma mount_create_cases:
  "mount_create mh src target fs_type flags data = (Some e, tr) \<Longrightarrow>
     me_target e = target \<and> me_active e \<and> mounted tr = [target] \<and> unmounted tr = []"
  "mount_create mh src target fs_type flags data = (None, tr) \<Longrightarrow> mounted tr = [] \<and> unmounted tr = []"
  by (auto simp: mount_create_def Let_def split: if_splits)

lemma ensure_dir_held:
  assumes "held m" "ensure_dir mh hv c path m = (r, m')" "call_mounts c = []" "call_umounts c = []"
  shows "held m' \<and> mg_mounts m' = mg_mounts m"
  using assms by (auto simp: ensure_dir_def split: if_splits)

lemma mount_or_clear:
  assumes "held m"
  shows "outcome (case mount_create mh src target fs_type flags data of
    (None, tr) \<Rightarrow> (Inr False, clear_mounts (log_calls tr m))
  | (Some e, tr) \<Rightarrow> (Inr True, add_mount e (log_calls tr m)))"
proof (cases "fst (mount_create mh src target fs_type flags data)")
  case None
  then obtain tr where c: "mount_create mh src target fs_type flags data = (None, tr)" by (metis prod.collapse)
  note mount_create_cases(2) [OF c]
  then show ?thesis using assms by (auto simp: c intro!: held_clear held_log)
next
  case (Some e)
  then obtain tr where c: "mount_create mh src target fs_type flags data = (Some e, tr)" by (metis prod.collapse)
  note mount_create_cases(1) [OF c]
  then show ?thesis using assms by (auto simp: c intro!: held_add)
qed

lemma setup_rootfs_overlay_outcome:
  assumes "held m"
  shows "outcome (setup_rootfs_overlay mh hv m)"
proof -
  obtain r1 m1 where 1: "ensure_dir mh hv (Make_directories (combined_rootfs_dir hv)) (combined_rootfs_dir hv) m = (r1, m1)"
    by fastforce
  then have h1: "held m1" using ensure_dir_held [OF assms 1] by simp
  obtain r2 m2 where 2: "ensure_dir mh hv (Make_directories (overlay_dir hv)) (overlay_dir hv) m1 = (r2, m2)"
    by fastforce
  then have h2: "held m2" using ensure_dir_held [OF h1 2] by simp
  show ?thesis
    using h1 h2 mount_or_clear [OF h2]
    by (cases r1; cases r2) (simp_all add: setup_rootfs_overlay_def 1 2)
qed

lemma mount_dir_outcome:
  assumes "held m"
  shows "outcome (mount_dir mh hv final_rootfs d m)"
  using assms
  by (auto simp: mount_dir_def Let_def intro!: mount_or_clear held_log held_clear split: dir_result.split)

text \<open>The last step of a set-up that succeeds reverses the list.\<close>

fun finished :: "bool res \<times> manager \<Rightarrow> bool" where
  "finished (Inr True, m) = held (m\<lparr>mg_mounts := rev (mg_mounts m)\<rparr>)"
| "finished (r, m) = outcome (r, m)"

lemma outcome_finished: "r \<noteq> Inr True \<Longrightarrow> outcome (r, m) \<Longrightarrow> finished (r, m)"
  by (cases "(r, m)" rule: finished.cases) auto

lemma mount_dirs_outcome:
  "held m \<Longrightarrow> mount_dirs mh hv final_rootfs ds m = (r, m') \<Longrightarrow>
     finished (r, m')"
proof (induction ds arbitrary: m)
  case (Cons d ds)
  obtain r1 m1 where 1: "mount_dir mh hv final_rootfs d m = (r1, m1)" by fastforce
  have o: "outcome (r1, m1)" using mount_dir_outcome [OF Cons.prems(1), of mh hv final_rootfs d] 1 by simp
  show ?case
  proof (cases "r1 = Inr True")
    case True
    with o 1 Cons.prems(2) Cons.IH [of m1] show ?thesis by simp
  next
    case False
    with 1 Cons.prems(2) have "(r, m') = (r1, m1)" by (auto split: sum.splits bool.splits)
    with outcome_finished [OF False o] show ?thesis by simp
  qed
qed (auto simp: held_def)

lemma new_loop_device_silent:
  "new_loop_device mh = (r, tr) \<Longrightarrow> mounted tr = [] \<and> unmounted tr = []"
  by (auto simp: new_loop_device_def loop_create_def Let_def split: if_splits)

lemma attach_file_silent:
  "attach_file mh img l = (r, tr) \<Longrightarrow> mounted tr = [] \<and> unmounted tr = []"
  by (auto simp: attach_file_def Let_def split: if_splits)

lemma mount_create_loop_cases:
  "mount_create_loop mh l target fs_type flags data = (Some e, tr) \<Longrightarrow>
     me_target e = target \<and> me_active e \<and> mounted tr = [target] \<and> unmounted tr = []"
  "mount_create_loop mh l target fs_type flags data = (None, tr) \<Longrightarrow> mounted tr = [] \<and> unmounted tr = []"
  by (auto simp: mount_create_loop_def dest: mount_create_cases split: prod.splits option.splits)

lemma held_empty: "held m \<Longrightarrow> mg_mounts m = [] \<Longrightarrow> undone m"
  by (simp add: held_def undone_def)

lemma mount_image_loop_outcome:
  assumes "held m" "mg_mounts m = []"
  shows "outcome (mount_image_loop mh hv img m)"
proof -
  obtain r tr where 1: "new_loop_device mh = (r, tr)" by fastforce
  have h1: "held (log_calls tr m)" using assms(1) new_loop_device_silent [OF 1] by auto
  show ?thesis
  proof (cases r)
    case (Inl e)
    then show ?thesis using h1 assms(2) by (simp add: mount_image_loop_def 1 held_empty)
  next
    case (Inr l)
    obtain b tr2 where 2: "attach_file mh img l = (b, tr2)" by fastforce
    obtain e tr3 where 3: "mount_create_loop mh l (rootfs_dir hv) ''squashfs'' (MS_MGC_VAL OR MS_RDONLY OR MS_PRIVATE) [] =
        (e, tr3)" by fastforce
    have h2: "held (log_calls tr2 (log_calls tr m))" using h1 attach_file_silent [OF 2] by auto
    show ?thesis
    proof (cases "b \<and> e \<noteq> None")
      case True
      with h2 3 mount_create_loop_cases(1) show ?thesis
        by (auto simp: mount_image_loop_def 1 Inr 2 intro!: held_add)
    next
      case False
      have "held (log_calls (tr2 @ loop_dtor l) (log_calls tr m))" using h1 attach_file_silent [OF 2] by auto
      moreover have "e = None \<Longrightarrow> held (log_calls (tr3 @ loop_dtor l) (log_calls tr2 (log_calls tr m)))"
        using h2 mount_create_loop_cases(2) 3 by auto
      ultimately show ?thesis
        using False assms(2) by (cases b) (auto simp: mount_image_loop_def 1 Inr 2 3 intro!: held_empty)
    qed
  qed
qed

lemma held_squashfuse [simp]: "held (m\<lparr>mg_squashfuse := b\<rparr>) = held m" "undone (m\<lparr>mg_squashfuse := b\<rparr>) = undone m"
  by (simp_all add: held_def undone_def)

lemma mount_image_fuse_outcome:
  assumes "held m" "mg_mounts m = []"
  shows "outcome (mount_image_fuse mh hv img m)"
  using assms
  by (auto simp: mount_image_fuse_def Let_def mount_existing_def intro!: held_add held_empty held_log
      split: exec_result.split)

lemma mount_image_outcome:
  assumes "held m" "mg_mounts m = []"
  shows "outcome (mount_image mh hv img m)"
  using assms held_empty [OF assms] mount_image_loop_outcome mount_image_fuse_outcome
  by (auto simp: mount_image_def Let_def split: sum.split)

lemma setup_mounts_finished:
  assumes "held m" "mg_mounts m = []"
  shows "finished (setup_mounts mh hv m)"
proof -
  let ?rootfs = "rootfs_dir hv"
  obtain r1 m1 where 1: "ensure_dir mh hv (Make_directory ?rootfs) ?rootfs m = (r1, m1)" by fastforce
  have h1: "held m1" "mg_mounts m1 = []" using ensure_dir_held [OF assms(1) 1] assms(2) by simp_all
  define img where "img = (if mg_android_img_path m = [] then data_path hv ''android.img'' else mg_android_img_path m)"
  obtain r2 m2 where 2: "mount_image mh hv img m1 = (r2, m2)" by fastforce
  have o2: "outcome (r2, m2)" using mount_image_outcome [OF h1, of mh hv img] 2 by simp
  obtain r3 m3 where 3: "setup_rootfs_overlay mh hv m2 = (r3, m3)" by fastforce
  have o3: "outcome (r3, m3)" if "r2 = Inr True"
    using setup_rootfs_overlay_outcome [of m2 mh hv] o2 3 that by simp
  have dirs: "finished (mount_dirs mh hv d ds m')" if "held m'" for d ds m'
    using mount_dirs_outcome [OF that] by (metis prod.collapse)
  have eq: "setup_mounts mh hv m =
      (if \<not> hv_exists hv img \<or> is_mounted (mh_mtab mh) ?rootfs then (Inr False, m)
       else case r1 of Inl e \<Rightarrow> (Inl e, m1)
       | Inr _ \<Rightarrow> if r2 \<noteq> Inr True then (r2, m2)
           else if \<not> mg_rootfs_overlay m2 then mount_dirs mh hv ?rootfs [''cache'', ''data''] m2
           else if r3 \<noteq> Inr True then (r3, m3)
           else mount_dirs mh hv (combined_rootfs_dir hv) [''cache'', ''data''] m3)"
    unfolding setup_mounts_def Let_def img_def [symmetric]
    by (simp add: 1 2 3 del: mount_dirs.simps split: sum.split bool.split)
  show ?thesis
    unfolding eq using assms h1 o2 o3 held_empty [OF assms]
    by (auto simp del: mount_dirs.simps intro!: dirs outcome_finished split: sum.split)
qed

text \<open>
  C26. Whatever the file system, the loop driver and \<open>mount\<close> answer, the container manager undoes
  each of its mounts exactly once before it is gone. When the set-up succeeded, they are undone
  in the reverse order. When it failed or threw, however, they are undone in the order in which
  they were made, so that the image is unmounted while a directory is still mounted on it.
\<close>

theorem mounts_undone:
  assumes "mg_mounts m = []" "mg_trace m = []" "manager_life mh hv m = (r, tr)"
  shows "unmounted tr = (if r = Inr True then rev (mounted tr) else mounted tr)"
proof -
  have h: "held m" using assms(1,2) by (simp add: held_def)
  obtain m' where s: "setup_mounts mh hv m = (r, m')" "tr = mg_trace (clear_mounts m')"
    using assms(3) by (auto simp: manager_life_def split: prod.splits)
  have f: "finished (r, m')" using setup_mounts_finished [OF h assms(1), of mh hv] s(1) by simp
  show ?thesis
  proof (cases "r = Inr True")
    case True
    then show ?thesis using f s(2) by (auto simp: held_def dtors_unmount rev_map)
  next
    case False
    with f have "held m' \<or> undone m'" by (cases "(r, m')" rule: outcome.cases) auto
    then show ?thesis using False s(2) by (auto simp: held_def undone_def dtors_unmount)
  qed
qed

definition sample_mount_host :: mount_host where
  "sample_mount_host =
     \<lparr>mh_open = (\<lambda>p. 3), mh_free_loop = 7, mh_set_fd = True, mh_mount = (\<lambda>t. t \<noteq> ''/d/rootfs/data''),
      mh_create = (\<lambda>p. Dir_created), mh_chown = (\<lambda>p. True), mh_exec = Exec_success, mh_mtab = None,
      mh_getenv = (\<lambda>v. None), mh_is_exec = (\<lambda>p. False)\<rparr>"

definition sample_manager :: manager where
  "sample_manager =
     \<lparr>mg_android_img_path = [], mg_rootfs_overlay = False, mg_squashfuse = False, mg_mounts = [], mg_trace = []\<rparr>"

definition sample_view :: host_view where
  "sample_view = plain_host\<lparr>hv_exists := (\<lambda>p. True), hv_data_dir := ''/d''\<rparr>"

lemmas mount_simps = sample_mount_host_def sample_manager_def sample_view_def manager_life_def setup_mounts_def
  mount_image_def mount_image_loop_def mount_create_loop_def new_loop_device_def loop_create_def attach_file_def
  mount_create_def mount_dir_def ensure_dir_def is_mounted_def rootfs_dir_def data_path_def add_mount_def

theorem mounts_undone_witness:
  "unmounted (snd (manager_life sample_mount_host sample_view sample_manager)) = [''/d/rootfs'', ''/d/rootfs/cache'']"
proof -
  have r: "fst (manager_life sample_mount_host sample_view sample_manager) \<noteq> Inr True"
    by (simp add: mount_simps Let_def log_calls_def)
  have m: "mounted (snd (manager_life sample_mount_host sample_view sample_manager)) = [''/d/rootfs'', ''/d/rootfs/cache'']"
    by (simp add: mount_simps Let_def log_calls_def clear_mounts_def)
  show ?thesis
    using mounts_undone [of sample_manager sample_mount_host sample_view] r m
    by (metis sample_manager_def manager.select_convs(4,5) prod.collapse)
qed

text \<open>
  The flag that makes a mount private is part of the old magic number the flags are combined with,
  which the kernel takes off before it reads them: the flags are the same without it.
\<close>

lemma private_flag_absorbed: "MS_MGC_VAL OR flags OR MS_PRIVATE = MS_MGC_VAL OR flags"
proof -
  have "MS_MGC_VAL OR MS_PRIVATE = MS_MGC_VAL" by (simp add: MS_MGC_VAL_def MS_PRIVATE_def)
  then show ?thesis by (metis or.assoc or.commute)
qed

end
