(* ===== verification/Guest_Service.thy ===== *)
theory Guest_Service
  imports Android_Bridge Rpc
begin

text \<open>
  The daemon inside Android (\<open>src/android/hardware/anbox/service\<close>), the other end of the bridge: a
  binder service that turns what the Android framework reports into events for the host, and the
  skeleton that carries out the host's requests. It shares the RPC code of theory \<open>Rpc\<close>. Binder
  parcels are a parameter, the record \<open>parcel_api\<close> of reading functions; so are the processes it
  starts and the activity manager.
\<close>

section \<open>LocalSocketConnection\<close>

text \<open>
  The loop of \<open>send\<close> over the answers of the kernel: how the call ended and the bytes that went
  out. \<open>None\<close>: it is still trying when the answers end.
\<close>

fun local_send :: "io_answer list \<Rightarrow> bytes \<Rightarrow> (exn option \<times> bytes) option" where
  "local_send as [] = Some (None, [])"
| "local_send [] (b # bs) = None"
| "local_send (Io_err e # as) (b # bs) =
     (if e = EINTR then local_send as (b # bs)
      else Some (Some (Runtime_error ''Failed to send message to server''), []))"
| "local_send (Io_ok n # as) (b # bs) =
     (let written = min n (length (b # bs))
      in (case local_send as (drop written (b # bs)) of
            None \<Rightarrow> None
          | Some (r, w) \<Rightarrow> Some (r, take written (b # bs) @ w)))"

definition local_send_raw :: "bytes \<Rightarrow> int" where
  "local_send_raw data = - EIO"

section \<open>HostConnector\<close>

datatype recv_result = Received bytes | Recv_failed

datatype loop_end = Loop_waiting | Loop_stopped | Loop_undefined exn

text \<open>
  The thread's loop over the results of \<open>recv\<close>. A failure is the number -1, which is not 0: where
  \<open>ssize_t\<close> has 64 bits the copy loop runs over no byte and an empty buffer is processed, with 32
  bits the comparison is unsigned and the copy leaves the buffer.
\<close>

fun main_loop :: "bool \<Rightarrow> (bytes \<Rightarrow> 'p \<Rightarrow> bool res \<times> 'p) \<Rightarrow> recv_result list \<Rightarrow> 'p \<Rightarrow> loop_end \<times> 'p" where
  "main_loop wide process [] p = (Loop_waiting, p)"
| "main_loop wide process (r # rs) p =
     (if r = Received [] then (Loop_stopped, p)
      else if r = Recv_failed \<and> \<not> wide then (Loop_undefined (Undefined ''buffer[n]''), p)
      else
        (case process (case r of Received d \<Rightarrow> d | Recv_failed \<Rightarrow> []) p of
           (Inl e, p) \<Rightarrow> (Loop_undefined e, p)
         | (Inr False, p) \<Rightarrow> (Loop_stopped, p)
         | (Inr True, p) \<Rightarrow> main_loop wide process rs p))"

section \<open>AndroidApiSkeleton\<close>

datatype am_call = Am_setFocusedTask int | Am_removeTask int | Am_resizeTask int rect int

datatype exec_outcome = Exec_exited bool | Exec_raised exn

record skeleton =
  sk_activity_manager :: bool                \<comment> \<open>\<open>activity_manager_\<close> is set\<close>
  sk_am_calls :: "am_call list"
  sk_processes :: "(string \<times> string list) list"

text \<open>Boost-free formatting: \<open>std::to_string\<close> and stream output of an \<open>int\<close> are decimal.\<close>

fun stack_number :: "launch_stack \<Rightarrow> int" where
  "stack_number LAUNCH_DEFAULT = 0"
| "stack_number LAUNCH_FULLSCREEN = 1"
| "stack_number LAUNCH_FREEFORM = 2"

definition option_args :: "string \<Rightarrow> string option \<Rightarrow> string list" where
  "option_args flag v = (case v of None \<Rightarrow> [] | Some s \<Rightarrow> [flag, s])"

definition launch_component :: "launch_msg \<Rightarrow> string" where
  "launch_component m =
     (let component = (case lm_package m of None \<Rightarrow> [] | Some p \<Rightarrow> p)
      in if component \<noteq> [] then (case lm_component m of None \<Rightarrow> component | Some c \<Rightarrow> component @ ''/'' @ c)
         else component)"

definition launch_argv :: "launch_msg \<Rightarrow> string list" where
  "launch_argv m =
     [''/system/bin/am'', ''start''] @
     option_args ''--stack'' (map_option (\<lambda>s. show_int (stack_number s)) (lm_stack m)) @
     option_args ''--launch-bounds''
       (map_option (\<lambda>r. show_int (rc_left r) @ '' '' @ show_int (rc_top r) @ '' '' @ show_int (rc_right r) @ '' '' @
          show_int (rc_bottom r)) (lm_bounds m)) @
     option_args ''-a'' (lm_action m) @ option_args ''-d'' (lm_uri m) @ option_args ''-t'' (lm_type m) @
     (if launch_component m \<noteq> [] then [launch_component m] else [])"

text \<open>A request returns the error of its response; the completion runs unless \<open>exec\<close> raises.\<close>

definition launch_application ::
  "(string list \<Rightarrow> exec_outcome) \<Rightarrow> launch_msg \<Rightarrow> skeleton \<Rightarrow> string option res \<times> skeleton" where
  "launch_application exec m s =
     (let argv = launch_argv m
      in case exec argv of
           Exec_raised e \<Rightarrow> (Inl e, s)
         | Exec_exited success \<Rightarrow>
             (Inr (if success then None else Some ''Failed to execute process''),
              s\<lparr>sk_processes := sk_processes s @ [(''/system/bin/sh'', argv)]\<rparr>))"

definition connect_services :: "bool \<Rightarrow> skeleton \<Rightarrow> skeleton" where
  "connect_services available s =
     (if \<not> sk_activity_manager s \<and> available then s\<lparr>sk_activity_manager := True\<rparr> else s)"

definition am_request :: "bool \<Rightarrow> am_call \<Rightarrow> skeleton \<Rightarrow> string option res \<times> skeleton" where
  "am_request available c s =
     (let s = connect_services available s
      in if sk_activity_manager s then (Inr None, s\<lparr>sk_am_calls := sk_am_calls s @ [c]\<rparr>)
         else (Inr (Some ''ActivityManager is not available''), s))"

definition guest_set_focused_task :: "bool \<Rightarrow> int \<Rightarrow> skeleton \<Rightarrow> string option res \<times> skeleton" where
  "guest_set_focused_task available t = am_request available (Am_setFocusedTask t)"

definition guest_remove_task :: "bool \<Rightarrow> int \<Rightarrow> skeleton \<Rightarrow> string option res \<times> skeleton" where
  "guest_remove_task available t = am_request available (Am_removeTask t)"

definition guest_resize_task :: "bool \<Rightarrow> int \<Rightarrow> rect \<Rightarrow> int \<Rightarrow> skeleton \<Rightarrow> string option res \<times> skeleton" where
  "guest_resize_task available t r mode =
     am_request available
       (Am_resizeTask t (mk_rect (rc_left r) (rc_top r) (rc_right r) (rc_bottom r)) mode)"

definition guest_dispatch ::
  "(string list \<Rightarrow> exec_outcome) \<Rightarrow> bool \<Rightarrow> bridge_call \<Rightarrow> skeleton \<Rightarrow> string option res \<times> skeleton" where
  "guest_dispatch exec available call s =
     (case call of
        Call_launch_application m \<Rightarrow> launch_application exec m s
      | Call_set_focused_task t \<Rightarrow> guest_set_focused_task available t s
      | Call_remove_task t \<Rightarrow> guest_remove_task available t s
      | Call_resize_task t r mode \<Rightarrow> guest_resize_task available t r mode s)"

text \<open>The method names the guest knows; it sends no answer to another name.\<close>

datatype guest_method = Launch_application | Set_focused_task | Remove_task | Resize_task

definition guest_method_of :: "string \<Rightarrow> guest_method option" where
  "guest_method_of method_name =
     (if method_name = ''launch_application'' then Some Launch_application
      else if method_name = ''set_focused_task'' then Some Set_focused_task
      else if method_name = ''remove_task'' then Some Remove_task
      else if method_name = ''resize_task'' then Some Resize_task
      else None)"

section \<open>BpActivityManager\<close>

datatype parcel_item = P_token string | P_int int | P_byte int | P_str string | P_bytes string

definition am_descriptor :: string where "am_descriptor = ''android.app.IActivityManager''"

fun am_parcel :: "am_call \<Rightarrow> parcel_item list" where
  "am_parcel (Am_setFocusedTask t) = [P_token am_descriptor, P_int t]"
| "am_parcel (Am_removeTask t) = [P_token am_descriptor, P_int t]"
| "am_parcel (Am_resizeTask t r mode) =
     [P_token am_descriptor, P_int t, P_int mode, P_int (rc_left r), P_int (rc_top r), P_int (rc_right r),
      P_int (rc_bottom r)]"

section \<open>PlatformService\<close>

record 'p parcel_api =
  pr_int32 :: "'p \<Rightarrow> int \<times> 'p"
  pr_byte :: "'p \<Rightarrow> int \<times> 'p"
  pr_string :: "'p \<Rightarrow> string \<times> 'p"              \<comment> \<open>\<open>readString16\<close> and its conversion\<close>
  pr_bytes :: "'p \<Rightarrow> string \<times> 'p"               \<comment> \<open>\<open>readByteVector\<close>\<close>

record guest_window =
  gw_display_id :: int
  gw_has_surface :: bool
  gw_package_name :: string
  gw_frame :: rect
  gw_task_id :: int
  gw_stack_id :: int

text \<open>A counted loop that reads one thing after the other.\<close>

fun read_n :: "('p \<Rightarrow> 'a \<times> 'p) \<Rightarrow> nat \<Rightarrow> 'p \<Rightarrow> 'a list \<times> 'p" where
  "read_n f 0 p = ([], p)"
| "read_n f (Suc n) p = (let (x, p) = f p; (xs, p) = read_n f n p in (x # xs, p))"

definition unpack_window_state :: "'p parcel_api \<Rightarrow> 'p \<Rightarrow> guest_window \<times> 'p" where
  "unpack_window_state api p =
     (let (surface, p) = pr_byte api p; (package_name, p) = pr_string api p;
          (left, p) = pr_int32 api p; (top, p) = pr_int32 api p; (right, p) = pr_int32 api p;
          (bottom, p) = pr_int32 api p; (task_id, p) = pr_int32 api p; (stack_id, p) = pr_int32 api p;
          (rotation_angle, p) = pr_int32 api p
      in (\<lparr>gw_display_id = - 1, gw_has_surface = (surface \<noteq> 0), gw_package_name = package_name,
           gw_frame = mk_rect left top right bottom, gw_task_id = task_id, gw_stack_id = stack_id\<rparr>, p))"

definition unpack_display :: "'p parcel_api \<Rightarrow> 'p \<Rightarrow> guest_window list \<times> 'p" where
  "unpack_display api p =
     (let (display_id, p) = pr_int32 api p; (num_windows, p) = pr_int32 api p;
          (ws, p) = read_n (unpack_window_state api) (nat num_windows) p
      in (map (\<lambda>w. w\<lparr>gw_display_id := display_id\<rparr>) ws, p))"

text \<open>\<open>PlatformApiStub::update_window_state\<close>.\<close>

definition convert_window :: "guest_window \<Rightarrow> window_msg" where
  "convert_window w =
     \<lparr>wm_display_id = gw_display_id w, wm_has_surface = gw_has_surface w, wm_package_name = gw_package_name w,
      wm_frame_left = rc_left (gw_frame w), wm_frame_top = rc_top (gw_frame w),
      wm_frame_right = rc_right (gw_frame w), wm_frame_bottom = rc_bottom (gw_frame w),
      wm_task_id = gw_task_id w, wm_stack_id = gw_stack_id w\<rparr>"

definition stub_update_window_state :: "guest_window list \<Rightarrow> guest_window list \<Rightarrow> event_sequence" where
  "stub_update_window_state updated removed =
     \<lparr>es_boot_finished = False, es_windows = Some (map convert_window updated, map convert_window removed),
      es_applications = None\<rparr>"

definition guest_update_window_state :: "'p parcel_api \<Rightarrow> 'p \<Rightarrow> event_sequence \<times> 'p" where
  "guest_update_window_state api p =
     (let (num_displays, p) = pr_int32 api p; (displays, p) = read_n (unpack_display api) (nat num_displays) p;
          (num_removed, p) = pr_int32 api p; (removed, p) = read_n (unpack_window_state api) (nat num_removed) p
      in (stub_update_window_state (concat displays) removed, p))"

text \<open>The marker file of the first boot is made when it is missing.\<close>

definition stub_boot_finished :: "bool \<Rightarrow> (bool option \<times> event_sequence) \<times> bool" where
  "stub_boot_finished marker_exists =
     ((if marker_exists then None else Some True,
       \<lparr>es_boot_finished = True, es_windows = None, es_applications = None\<rparr>), True)"

text \<open>Applications. The loop over the categories compares with an unsigned count.\<close>

definition unpack_application :: "'p parcel_api \<Rightarrow> 'p \<Rightarrow> app_msg \<times> 'p" where
  "unpack_application api p =
     (let (name, p) = pr_string api p; (package_name, p) = pr_string api p;
          (action, p) = pr_string api p; (uri, p) = pr_string api p; (type, p) = pr_string api p;
          (component_package, p) = pr_string api p; (component_class, p) = pr_string api p;
          (num_categories, p) = pr_int32 api p;
          (categories, p) = read_n (pr_string api) (nat (num_categories mod 2 ^ 32)) p;
          (icon, p) = pr_bytes api p
      in (\<lparr>am_name = name, am_package = package_name,
           am_launch_intent = \<lparr>im_action = action, im_uri = uri, im_type = type, im_package = component_package,
             im_component = component_class, im_categories = categories\<rparr>, am_icon = icon\<rparr>, p))"

text \<open>
  \<open>PlatformApiStub::update_application_list\<close>: an absent icon and an empty one are read alike. A
  removed application is named \<open>unknown\<close> and has no intent.
\<close>

definition removed_msg :: "string \<Rightarrow> app_msg" where
  "removed_msg package =
     \<lparr>am_name = ''unknown'', am_package = package,
      am_launch_intent = \<lparr>im_action = [], im_uri = [], im_type = [], im_package = [], im_component = [],
        im_categories = []\<rparr>, am_icon = []\<rparr>"

definition stub_update_application_list :: "app_msg list \<Rightarrow> string list \<Rightarrow> event_sequence" where
  "stub_update_application_list apps removed =
     \<lparr>es_boot_finished = False, es_windows = None, es_applications = Some (apps, map removed_msg removed)\<rparr>"

text \<open>The events sent for one report, in order: one for each application with an icon, then the rest.\<close>

definition guest_update_application_list :: "'p parcel_api \<Rightarrow> 'p \<Rightarrow> event_sequence list \<times> 'p" where
  "guest_update_application_list api p =
     (let (num_packages, p) = pr_int32 api p; (apps, p) = read_n (unpack_application api) (nat num_packages) p;
          (num_removed, p) = pr_int32 api p; (removed, p) = read_n (pr_string api) (nat num_removed) p
      in (map (\<lambda>a. stub_update_application_list [a] []) (filter (\<lambda>a. am_icon a \<noteq> []) apps) @
          [stub_update_application_list (filter (\<lambda>a. am_icon a = []) apps) removed], p))"

text \<open>The clipboard: the text sent to the host, if any; what is written into the reply.\<close>

definition guest_set_clipboard_data :: "'p parcel_api \<Rightarrow> 'p \<Rightarrow> string option" where
  "guest_set_clipboard_data api p =
     (let (given, p) = pr_int32 api p in if given = 0 then None else Some (fst (pr_string api p)))"

definition guest_get_clipboard_data :: "string option \<Rightarrow> parcel_item list" where
  "guest_get_clipboard_data text =
     (let t = (case text of None \<Rightarrow> [] | Some t \<Rightarrow> t) in if t = [] then [P_int 0] else [P_int 1, P_str t])"

text \<open>The stub waits for the answer without a limit; an error in the response is thrown.\<close>

definition stub_set_clipboard_data :: "string option \<Rightarrow> unit res" where
  "stub_set_clipboard_data error = (case error of Some e \<Rightarrow> Inl (Runtime_error e) | None \<Rightarrow> Inr ())"

definition stub_get_clipboard_data :: "string option \<Rightarrow> string option \<Rightarrow> string res" where
  "stub_get_clipboard_data error text =
     (case error of Some e \<Rightarrow> Inl (Runtime_error e) | None \<Rightarrow> Inr (case text of None \<Rightarrow> [] | Some t \<Rightarrow> t))"

datatype transaction = Boot_finished | Update_window_state | Update_application_list | Set_clipboard | Get_clipboard

text \<open>\<open>onTransact\<close>: the codes count from \<open>IBinder::FIRST_CALL_TRANSACTION\<close>, which is 1.\<close>

definition on_transact :: "u32 \<Rightarrow> transaction option" where
  "on_transact code =
     (if code = 1 then Some Boot_finished else if code = 2 then Some Update_window_state
      else if code = 3 then Some Update_application_list else if code = 4 then Some Set_clipboard
      else if code = 5 then Some Get_clipboard else None)"

section \<open>Parcels hold what was written\<close>

text \<open>
  What the service relies on: \<open>holds p vs\<close> says that \<open>vs\<close> are the values from the position of \<open>p\<close>
  on; a read of the kind that was written gives the value and moves on.
\<close>

definition parcel_ok :: "'p parcel_api \<Rightarrow> ('p \<Rightarrow> parcel_item list \<Rightarrow> bool) \<Rightarrow> bool" where
  "parcel_ok api holds \<longleftrightarrow>
     (\<forall>p i vs. holds p (P_int i # vs) \<longrightarrow> fst (pr_int32 api p) = i \<and> holds (snd (pr_int32 api p)) vs) \<and>
     (\<forall>p i vs. holds p (P_byte i # vs) \<longrightarrow> fst (pr_byte api p) = i \<and> holds (snd (pr_byte api p)) vs) \<and>
     (\<forall>p s vs. holds p (P_str s # vs) \<longrightarrow> fst (pr_string api p) = s \<and> holds (snd (pr_string api p)) vs) \<and>
     (\<forall>p s vs. holds p (P_bytes s # vs) \<longrightarrow> fst (pr_bytes api p) = s \<and> holds (snd (pr_bytes api p)) vs)"

lemma parcel_reads:
  assumes "parcel_ok api holds"
  shows "holds p (P_int i # vs) \<Longrightarrow> \<exists>p'. pr_int32 api p = (i, p') \<and> holds p' vs"
    and "holds p (P_byte i # vs) \<Longrightarrow> \<exists>p'. pr_byte api p = (i, p') \<and> holds p' vs"
    and "holds p (P_str s # vs) \<Longrightarrow> \<exists>p'. pr_string api p = (s, p') \<and> holds p' vs"
    and "holds p (P_bytes s # vs) \<Longrightarrow> \<exists>p'. pr_bytes api p = (s, p') \<and> holds p' vs"
  using assms unfolding parcel_ok_def by (metis prod.collapse)+

text \<open>One step of a reading function whose parcel holds the next value.\<close>

lemma read_steps:
  assumes "parcel_ok api holds"
  shows "holds p (P_int i # vs) \<Longrightarrow> (\<And>p'. holds p' vs \<Longrightarrow> \<exists>q. g i p' = (y, q) \<and> holds q ws) \<Longrightarrow>
      \<exists>q. (let (x, p) = pr_int32 api p in g x p) = (y, q) \<and> holds q ws"
    and "holds p (P_byte i # vs) \<Longrightarrow> (\<And>p'. holds p' vs \<Longrightarrow> \<exists>q. g i p' = (y, q) \<and> holds q ws) \<Longrightarrow>
      \<exists>q. (let (x, p) = pr_byte api p in g x p) = (y, q) \<and> holds q ws"
    and "holds p (P_str s # vs) \<Longrightarrow> (\<And>p'. holds p' vs \<Longrightarrow> \<exists>q. h s p' = (y, q) \<and> holds q ws) \<Longrightarrow>
      \<exists>q. (let (x, p) = pr_string api p in h x p) = (y, q) \<and> holds q ws"
    and "holds p (P_bytes s # vs) \<Longrightarrow> (\<And>p'. holds p' vs \<Longrightarrow> \<exists>q. h s p' = (y, q) \<and> holds q ws) \<Longrightarrow>
      \<exists>q. (let (x, p) = pr_bytes api p in h x p) = (y, q) \<and> holds q ws"
  by (drule parcel_reads [OF assms], elim exE conjE, simp)+

text \<open>A reader that takes what \<open>enc\<close> wrote back to \<open>val\<close>.\<close>

definition reads :: "('p \<Rightarrow> parcel_item list \<Rightarrow> bool) \<Rightarrow> ('p \<Rightarrow> 'b \<times> 'p) \<Rightarrow> ('a \<Rightarrow> parcel_item list) \<Rightarrow> ('a \<Rightarrow> 'b) \<Rightarrow> bool" where
  "reads holds f enc val \<longleftrightarrow> (\<forall>p x vs. holds p (enc x @ vs) \<longrightarrow> (\<exists>p'. f p = (val x, p') \<and> holds p' vs))"

lemma read_n_reads:
  assumes "reads holds f enc val"
  shows "holds p (concat (map enc xs) @ vs) \<Longrightarrow> \<exists>p'. read_n f (length xs) p = (map val xs, p') \<and> holds p' vs"
proof (induction xs arbitrary: p)
  case (Cons x xs)
  then obtain p1 where p1: "f p = (val x, p1)" "holds p1 (concat (map enc xs) @ vs)"
    using assms unfolding reads_def by fastforce
  from Cons.IH [OF p1(2)] obtain p2 where "read_n f (length xs) p1 = (map val xs, p2)" "holds p2 vs" by blast
  with p1(1) show ?case by simp
qed simp

definition counted :: "('a \<Rightarrow> parcel_item list) \<Rightarrow> 'a list \<Rightarrow> parcel_item list" where
  "counted enc xs = P_int (int (length xs)) # concat (map enc xs)"

text \<open>Steps that read a whole structure, and as many as a count that was read before says.\<close>

lemma read_step_reads:
  assumes "reads holds f enc val" "holds p (enc x @ vs)"
    "\<And>p'. holds p' vs \<Longrightarrow> \<exists>q. g (val x) p' = (y, q) \<and> holds q ws"
  shows "\<exists>q. (let (x, p) = f p in g x p) = (y, q) \<and> holds q ws"
  using assms unfolding reads_def by fastforce

lemma read_step_n:
  assumes "reads holds f enc val" "nat n = length xs" "holds p (concat (map enc xs) @ vs)"
    "\<And>p'. holds p' vs \<Longrightarrow> \<exists>q. g (map val xs) p' = (y, q) \<and> holds q ws"
  shows "\<exists>q. (let (xs, p) = read_n f (nat n) p in g xs p) = (y, q) \<and> holds q ws"
  using read_n_reads [OF assms(1,3)] assms(2,4) by fastforce

lemma string_reads: "parcel_ok api holds \<Longrightarrow> reads holds (pr_string api) (\<lambda>s. [P_str s]) (\<lambda>s. s)"
  using parcel_reads(3) unfolding reads_def by fastforce

text \<open>What the framework writes for a window; \<open>rot\<close> is the rotation the service skips.\<close>

definition window_items :: "(guest_window \<Rightarrow> int) \<Rightarrow> guest_window \<Rightarrow> parcel_item list" where
  "window_items rot w =
     [P_byte (if gw_has_surface w then 1 else 0), P_str (gw_package_name w), P_int (rc_left (gw_frame w)),
      P_int (rc_top (gw_frame w)), P_int (rc_right (gw_frame w)), P_int (rc_bottom (gw_frame w)),
      P_int (gw_task_id w), P_int (gw_stack_id w), P_int (rot w)]"

lemma unpack_window_reads:
  assumes "parcel_ok api holds"
  shows "reads holds (unpack_window_state api) (window_items rot) (\<lambda>w. w\<lparr>gw_display_id := - 1\<rparr>)"
  unfolding reads_def
proof (intro allI impI)
  fix p w vs
  assume "holds p (window_items rot w @ vs)"
  then show "\<exists>p'. unpack_window_state api p = (w\<lparr>gw_display_id := - 1\<rparr>, p') \<and> holds p' vs"
    unfolding unpack_window_state_def window_items_def append.simps
    by - ((erule read_steps [OF assms])+, simp add: mk_rect_def)
qed

definition display_items :: "(guest_window \<Rightarrow> int) \<Rightarrow> int \<times> guest_window list \<Rightarrow> parcel_item list" where
  "display_items rot d = P_int (fst d) # counted (window_items rot) (snd d)"

lemma unpack_display_reads:
  assumes "parcel_ok api holds"
  shows "reads holds (unpack_display api) (display_items rot) (\<lambda>d. map (\<lambda>w. w\<lparr>gw_display_id := fst d\<rparr>) (snd d))"
  unfolding reads_def
proof (intro allI impI)
  fix p d vs
  assume "holds p (display_items rot d @ vs)"
  then show "\<exists>p'. unpack_display api p = (map (\<lambda>w. w\<lparr>gw_display_id := fst d\<rparr>) (snd d), p') \<and> holds p' vs"
    unfolding unpack_display_def display_items_def counted_def append.simps
    by - ((erule read_steps [OF assms])+, erule read_step_n [OF unpack_window_reads [OF assms], rotated], simp_all add: comp_def)
qed

definition report_items ::
  "(guest_window \<Rightarrow> int) \<Rightarrow> (int \<times> guest_window list) list \<Rightarrow> guest_window list \<Rightarrow> parcel_item list" where
  "report_items rot displays removed = counted (display_items rot) displays @ counted (window_items rot) removed"

lemma guest_update_window_state_ok:
  assumes "parcel_ok api holds" "holds p (report_items rot displays removed @ vs)"
  shows "\<exists>q. guest_update_window_state api p =
    (stub_update_window_state (concat (map (\<lambda>d. map (\<lambda>w. w\<lparr>gw_display_id := fst d\<rparr>) (snd d)) displays))
       (map (\<lambda>w. w\<lparr>gw_display_id := - 1\<rparr>) removed), q) \<and> holds q vs"
  using assms(2)
  unfolding guest_update_window_state_def report_items_def counted_def append.simps append_assoc
  by - (erule read_steps [OF assms(1)], rule read_step_n [OF unpack_display_reads [OF assms(1)]], simp, assumption,
     erule read_steps [OF assms(1)], rule read_step_n [OF unpack_window_reads [OF assms(1)]], simp, assumption,
     simp)

definition application_items :: "app_msg \<Rightarrow> parcel_item list" where
  "application_items a =
     (let li = am_launch_intent a
      in [P_str (am_name a), P_str (am_package a), P_str (im_action li), P_str (im_uri li), P_str (im_type li),
          P_str (im_package li), P_str (im_component li)] @
         counted (\<lambda>c. [P_str c]) (im_categories li) @ [P_bytes (am_icon a)])"

text \<open>Readers of values with a side condition on what was written.\<close>

lemma unpack_application_ok:
  assumes "parcel_ok api holds" "length (im_categories (am_launch_intent a)) < 2 ^ 32" "holds p (application_items a @ vs)"
  shows "\<exists>q. unpack_application api p = (a, q) \<and> holds q vs"
  using assms(3)
  unfolding unpack_application_def application_items_def counted_def Let_def [of "am_launch_intent a"] append.simps append_assoc
  by - ((erule read_steps [OF assms(1)])+, rule read_step_n [OF string_reads [OF assms(1)]],
     use assms(2) in \<open>simp add: nat_mod_distrib\<close>, assumption, erule read_steps [OF assms(1)], simp)

lemma unpack_applications_ok:
  assumes "parcel_ok api holds"
  shows "\<forall>a \<in> set apps. length (im_categories (am_launch_intent a)) < 2 ^ 32 \<Longrightarrow>
    holds p (concat (map application_items apps) @ vs) \<Longrightarrow>
    \<exists>q. read_n (unpack_application api) (length apps) p = (apps, q) \<and> holds q vs"
proof (induction apps arbitrary: p)
  case (Cons a apps)
  then obtain p1 where "unpack_application api p = (a, p1)" "holds p1 (concat (map application_items apps) @ vs)"
    using unpack_application_ok [OF assms, of a p "concat (map application_items apps) @ vs"] by auto
  with Cons show ?case by fastforce
qed simp

definition application_report :: "app_msg list \<Rightarrow> string list \<Rightarrow> parcel_item list" where
  "application_report apps removed = counted application_items apps @ counted (\<lambda>s. [P_str s]) removed"

definition sent_events :: "app_msg list \<Rightarrow> string list \<Rightarrow> event_sequence list" where
  "sent_events apps removed =
     map (\<lambda>a. stub_update_application_list [a] []) (filter (\<lambda>a. am_icon a \<noteq> []) apps) @
     [stub_update_application_list (filter (\<lambda>a. am_icon a = []) apps) removed]"

lemma guest_update_application_list_ok:
  assumes "parcel_ok api holds" "\<forall>a \<in> set apps. length (im_categories (am_launch_intent a)) < 2 ^ 32"
    and "holds p (application_report apps removed @ vs)"
  shows "\<exists>q. guest_update_application_list api p = (sent_events apps removed, q) \<and> holds q vs"
proof -
  have h: "holds p (P_int (int (length apps)) # concat (map application_items apps) @
      P_int (int (length removed)) # concat (map (\<lambda>s. [P_str s]) removed) @ vs)"
    using assms(3) by (simp add: application_report_def counted_def)
  from parcel_reads(1) [OF assms(1) h] obtain p1 where 1: "pr_int32 api p = (int (length apps), p1)"
    "holds p1 (concat (map application_items apps) @
      P_int (int (length removed)) # concat (map (\<lambda>s. [P_str s]) removed) @ vs)" by blast
  from unpack_applications_ok [OF assms(1,2) 1(2)] obtain p2 where
    2: "read_n (unpack_application api) (length apps) p1 = (apps, p2)"
    "holds p2 (P_int (int (length removed)) # concat (map (\<lambda>s. [P_str s]) removed) @ vs)" by blast
  from parcel_reads(1) [OF assms(1) 2(2)] obtain p3 where 3: "pr_int32 api p2 = (int (length removed), p3)"
    "holds p3 (concat (map (\<lambda>s. [P_str s]) removed) @ vs)" by blast
  from read_n_reads [OF string_reads [OF assms(1)] 3(2)] obtain p4 where
    "read_n (pr_string api) (length removed) p3 = (removed, p4)" "holds p4 vs" by auto
  with 1 2 3 show ?thesis by (simp add: guest_update_application_list_def sent_events_def)
qed

section \<open>The host applies what Android reports\<close>

definition reported_state :: "int \<Rightarrow> guest_window \<Rightarrow> window_state" where
  "reported_state display w =
     \<lparr>st_display = display, st_has_surface = gw_has_surface w, st_frame = gw_frame w, st_package_name = gw_package_name w,
      st_task = gw_task_id w, st_stack = stack_of_int (gw_stack_id w)\<rparr>"

lemma convert_window_reported:
  "convert_window_state (convert_window (w\<lparr>gw_display_id := i\<rparr>)) = reported_state i w"
  by (simp add: convert_window_state_def convert_window_def reported_state_def mk_rect_def)

text \<open>The events of a report of applications, handled one after the other.\<close>

fun handle_events ::
  "(string \<Rightarrow> bool) \<Rightarrow> string \<Rightarrow> (string \<rightharpoonup> string) \<Rightarrow> event_sequence list \<Rightarrow> app_database \<Rightarrow> exn option \<times> app_database" where
  "handle_events can_open exe getenv [] db = (None, db)"
| "handle_events can_open exe getenv (seq # seqs) db =
     (case es_applications seq of
        None \<Rightarrow> handle_events can_open exe getenv seqs db
      | Some event \<Rightarrow>
          (case handle_application_list_update_event can_open exe getenv event db of
             (Some e, db) \<Rightarrow> (Some e, db)
           | (None, db) \<Rightarrow> handle_events can_open exe getenv seqs db))"

definition events_ops :: "event_sequence list \<Rightarrow> db_op list" where
  "events_ops seqs = concat (map (\<lambda>s. case es_applications s of None \<Rightarrow> [] | Some e \<Rightarrow> app_ops e) seqs)"

lemma handle_events_run: "handle_events (\<lambda>f. True) exe getenv seqs db = (None, db_run exe getenv (events_ops seqs) db)"
  by (induction seqs arbitrary: db) (auto simp: events_ops_def handle_applications_run db_run_append split: option.split)

lemma sent_events_ops:
  assumes "\<forall>a \<in> set apps. am_package a \<noteq> []" "[] \<notin> set removed"
  shows "events_ops (sent_events apps removed) =
    map (\<lambda>a. Store (convert_application a)) (filter (\<lambda>a. am_icon a \<noteq> []) apps) @
    map (\<lambda>app. Remove (unknown_item\<lparr>ai_package := am_package app\<rparr>)) (map removed_msg removed) @
    map (\<lambda>a. Store (convert_application a)) (filter (\<lambda>a. am_icon a = []) apps)"
proof -
  have one: "app_ops ([a], []) = [Store (convert_application a)]" if "a \<in> set apps" for a
    using assms(1) that by (simp add: app_ops_def)
  have "concat (map (\<lambda>a. app_ops ([a], [])) as) = map (\<lambda>a. Store (convert_application a)) as" if "set as \<subseteq> set apps" for as
    using that one by (induction as) auto
  from this [of "filter (\<lambda>a. am_icon a \<noteq> []) apps"]
  have "concat (map (\<lambda>a. app_ops ([a], [])) (filter (\<lambda>a. am_icon a \<noteq> []) apps)) =
      map (\<lambda>a. Store (convert_application a)) (filter (\<lambda>a. am_icon a \<noteq> []) apps)" by auto
  moreover have "filter (\<lambda>a. am_package a \<noteq> []) (filter (\<lambda>a. am_icon a = []) apps) = filter (\<lambda>a. am_icon a = []) apps"
    using assms(1) by (auto intro: filter_cong)
  moreover have "filter (\<lambda>a. am_package a \<noteq> []) (map removed_msg removed) = map removed_msg removed"
    using assms(2) by (auto simp: removed_msg_def filter_empty_conv intro!: filter_True)
  ultimately show ?thesis
    by (simp add: events_ops_def sent_events_def stub_update_application_list_def comp_def app_ops_def)
qed

lemma removed_packages [simp]: "am_package ` removed_msg ` A = A" "am_package (removed_msg r) = r"
  by (auto simp: removed_msg_def image_iff)

lemma sent_events_spec:
  assumes "\<forall>a \<in> set apps. am_package a \<noteq> [] \<and> am_package a \<notin> set removed" "[] \<notin> set removed"
    and "distinct (map am_package apps)"
  shows "a \<in> set apps \<Longrightarrow> db_spec (events_ops (sent_events apps removed)) m (am_package a) =
      Some ((convert_application a)\<lparr>ai_icon := []\<rparr>)"
    and "p \<notin> am_package ` set apps \<Longrightarrow>
      db_spec (events_ops (sent_events apps removed)) m p = (if p \<in> set removed then None else m p)"
proof -
  let ?icons = "filter (\<lambda>a. am_icon a \<noteq> []) apps" and ?plain = "filter (\<lambda>a. am_icon a = []) apps"
  let ?gone = "map removed_msg removed"
  have ops: "events_ops (sent_events apps removed) =
      map (\<lambda>a. Store (convert_application a)) ?icons @
      map (\<lambda>app. Remove (unknown_item\<lparr>ai_package := am_package app\<rparr>)) ?gone @
      map (\<lambda>a. Store (convert_application a)) ?plain"
    by (rule sent_events_ops) (use assms(1,2) in auto)
  have d: "distinct (map am_package ?icons)" "distinct (map am_package ?plain)"
    using assms(3) by (simp_all add: distinct_map_filter)
  show "p \<notin> am_package ` set apps \<Longrightarrow>
      db_spec (events_ops (sent_events apps removed)) m p = (if p \<in> set removed then None else m p)"
    unfolding ops db_spec_append
    by (subst db_spec_stores_other, force, subst db_spec_removes, simp, subst db_spec_stores_other, force, simp)
  assume a: "a \<in> set apps"
  show "db_spec (events_ops (sent_events apps removed)) m (am_package a) = Some ((convert_application a)\<lparr>ai_icon := []\<rparr>)"
  proof (cases "am_icon a = []")
    case True
    with a show ?thesis unfolding ops db_spec_append by (intro db_spec_stores [OF d(2)]) simp
  next
    case False
    have "am_package a \<notin> am_package ` set ?plain"
    proof
      assume "am_package a \<in> am_package ` set ?plain"
      then obtain b where "b \<in> set apps" "am_icon b = []" "am_package b = am_package a" by auto
      with assms(3) a False show False by (metis distinct_map inj_onD)
    qed
    moreover have "am_package a \<notin> am_package ` set ?gone" using assms(1) a by simp
    ultimately show ?thesis
      unfolding ops db_spec_append using db_spec_stores [OF d(1)] a False
      by (simp add: db_spec_stores_other db_spec_removes del: map_map)
  qed
qed

section \<open>Properties\<close>

text \<open>
  C17. A report of Android's windows takes effect on the host as it was made: when the parcel the
  window manager service fills holds the windows of each display and the removed windows, the
  event the guest sends makes the host's window manager apply exactly those states, each updated
  window with the number of its display and each removed window with display -1. Parcels are
  assumed to give back what was written, protobuf to parse the event that was sent.
\<close>

theorem window_report_applied:
  assumes "parcel_ok parcel holds" "holds p (report_items rot displays removed @ vs)"
    and "parse raw = Some (fst (guest_update_window_state parcel p))"
  shows "process_event_sequence parse api platform can_open exe getenv raw (d, db, boots) =
    (case apply_window_state_update api platform (app_name db)
        (concat (map (\<lambda>x. map (reported_state (fst x)) (snd x)) displays)) (map (reported_state (- 1)) removed) d of
       (e, d') \<Rightarrow> (e, (d', db, boots)))"
proof -
  have seq: "fst (guest_update_window_state parcel p) =
      stub_update_window_state (concat (map (\<lambda>d. map (\<lambda>w. w\<lparr>gw_display_id := fst d\<rparr>) (snd d)) displays))
        (map (\<lambda>w. w\<lparr>gw_display_id := - 1\<rparr>) removed)"
    using guest_update_window_state_ok [OF assms(1,2)] by auto
  have updated: "map convert_window_state (map convert_window
      (concat (map (\<lambda>d. map (\<lambda>w. w\<lparr>gw_display_id := fst d\<rparr>) (snd d)) displays))) =
      concat (map (\<lambda>x. map (reported_state (fst x)) (snd x)) displays)"
    by (simp add: map_concat comp_def convert_window_reported)
  have "map convert_window_state (map convert_window (map (\<lambda>w. w\<lparr>gw_display_id := - 1\<rparr>) removed)) =
      map (reported_state (- 1)) removed"
    by (simp add: comp_def convert_window_reported)
  with updated show ?thesis
    unfolding process_event_sequence_def assms(3) seq
    by (simp add: stub_update_window_state_def handle_window_state_update_event_def Let_def split: prod.split option.split
        del: map_map)
qed


text \<open>
  C19. What a launch on the host runs inside Android: for every reachable state of the host's stub,
  the request that a launch sends makes the guest start the activity manager's shell command with
  the stack, the action, the URI, the type and the component of the intent. The bounds the caller
  asked for do not arrive: the command gets the bounds -1 -1 -1 -1 instead. Categories are dropped,
  and a component is named only together with a package.
\<close>

theorem launch_runs_am:
  assumes "stub_step\<^sup>*\<^sup>* new_api_stub s" "as_channel s" "exec argv = Exec_exited ok"
    and "argv = [''/system/bin/am'', ''start''] @
      (case stack of Stack_Default \<Rightarrow> [''--stack'', ''0''] | Stack_Fullscreen \<Rightarrow> [''--stack'', ''1'']
       | Stack_Freeform \<Rightarrow> [''--stack'', ''2''] | Stack_Invalid \<Rightarrow> []) @
      (if bounds = rect_Invalid then [] else [''--launch-bounds'', ''-1 -1 -1 -1'']) @
      (if in_action i = [] then [] else [''-a'', in_action i]) @
      (if in_uri i = [] then [] else [''-d'', in_uri i]) @
      (if in_type i = [] then [] else [''-t'', in_type i]) @
      (if in_package i = [] then []
       else [in_package i @ (if in_component i = [] then [] else ''/'' @ in_component i)])"
  shows "guest_dispatch exec av (last (as_calls (snd (launch i bounds stack n e s)))) g =
    (Inr (if ok then None else Some ''Failed to execute process''),
     g\<lparr>sk_processes := sk_processes g @ [(''/system/bin/sh'', argv)]\<rparr>)"
proof -
  have "launches_unbounded s"
    using assms(1) by (induction rule: rtranclp_induct)
      (auto intro: launches_unbounded_step launches_unbounded_init)
  then have b: "as_launch_bounds s = mk_rect (- 1) (- 1) (- 1) (- 1)"
    by (simp add: launches_unbounded_def rect_Invalid_def)
  let ?m = "launch_message (as_launch_bounds s) i bounds stack"
  have call: "last (as_calls (snd (launch i bounds stack n e s))) = Call_launch_application ?m"
    using assms(2) by (simp add: launch_def ensure_rpc_channel_def Let_def split: prod.split)
  have "show_int (- 1) = ''-1''" "show_int 0 = ''0''" "show_int 1 = ''1''" "show_int 2 = ''2''"
    by code_simp+
  then have "launch_argv ?m = argv"
    unfolding assms(4)
    by (auto simp: launch_argv_def launch_message_def launch_component_def option_args_def non_empty_def stack_msg_def b
        mk_rect_def rect_Invalid_def split: stack_id.split)
  with call assms(3) show ?thesis by (simp add: guest_dispatch_def launch_application_def)
qed

fun guest_run ::
  "(string list \<Rightarrow> exec_outcome) \<Rightarrow> (bool \<times> bridge_call) list \<Rightarrow> skeleton \<Rightarrow> string option res list \<times> skeleton" where
  "guest_run exec [] g = ([], g)"
| "guest_run exec ((av, c) # cs) g =
     (case guest_dispatch exec av c g of (r, g) \<Rightarrow>
        (case guest_run exec cs g of (rs, g) \<Rightarrow> (r # rs, g)))"

fun task_call :: "bridge_call \<Rightarrow> am_call option" where
  "task_call (Call_launch_application m) = None"
| "task_call (Call_set_focused_task t) = Some (Am_setFocusedTask t)"
| "task_call (Call_remove_task t) = Some (Am_removeTask t)"
| "task_call (Call_resize_task t r mode) = Some (Am_resizeTask t r mode)"

lemma mk_rect_fields [simp]: "mk_rect (rc_left r) (rc_top r) (rc_right r) (rc_bottom r) = r"
  by (simp add: mk_rect_def)

lemma guest_dispatch_task:
  assumes "task_call c = Some a"
  shows "guest_dispatch exec av c g = am_request av a g"
  using assms
  by (cases c) (auto simp: guest_dispatch_def guest_set_focused_task_def guest_remove_task_def guest_resize_task_def)

lemma guest_run_connected:
  "sk_activity_manager g \<Longrightarrow> \<forall>x \<in> set cs. task_call (snd x) \<noteq> None \<Longrightarrow>
    guest_run exec cs g =
      (map (\<lambda>x. Inr None) cs, g\<lparr>sk_am_calls := sk_am_calls g @ map (\<lambda>x. the (task_call (snd x))) cs\<rparr>)"
proof (induction cs arbitrary: g)
  case (Cons c cs)
  then obtain a where "task_call (snd c) = Some a" by auto
  with Cons show ?case
    by (cases c) (simp add: guest_dispatch_task am_request_def connect_services_def)
qed simp

text \<open>
  The host's requests for tasks reach the activity manager: from the first request at which
  the service is there, every request to focus, remove or resize a task is made to it exactly once
  and in order and answered without an error; each earlier one is answered with an error and
  not made.
\<close>

theorem task_requests_in_order:
  assumes "\<forall>x \<in> set cs. task_call (snd x) \<noteq> None" "\<not> sk_activity_manager g"
  shows "fst (guest_run exec cs g) =
      map (\<lambda>x. Inr (Some ''ActivityManager is not available'')) (takeWhile (\<lambda>x. \<not> fst x) cs) @
      map (\<lambda>x. Inr None) (dropWhile (\<lambda>x. \<not> fst x) cs) \<and>
    sk_am_calls (snd (guest_run exec cs g)) =
      sk_am_calls g @ map (\<lambda>x. the (task_call (snd x))) (dropWhile (\<lambda>x. \<not> fst x) cs)"
  using assms
proof (induction cs)
  case (Cons c cs)
  obtain av k where c: "c = (av, k)" by fastforce
  with Cons.prems obtain a where a: "task_call k = Some a" by auto
  show ?case
  proof (cases av)
    case True
    with Cons.prems c a show ?thesis
      by (simp add: guest_dispatch_task am_request_def connect_services_def guest_run_connected)
  next
    case False
    with Cons c a show ?thesis
      by (simp add: guest_dispatch_task am_request_def connect_services_def split_beta)
  qed
qed simp

section \<open>Witnesses\<close>

text \<open>A parcel as the list of its remaining values.\<close>

definition list_parcel :: "parcel_item list parcel_api" where
  "list_parcel =
     \<lparr>pr_int32 = (\<lambda>p. case p of P_int i # vs \<Rightarrow> (i, vs) | _ \<Rightarrow> (0, p)),
      pr_byte = (\<lambda>p. case p of P_byte i # vs \<Rightarrow> (i, vs) | _ \<Rightarrow> (0, p)),
      pr_string = (\<lambda>p. case p of P_str s # vs \<Rightarrow> (s, vs) | _ \<Rightarrow> ([], p)),
      pr_bytes = (\<lambda>p. case p of P_bytes s # vs \<Rightarrow> (s, vs) | _ \<Rightarrow> ([], p))\<rparr>"

lemma list_parcel_ok: "parcel_ok list_parcel (=)"
  by (simp add: parcel_ok_def list_parcel_def)

definition sample_window :: guest_window where
  "sample_window = \<lparr>gw_display_id = 0, gw_has_surface = True, gw_package_name = ''org.clock'',
     gw_frame = mk_rect 0 0 100 200, gw_task_id = 7, gw_stack_id = 2\<rparr>"

theorem window_report_applied_witness:
  "\<forall>(api :: 'e egl_api) platform can_open exe getenv d db boots.
     process_event_sequence (\<lambda>raw. Some (fst (guest_update_window_state list_parcel
         (report_items (\<lambda>w. 90) [(3, [sample_window])] [])))) api platform can_open exe getenv ''e'' (d :: ('e, 'p) desktop_scheme, db, boots) =
       (case apply_window_state_update api platform (app_name db)
          [\<lparr>st_display = 3, st_has_surface = True, st_frame = mk_rect 0 0 100 200, st_package_name = ''org.clock'',
            st_task = 7, st_stack = Stack_Freeform\<rparr>] [] d of (e, d') \<Rightarrow> (e, (d', db, boots)))"
proof (intro allI)
  fix api :: "'e egl_api" and platform can_open exe getenv and d :: "('e, 'p) desktop_scheme" and db boots
  show "process_event_sequence (\<lambda>raw. Some (fst (guest_update_window_state list_parcel
         (report_items (\<lambda>w. 90) [(3, [sample_window])] [])))) api platform can_open exe getenv ''e'' (d, db, boots) =
       (case apply_window_state_update api platform (app_name db)
          [\<lparr>st_display = 3, st_has_surface = True, st_frame = mk_rect 0 0 100 200, st_package_name = ''org.clock'',
            st_task = 7, st_stack = Stack_Freeform\<rparr>] [] d of (e, d') \<Rightarrow> (e, (d', db, boots)))"
    using window_report_applied [OF list_parcel_ok, of "report_items (\<lambda>w. 90) [(3, [sample_window])] []" "\<lambda>w. 90"
        "[(3, [sample_window])]" "[]" "[]" "\<lambda>raw. Some (fst (guest_update_window_state list_parcel
         (report_items (\<lambda>w. 90) [(3, [sample_window])] [])))" "''e''" api platform can_open exe getenv d db boots]
    by (simp add: reported_state_def sample_window_def stack_of_int_def)
qed


theorem launch_runs_am_witness:
  "sk_processes (snd (guest_dispatch (\<lambda>a. Exec_exited True) True
      (last (as_calls (snd (launch (empty_intent\<lparr>in_package := ''org.clock'', in_component := ''.Main''\<rparr>) (mk_rect 0 0 100 100)
         Stack_Freeform 1 None (set_rpc_channel new_api_stub)))))
      \<lparr>sk_activity_manager = False, sk_am_calls = [], sk_processes = []\<rparr>)) =
    [(''/system/bin/sh'', [''/system/bin/am'', ''start'', ''--stack'', ''2'', ''--launch-bounds'', ''-1 -1 -1 -1'',
       ''org.clock/.Main''])]"
proof -
  have s: "stub_step\<^sup>*\<^sup>* new_api_stub (set_rpc_channel new_api_stub)" by (auto intro: connects)
  show ?thesis
    by (subst launch_runs_am [OF s _ _ refl, where ok = True])
      (simp_all add: set_rpc_channel_def empty_intent_def mk_rect_def rect_Invalid_def)
qed

theorem task_requests_in_order_witness:
  "sk_am_calls (snd (guest_run (\<lambda>a. Exec_exited True)
      [(False, Call_remove_task 1), (True, Call_set_focused_task 2), (False, Call_remove_task 3)]
      \<lparr>sk_activity_manager = False, sk_am_calls = [], sk_processes = []\<rparr>)) = [Am_setFocusedTask 2, Am_removeTask 3]"
  using task_requests_in_order [of "[(False, Call_remove_task 1), (True, Call_set_focused_task 2), (False, Call_remove_task 3)]"
      "\<lparr>sk_activity_manager = False, sk_am_calls = [], sk_processes = []\<rparr>" "\<lambda>a. Exec_exited True"]
  by simp

section \<open>The connection\<close>

text \<open>A send that returns without an exception has sent the whole message, one that throws a prefix of it.\<close>

lemma local_send_prefix:
  "local_send as data = Some (r, w) \<Longrightarrow> \<exists>rest. data = w @ rest \<and> (r = None \<longrightarrow> rest = [])"
proof (induction as data arbitrary: w rule: local_send.induct)
  case (4 n as b bs)
  define k where "k = min n (length (b # bs))"
  from "4.prems" obtain w' where w': "local_send as (drop k (b # bs)) = Some (r, w')" "w = take k (b # bs) @ w'"
    by (auto simp: Let_def k_def split: option.splits)
  from "4.IH" [OF k_def w'(1)] obtain rest where "drop k (b # bs) = w' @ rest" "r = None \<longrightarrow> rest = []" by blast
  then show ?case using append_take_drop_id [of k "b # bs"] w'(2) by (intro exI [of _ rest]) simp
qed (auto split: if_splits)

text \<open>With enough progress and no error but interruptions it returns.\<close>

lemma local_send_returns:
  "length data \<le> io_progress as \<Longrightarrow> (\<And>e. Io_err e \<in> set as \<Longrightarrow> e = EINTR) \<Longrightarrow> local_send as data = Some (None, data)"
proof (induction as data rule: local_send.induct)
  case (4 n as b bs)
  define k where "k = min n (length (b # bs))"
  have "length (drop k (b # bs)) \<le> io_progress as" using "4.prems"(1) by (auto simp: k_def min_def)
  from "4.IH" [OF k_def this] "4.prems"(2) have "local_send as (drop k (b # bs)) = Some (None, drop k (b # bs))" by auto
  then show ?case using append_take_drop_id [of k "b # bs"] unfolding k_def by simp
qed auto

text \<open>
  The thread does not notice that its connection is broken: while \<open>recv\<close> fails it processes
  empty data again and again, where the failure is not an access outside the buffer.
\<close>

theorem broken_connection_unnoticed:
  assumes "rpc_next (rp_buffer p) = None" "length (rp_buffer p) \<notin> {1, 2, 3}"
  shows "main_loop True (rpc_process_data pb dispatch) (replicate k Recv_failed) p = (Loop_waiting, p)"
    and "0 < k \<Longrightarrow> \<exists>e. main_loop False (rpc_process_data pb dispatch) (replicate k Recv_failed) p = (Loop_undefined e, p)"
proof -
  have "drain rpc_next (rp_buffer p) = ([], rp_buffer p)" using rpc.drain_None [OF assms(1)] .
  from rpc_process_data_drain [of p "[]", simplified, OF this] have
    "rpc_process_data pb dispatch [] p = (Inr True, p)" using assms(2) by simp
  then show "main_loop True (rpc_process_data pb dispatch) (replicate k Recv_failed) p = (Loop_waiting, p)"
    by (induction k) simp_all
  show "0 < k \<Longrightarrow> \<exists>e. main_loop False (rpc_process_data pb dispatch) (replicate k Recv_failed) p = (Loop_undefined e, p)"
    by (cases k) simp_all
qed

section \<open>The clipboard\<close>

text \<open>
  A text one application copies is the text another one pastes; an empty text is read back as no
  clipboard at all.
\<close>

theorem clipboard_roundtrip:
  assumes "parcel_ok parcel holds" "holds p (P_int n # P_str t # vs)" "n \<noteq> 0"
  shows "guest_get_clipboard_data (get_clipboard_data (Android_Bridge.set_clipboard_data (guest_set_clipboard_data parcel p) c)) =
    (if t = [] then [P_int 0] else [P_int 1, P_str t])"
proof -
  from parcel_reads(1) [OF assms(1,2)] obtain q where q: "pr_int32 parcel p = (n, q)" "holds q (P_str t # vs)" by blast
  from parcel_reads(3) [OF assms(1) q(2)] have "fst (pr_string parcel q) = t" by auto
  with q(1) assms(3) show ?thesis
    by (simp add: guest_set_clipboard_data_def guest_get_clipboard_data_def get_clipboard_data_def
        set_clipboard_data_def non_empty_def)
qed

end
