(* ===== verification/Guest_Qemud.thy ===== *)
theory Guest_Qemud
  imports Framing
begin

text \<open>
  The qemud daemon of the guest (\<open>src/android/hardware/anbox/qemud/qemud.c\<close>): it multiplexes the
  connections of Android's emulator services over one byte stream to the host. This theory holds
  the stream: hexadecimal fields, packets, the outgoing queue of a descriptor and the framing of
  the stream in both directions. A packet's buffer has room for \<open>MAX_PAYLOAD\<close> bytes; writing past it
  is \<open>Undefined\<close>. \<open>read\<close> and \<open>write\<close> are retried when interrupted, so their answers here are final.
\<close>

section \<open>Hexadecimal fields\<close>

definition hex_digit :: "byte \<Rightarrow> int option" where
  "hex_digit b =
     (let c = uint b
      in if 48 \<le> c \<and> c - 48 < 10 then Some (c - 48)
         else if 97 \<le> c \<and> c - 97 < 6 then Some (c - 97 + 10)
         else if 65 \<le> c \<and> c - 65 < 6 then Some (c - 65 + 10)
         else None)"

fun hex2int_acc :: "int \<Rightarrow> bytes \<Rightarrow> int" where
  "hex2int_acc result [] = result"
| "hex2int_acc result (c # data) =
     (case hex_digit c of None \<Rightarrow> - 1 | Some d \<Rightarrow> hex2int_acc (result * 16 + d) data)"

definition hex2int :: "bytes \<Rightarrow> int" where
  "hex2int data = hex2int_acc 0 data"

definition hexchar :: "int \<Rightarrow> byte" where
  "hexchar d = (if d < 10 then word_of_int (48 + d) else word_of_int (87 + d))"

fun int2hex :: "int \<Rightarrow> nat \<Rightarrow> bytes" where
  "int2hex value 0 = []"
| "int2hex value (Suc width) = hexchar (value div 16 ^ width mod 16) # int2hex value width"

section \<open>Outgoing queues\<close>

definition MAX_PAYLOAD :: nat where "MAX_PAYLOAD = 4000"

record fdhandler =
  fh_out :: "bytes list"
  fh_out_pos :: nat
  fh_pollout :: bool                       \<comment> \<open>\<open>EPOLLOUT\<close> is enabled\<close>

definition new_fdhandler :: fdhandler where
  "new_fdhandler = \<lparr>fh_out = [], fh_out_pos = 0, fh_pollout = False\<rparr>"

definition fdhandler_enqueue :: "bytes \<Rightarrow> fdhandler \<Rightarrow> fdhandler" where
  "fdhandler_enqueue p f =
     (let f' = f\<lparr>fh_out := fh_out f @ [p]\<rparr>
      in if fh_out f = [] then f'\<lparr>fh_out_pos := 0, fh_pollout := True\<rparr> else f')"

text \<open>
  The part of \<open>fdhandler_event\<close> for \<open>EPOLLOUT\<close>: \<open>answer\<close> is the result of \<open>write\<close>, negative for an
  error and at most the number of bytes offered. The result is what was written.
\<close>

definition fdhandler_write :: "int \<Rightarrow> fdhandler \<Rightarrow> bytes \<times> fdhandler" where
  "fdhandler_write answer f =
     (case fh_out f of
        [] \<Rightarrow> ([], f)
      | p # ps \<Rightarrow>
          (let avail = length p - fh_out_pos f
           in if answer < 0 then ([], f)
              else
                (let len = min (nat answer) avail; out_pos = fh_out_pos f + len;
                     w = take len (drop (fh_out_pos f) p)
                 in if out_pos \<ge> length p
                    then (w, f\<lparr>fh_out_pos := 0, fh_out := ps, fh_pollout := (if ps = [] then False else fh_pollout f)\<rparr>)
                    else (w, f\<lparr>fh_out_pos := out_pos\<rparr>))))"

section \<open>The serial link\<close>

definition HEADER_SIZE :: nat where "HEADER_SIZE = 6"

type_synonym packet = "int \<times> bytes"       \<comment> \<open>channel and payload\<close>

record serial =
  sr_in :: bytes                           \<comment> \<open>the first \<open>in_len\<close> bytes of the input packet\<close>
  sr_datalen :: nat
  sr_channel :: int

definition new_serial :: serial where
  "new_serial = \<lparr>sr_in = [], sr_datalen = 0, sr_channel = 0\<rparr>"

definition serial_header :: "packet \<Rightarrow> bytes" where
  "serial_header p = int2hex (fst p) 2 @ int2hex (int (length (snd p))) 4"

definition serial_send :: "packet \<Rightarrow> fdhandler \<Rightarrow> fdhandler" where
  "serial_send p f = fdhandler_enqueue (snd p) (fdhandler_enqueue (serial_header p) f)"

text \<open>
  The loop of \<open>serial_fd_receive\<close>: the packets posted to the receiver, the state, and whether the
  input packet overflowed. A header that asks for no bytes, or is not a number, is skipped. The
  wanted size is always positive in the states that are reached.
\<close>

function serial_loop :: "bytes \<Rightarrow> serial \<Rightarrow> packet list \<times> serial \<times> exn option" where
  "serial_loop data s =
     (if data = [] then ([], s, None)
      else if sr_datalen s = 0 then
        (if length (sr_in s) \<ge> HEADER_SIZE then ([], s, Some (Undefined ''memcpy''))
         else
           (let avail = min (length data) (HEADER_SIZE - length (sr_in s)); inp = sr_in s @ take avail data;
                s = (if length inp = HEADER_SIZE
                     then \<lparr>sr_in = [], sr_datalen = nat (max 0 (hex2int (drop 2 inp))), sr_channel = hex2int (take 2 inp)\<rparr>
                     else s\<lparr>sr_in := inp\<rparr>)
            in serial_loop (drop avail data) s))
      else
        (if length (sr_in s) \<ge> sr_datalen s then ([], s, Some (Undefined ''memcpy''))
         else
           (let avail = min (length data) (sr_datalen s - length (sr_in s)); inp = sr_in s @ take avail data
            in if length inp > MAX_PAYLOAD then ([], s, Some (Undefined ''inp->data''))
               else if length inp = sr_datalen s
               then (case serial_loop (drop avail data) (s\<lparr>sr_in := [], sr_datalen := 0\<rparr>) of
                       (ps, r) \<Rightarrow> (if sr_channel s < 0 then ps else (sr_channel s, inp) # ps, r))
               else serial_loop (drop avail data) (s\<lparr>sr_in := inp\<rparr>))))"
  by pat_completeness auto
termination by (relation "measure (\<lambda>(data, s). length data)") (auto simp: HEADER_SIZE_def)

declare serial_loop.simps [simp del]

definition serial_fd_receive :: "bytes \<Rightarrow> serial \<Rightarrow> packet list \<times> serial \<times> exn option" where
  "serial_fd_receive data s = serial_loop data s"

section \<open>Round trip of the fields\<close>

lemma hex_digit_hexchar:
  assumes "0 \<le> d" "d < 16"
  shows "hex_digit (hexchar d) = Some d"
proof -
  have "uint (word_of_int (48 + d) :: byte) = 48 + d" "uint (word_of_int (87 + d) :: byte) = 87 + d"
    using assms by (simp_all only: uint_word_of_int, simp_all)
  then show ?thesis using assms by (simp add: hex_digit_def hexchar_def Let_def)
qed

lemma hex2int_acc_int2hex:
  "0 \<le> r \<Longrightarrow> hex2int_acc r (int2hex v w) = r * 16 ^ w + v mod 16 ^ w"
proof (induction w arbitrary: r)
  case (Suc w)
  have m: "v mod 16 ^ Suc w = v div 16 ^ w mod 16 * 16 ^ w + v mod 16 ^ w"
    using mod_mult2_eq' [of v "16 ^ w" 16] zmod_zmult2_eq [of 16 v "16 ^ w"] by (simp add: algebra_simps)
  have "0 \<le> v div 16 ^ w mod 16" "v div 16 ^ w mod 16 < 16" by simp_all
  then have "hex2int_acc r (int2hex v (Suc w)) = hex2int_acc (r * 16 + v div 16 ^ w mod 16) (int2hex v w)"
    by (simp add: hex_digit_hexchar)
  also have "\<dots> = (r * 16 + v div 16 ^ w mod 16) * 16 ^ w + v mod 16 ^ w"
    using Suc.prems by (intro Suc.IH) simp
  also have "\<dots> = r * 16 ^ Suc w + v mod 16 ^ Suc w" unfolding m by (simp add: algebra_simps)
  finally show ?case .
qed simp

lemma hex2int_int2hex: "0 \<le> v \<Longrightarrow> v < 16 ^ w \<Longrightarrow> hex2int (int2hex v w) = v"
  by (simp add: hex2int_def hex2int_acc_int2hex)

lemma length_int2hex [simp]: "length (int2hex v w) = w"
  by (induction w) simp_all

lemma length_serial_header [simp]: "length (serial_header p) = HEADER_SIZE"
  by (simp add: serial_header_def HEADER_SIZE_def)

section \<open>The stream as a sequence of frames\<close>

definition serial_next :: "bytes \<Rightarrow> (packet option \<times> bytes) option" where
  "serial_next bs =
     (if length bs < HEADER_SIZE then None
      else
        (let n = nat (max 0 (hex2int (take 4 (drop 2 bs)))); ch = hex2int (take 2 bs); rest = drop HEADER_SIZE bs
         in if n = 0 then Some (None, rest)
            else if length rest < n then None
            else Some (if ch < 0 then None else Some (ch, take n rest), drop n rest)))"

definition serial_frame :: "packet option \<Rightarrow> bytes" where
  "serial_frame m = (case m of None \<Rightarrow> [] | Some p \<Rightarrow> serial_header p @ snd p)"

definition serial_sendable :: "packet option \<Rightarrow> bool" where
  "serial_sendable m = (case m of None \<Rightarrow> False
     | Some (ch, payload) \<Rightarrow> 0 \<le> ch \<and> ch < 256 \<and> payload \<noteq> [] \<and> length payload \<le> MAX_PAYLOAD)"

lemma serial_next_header:
  assumes "length h = HEADER_SIZE"
  shows "serial_next (h @ r) =
    (let n = nat (max 0 (hex2int (drop 2 h))); ch = hex2int (take 2 h)
     in if n = 0 then Some (None, r) else if length r < n then None
        else Some (if ch < 0 then None else Some (ch, take n r), drop n r))"
proof -
  have e: "take 4 (drop 2 (h @ r)) = drop 2 h" "take 2 (h @ r) = take 2 h" "drop HEADER_SIZE (h @ r) = r"
    "(length (h @ r) < HEADER_SIZE) = False"
    using assms by (simp_all add: HEADER_SIZE_def)
  show ?thesis unfolding serial_next_def e by simp
qed

lemma serial_next_short: "length bs < HEADER_SIZE \<Longrightarrow> serial_next bs = None"
  by (simp add: serial_next_def)

lemma serial_next_SomeD:
  assumes "serial_next bs = Some (m, rest)"
  obtains h r where "bs = h @ r" "length h = HEADER_SIZE" "length rest \<le> length r"
    "serial_next (h @ r @ cs) = Some (m, rest @ cs)"
proof -
  define h r where "h = take HEADER_SIZE bs" and "r = drop HEADER_SIZE bs"
  have "\<not> length bs < HEADER_SIZE" using assms serial_next_short by force
  then have bs: "bs = h @ r" "length h = HEADER_SIZE" by (simp_all add: h_def r_def)
  define n ch where "n = nat (max 0 (hex2int (drop 2 h)))" and "ch = hex2int (take 2 h)"
  have nxt: "serial_next (h @ r') = (if n = 0 then Some (None, r') else if length r' < n then None
      else Some (if ch < 0 then None else Some (ch, take n r'), drop n r'))" for r'
    using serial_next_header [OF bs(2), of r'] by (simp add: n_def ch_def Let_def)
  have a: "serial_next (h @ r) = Some (m, rest)" using assms bs(1) by simp
  have "length rest \<le> length r \<and> serial_next (h @ r @ cs) = Some (m, rest @ cs)"
  proof (cases "n = 0")
    case True
    then show ?thesis using a by (simp add: nxt)
  next
    case False
    with a have l: "\<not> length r < n" by (auto simp: nxt)
    with False a have m: "m = (if ch < 0 then None else Some (ch, take n r))" "rest = drop n r"
      by (simp_all add: nxt split del: if_split)
    have e: "take n (r @ cs) = take n r" "drop n (r @ cs) = drop n r @ cs" using l by simp_all
    show ?thesis unfolding m nxt e using False l by simp
  qed
  then show thesis using bs by (intro that [of h r]) simp_all
qed

interpretation link: framed_codec serial_next serial_frame serial_sendable
proof unfold_locales
  fix bs m rest
  assume a: "serial_next bs = Some (m, rest)"
  from serial_next_SomeD [OF a] obtain h r where "bs = h @ r" "length h = HEADER_SIZE" "length rest \<le> length r" by blast
  then show "length rest < length bs" by (simp add: HEADER_SIZE_def)
  fix cs
  from serial_next_SomeD [OF a, of cs] show "serial_next (bs @ cs) = Some (m, rest @ cs)" by (metis append.assoc)
next
  fix m rest
  assume s: "serial_sendable m"
  then obtain ch payload where m: "m = Some (ch, payload)" "0 \<le> ch" "ch < 256" "payload \<noteq> []" "length payload \<le> MAX_PAYLOAD"
    by (auto simp: serial_sendable_def split: option.splits)
  have "hex2int (int2hex ch 2) = ch" "hex2int (int2hex (int (length payload)) 4) = int (length payload)"
    using m by (simp_all add: hex2int_int2hex MAX_PAYLOAD_def)
  then have "hex2int (take 2 (serial_header (ch, payload))) = ch"
      "hex2int (drop 2 (serial_header (ch, payload))) = int (length payload)"
    by (simp_all add: serial_header_def)
  with m show "serial_next (serial_frame m @ rest) = Some (m, rest)"
    using serial_next_header [OF length_serial_header [of "(ch, payload)"], of "payload @ rest"]
    by (simp add: serial_frame_def)
qed

section \<open>The receiver takes the frames off the stream\<close>

text \<open>
  The bytes a state of the receiver stands for: those of an unfinished header, or a header \<open>h\<close> and
  the part of the payload that is there.
\<close>

definition stands_for :: "serial \<Rightarrow> bytes \<Rightarrow> bool" where
  "stands_for s buf \<longleftrightarrow>
     (if sr_datalen s = 0 then buf = sr_in s \<and> length buf < HEADER_SIZE
      else length (sr_in s) < sr_datalen s \<and>
        (\<exists>h. length h = HEADER_SIZE \<and> buf = h @ sr_in s \<and> sr_datalen s = nat (max 0 (hex2int (drop 2 h))) \<and>
           sr_channel s = hex2int (take 2 h)))"

definition posted :: "packet option list \<Rightarrow> packet list" where
  "posted ms = List.map_filter id ms"

lemma posted_simps [simp]:
  "posted [] = []" "posted (None # ms) = posted ms" "posted (Some p # ms) = p # posted ms"
  "posted (ms @ ms') = posted ms @ posted ms'" "posted (map Some ps) = ps"
  by (simp_all add: posted_def List.map_filter_def comp_def)

lemma stands_for_None: "stands_for s buf \<Longrightarrow> serial_next buf = None"
  using serial_next_header by (auto simp: stands_for_def serial_next_short Let_def split: if_splits)

lemma stands_for_new: "stands_for new_serial []"
  by (simp add: stands_for_def new_serial_def HEADER_SIZE_def)

lemma serial_loop_drain:
  "stands_for s buf \<Longrightarrow> serial_loop data s = (ps, s', None) \<Longrightarrow>
     ps = posted (fst (drain serial_next (buf @ data))) \<and> stands_for s' (snd (drain serial_next (buf @ data)))"
proof (induction data s arbitrary: buf ps rule: serial_loop.induct)
  case (1 data s)
  show ?case
  proof (cases "data = []")
    case True
    with "1.prems" show ?thesis
      by (simp add: serial_loop.simps [of "[]"] link.drain_None stands_for_None)
  next
    case data: False
    show ?thesis
    proof (cases "sr_datalen s = 0")
      case zero: True
      define a inp where "a = min (length data) (HEADER_SIZE - length (sr_in s))" and "inp = sr_in s @ take a data"
      define t where "t = (if length inp = HEADER_SIZE
          then \<lparr>sr_in = [], sr_datalen = nat (max 0 (hex2int (drop 2 inp))), sr_channel = hex2int (take 2 inp)\<rparr>
          else s\<lparr>sr_in := inp\<rparr>)"
      have buf: "buf = sr_in s" "length buf < HEADER_SIZE" using "1.prems"(1) zero by (auto simp: stands_for_def)
      have loop: "serial_loop data s = serial_loop (drop a data) t"
        using data zero buf by (subst serial_loop.simps) (simp add: Let_def a_def inp_def t_def)
      have step: "\<exists>ms b. drain serial_next inp = (ms, b) \<and> posted ms = [] \<and> stands_for t b"
      proof (cases "length inp = HEADER_SIZE")
        case True
        then show ?thesis
          using serial_next_header [OF True, of "[]"] link.drain_Some [of inp None "[]"] link.drain_None
          by (auto simp: t_def stands_for_def Let_def serial_next_short HEADER_SIZE_def split: if_splits)
      next
        case False
        then have "length inp < HEADER_SIZE" using buf by (auto simp: inp_def a_def min_def split: if_splits)
        with False show ?thesis
          using zero by (simp add: t_def stands_for_def serial_next_short link.drain_None)
      qed
      then obtain ms b where d: "drain serial_next inp = (ms, b)" "posted ms = []" "stands_for t b" by blast
      have "ps = posted (fst (drain serial_next (b @ drop a data))) \<and>
          stands_for s' (snd (drain serial_next (b @ drop a data)))"
        by (rule "1.IH"(1) [OF data zero _ a_def inp_def t_def d(3)])
          (use "1.prems"(2) buf loop in simp_all)
      moreover have "buf @ data = inp @ drop a data" by (simp add: inp_def buf(1))
      ultimately show ?thesis using d link.drain_append [of inp "drop a data"] by simp
    next
      case len: False
      define a inp where "a = min (length data) (sr_datalen s - length (sr_in s))" and "inp = sr_in s @ take a data"
      obtain h where h: "length h = HEADER_SIZE" "buf = h @ sr_in s" "sr_datalen s = nat (max 0 (hex2int (drop 2 h)))"
          "sr_channel s = hex2int (take 2 h)" "length (sr_in s) < sr_datalen s"
        using "1.prems"(1) len by (auto simp: stands_for_def)
      have small: "\<not> length inp > MAX_PAYLOAD"
        using "1.prems"(2) data len h(5) by (subst (asm) serial_loop.simps) (auto simp: Let_def a_def inp_def)
      have split_data: "buf @ data = (h @ inp) @ drop a data" by (simp add: h(2) inp_def)
      have nxt: "serial_next (h @ inp) =
          (if length inp < sr_datalen s then None
           else Some (if sr_channel s < 0 then None else Some (sr_channel s, take (sr_datalen s) inp), drop (sr_datalen s) inp))"
        using serial_next_header [OF h(1), of inp] len h(3,4) by (simp add: Let_def)
      show ?thesis
      proof (cases "length inp = sr_datalen s")
        case True
        obtain qs r where q: "serial_loop (drop a data) (s\<lparr>sr_in := [], sr_datalen := 0\<rparr>) = (qs, r)"
          by (rule prod.exhaust)
        have "serial_loop data s = (if sr_channel s < 0 then qs else (sr_channel s, inp) # qs, r)"
          using data len h(5) small True q
          by (subst serial_loop.simps) (simp add: Let_def inp_def a_def)
        then have ps: "r = (s', None)" "ps = (if sr_channel s < 0 then qs else (sr_channel s, inp) # qs)"
          using "1.prems"(2) by simp_all
        have sf: "stands_for (s\<lparr>sr_in := [], sr_datalen := 0\<rparr>) []" by (simp add: stands_for_def HEADER_SIZE_def)
        have IH: "qs = posted (fst (drain serial_next ([] @ drop a data))) \<and>
            stands_for s' (snd (drain serial_next ([] @ drop a data)))"
          by (rule "1.IH"(2) [OF data len _ a_def inp_def small True sf]) (use h(5) q ps(1) in simp_all)
        have "drain serial_next (h @ inp) = ([if sr_channel s < 0 then None else Some (sr_channel s, inp)], [])"
          using link.drain_Some [of "h @ inp"] nxt True link.drain_None [of "[]"]
          by (simp add: serial_next_short HEADER_SIZE_def)
        then show ?thesis
          unfolding split_data link.drain_append [of "h @ inp"] using IH ps(2) by simp
      next
        case False
        then have less: "length inp < sr_datalen s" using h(5) by (auto simp: inp_def a_def min_def split: if_splits)
        have loop: "serial_loop data s = serial_loop (drop a data) (s\<lparr>sr_in := inp\<rparr>)"
          using data len h(5) small False less by (subst serial_loop.simps) (auto simp: Let_def a_def inp_def)
        have sf: "stands_for (s\<lparr>sr_in := inp\<rparr>) (h @ inp)" using len less h by (auto simp: stands_for_def)
        show ?thesis
          unfolding split_data
          by (rule "1.IH"(3) [OF data len _ a_def inp_def small False sf]) (use h(5) loop "1.prems"(2) in simp_all)
      qed
    qed
  qed
qed

text \<open>A stream of frames that can be sent never overflows the input packet.\<close>

lemma header_of_frame:
  assumes "\<forall>q \<in> set qs. serial_sendable (Some q)" "length h = HEADER_SIZE" "h @ r = concat (map (\<lambda>q. serial_frame (Some q)) qs)"
  obtains q qs' where "qs = q # qs'" "h = serial_header q" "hex2int (drop 2 h) = int (length (snd q))"
    "0 < length (snd q)" "length (snd q) \<le> MAX_PAYLOAD" "r = snd q @ concat (map (\<lambda>q. serial_frame (Some q)) qs')"
proof -
  from assms(2,3) obtain q qs' where qs: "qs = q # qs'" by (cases qs) (auto simp: HEADER_SIZE_def)
  with assms have h: "h = serial_header q" "r = snd q @ concat (map (\<lambda>q. serial_frame (Some q)) qs')"
    by (auto simp: serial_frame_def append_eq_append_conv)
  have s: "0 < length (snd q)" "length (snd q) \<le> MAX_PAYLOAD"
    using assms(1) qs by (auto simp: serial_sendable_def split: prod.splits)
  then have "hex2int (drop 2 h) = int (length (snd q))"
    by (simp add: h(1) serial_header_def hex2int_int2hex MAX_PAYLOAD_def)
  with qs h s show thesis by (intro that) simp_all
qed

lemma serial_loop_no_overflow:
  "stands_for s buf \<Longrightarrow> \<forall>q \<in> set qs. serial_sendable (Some q) \<Longrightarrow>
     buf @ data @ later = concat (map (\<lambda>q. serial_frame (Some q)) qs) \<Longrightarrow> snd (snd (serial_loop data s)) = None"
proof (induction data s arbitrary: buf qs rule: serial_loop.induct)
  case (1 data s)
  show ?case
  proof (cases "data = []")
    case True
    then show ?thesis by (simp add: serial_loop.simps [of "[]"])
  next
    case data: False
    show ?thesis
    proof (cases "sr_datalen s = 0")
      case zero: True
      define a inp where "a = min (length data) (HEADER_SIZE - length (sr_in s))" and "inp = sr_in s @ take a data"
      define t where "t = (if length inp = HEADER_SIZE
          then \<lparr>sr_in = [], sr_datalen = nat (max 0 (hex2int (drop 2 inp))), sr_channel = hex2int (take 2 inp)\<rparr>
          else s\<lparr>sr_in := inp\<rparr>)"
      have buf: "buf = sr_in s" "length buf < HEADER_SIZE" using "1.prems"(1) zero by (auto simp: stands_for_def)
      have loop: "serial_loop data s = serial_loop (drop a data) t"
        using data zero buf by (subst serial_loop.simps) (simp add: Let_def a_def inp_def t_def)
      have eq: "inp @ drop a data @ later = concat (map (\<lambda>q. serial_frame (Some q)) qs)"
        using "1.prems"(3) by (simp add: inp_def buf(1)) (metis append.assoc append_take_drop_id)
      have sf: "stands_for t inp"
      proof (cases "length inp = HEADER_SIZE")
        case True
        obtain q :: packet where "hex2int (drop 2 inp) = int (length (snd q))" "0 < length (snd q)"
          using header_of_frame [OF "1.prems"(2) True eq] by metis
        then have "0 < nat (max 0 (hex2int (drop 2 inp)))" by simp
        then show ?thesis unfolding stands_for_def t_def using True by simp
      next
        case False
        then have "length inp < HEADER_SIZE" using buf by (auto simp: inp_def a_def min_def split: if_splits)
        with False zero show ?thesis by (simp add: t_def stands_for_def)
      qed
      show ?thesis
        unfolding loop by (rule "1.IH"(1) [OF data zero _ a_def inp_def t_def sf "1.prems"(2) eq]) (use buf in simp)
    next
      case len: False
      define a inp where "a = min (length data) (sr_datalen s - length (sr_in s))" and "inp = sr_in s @ take a data"
      obtain h where h: "length h = HEADER_SIZE" "buf = h @ sr_in s" "sr_datalen s = nat (max 0 (hex2int (drop 2 h)))"
          "sr_channel s = hex2int (take 2 h)" "length (sr_in s) < sr_datalen s"
        using "1.prems"(1) len by (auto simp: stands_for_def)
      have eq: "h @ inp @ drop a data @ later = concat (map (\<lambda>q. serial_frame (Some q)) qs)"
        using "1.prems"(3) by (simp add: inp_def h(2)) (metis append.assoc append_take_drop_id)
      from header_of_frame [OF "1.prems"(2) h(1) eq] obtain q qs' where q: "qs = q # qs'"
          "hex2int (drop 2 h) = int (length (snd q))" "length (snd q) \<le> MAX_PAYLOAD"
          "inp @ drop a data @ later = snd q @ concat (map (\<lambda>q. serial_frame (Some q)) qs')" by metis
      have n: "sr_datalen s = length (snd q)" using h(3) q(2) by simp
      have small: "\<not> length inp > MAX_PAYLOAD" using q(3) n h(5) by (auto simp: inp_def a_def)
      show ?thesis
      proof (cases "length inp = sr_datalen s")
        case True
        have eq': "[] @ drop a data @ later = concat (map (\<lambda>q. serial_frame (Some q)) qs')"
          using q(4) True n by (simp add: append_eq_append_conv)
        have "snd (snd (serial_loop (drop a data) (s\<lparr>sr_in := [], sr_datalen := 0\<rparr>))) = None"
          by (rule "1.IH"(2) [OF data len _ a_def inp_def small True _ _ eq'])
            (use h(5) q(1) "1.prems"(2) in \<open>simp_all add: stands_for_def HEADER_SIZE_def\<close>)
        then show ?thesis
          using data len h(5) small True
          by (subst serial_loop.simps) (auto simp: Let_def inp_def a_def split: prod.split)
      next
        case False
        then have less: "length inp < sr_datalen s" using h(5) by (auto simp: inp_def a_def min_def split: if_splits)
        have loop: "serial_loop data s = serial_loop (drop a data) (s\<lparr>sr_in := inp\<rparr>)"
          using data len h(5) small False less by (subst serial_loop.simps) (auto simp: Let_def a_def inp_def)
        have sf: "stands_for (s\<lparr>sr_in := inp\<rparr>) (h @ inp)" using len less h by (auto simp: stands_for_def)
        show ?thesis
          unfolding loop by (rule "1.IH"(3) [OF data len _ a_def inp_def small False sf "1.prems"(2)]) (use h(5) eq in simp_all)
      qed
    qed
  qed
qed

section \<open>The sender keeps the order of its bytes\<close>

definition fh_pending :: "fdhandler \<Rightarrow> bytes" where
  "fh_pending f = drop (fh_out_pos f) (concat (fh_out f))"

definition fh_ok :: "fdhandler \<Rightarrow> bool" where
  "fh_ok f \<longleftrightarrow> (fh_pollout f \<longleftrightarrow> fh_out f \<noteq> []) \<and> (\<forall>p \<in> set (fh_out f). p \<noteq> []) \<and>
     (\<forall>p ps. fh_out f = p # ps \<longrightarrow> fh_out_pos f < length p)"

lemma new_fdhandler_ok: "fh_ok new_fdhandler" "fh_pending new_fdhandler = []"
  by (simp_all add: fh_ok_def fh_pending_def new_fdhandler_def)

lemma fdhandler_enqueue_ok:
  assumes "fh_ok f" "p \<noteq> []"
  shows "fh_ok (fdhandler_enqueue p f) \<and> fh_pending (fdhandler_enqueue p f) = fh_pending f @ p"
proof (cases "fh_out f")
  case Nil
  then show ?thesis using assms by (simp add: fdhandler_enqueue_def fh_ok_def fh_pending_def)
next
  case (Cons q qs)
  then have "fh_out_pos f < length q" using assms(1) by (simp add: fh_ok_def)
  with Cons assms show ?thesis by (simp add: fdhandler_enqueue_def fh_ok_def fh_pending_def)
qed

lemma fdhandler_write_ok:
  assumes "fh_ok f" "fdhandler_write n f = (w, f')"
  shows "fh_ok f' \<and> fh_pending f = w @ fh_pending f'"
proof (cases "fh_out f")
  case Nil
  then show ?thesis using assms by (auto simp: fdhandler_write_def)
next
  case (Cons p ps)
  have pos: "fh_out_pos f < length p" using assms(1) Cons by (simp add: fh_ok_def)
  show ?thesis
  proof (cases "n < 0")
    case True
    then show ?thesis using assms Cons by (auto simp: fdhandler_write_def)
  next
    case False
    define k where "k = min (nat n) (length p - fh_out_pos f)"
    have wr: "fdhandler_write n f = (if length p \<le> fh_out_pos f + k
        then (take k (drop (fh_out_pos f) p),
          f\<lparr>fh_out_pos := 0, fh_out := ps, fh_pollout := (if ps = [] then False else fh_pollout f)\<rparr>)
        else (take k (drop (fh_out_pos f) p), f\<lparr>fh_out_pos := fh_out_pos f + k\<rparr>))"
      using Cons False by (simp add: fdhandler_write_def Let_def k_def)
    have pend: "fh_pending f = drop (fh_out_pos f) p @ concat ps" using Cons pos by (simp add: fh_pending_def)
    show ?thesis
    proof (cases "length p \<le> fh_out_pos f + k")
      case True
      with wr assms pend Cons show ?thesis by (auto simp: fh_ok_def fh_pending_def)
    next
      case less: False
      have "drop (fh_out_pos f) p = take k (drop (fh_out_pos f) p) @ drop (fh_out_pos f + k) p"
        by (metis append_take_drop_id drop_drop add.commute)
      with wr assms pend Cons less show ?thesis by (auto simp: fh_ok_def fh_pending_def)
    qed
  qed
qed

text \<open>A run of the sending side: the packets sent, the bytes that went out, the queue.\<close>

inductive link_run :: "packet list \<Rightarrow> bytes \<Rightarrow> fdhandler \<Rightarrow> bool" where
  link_start: "link_run [] [] new_fdhandler"
| link_send: "link_run sent wire f \<Longrightarrow> link_run (sent @ [p]) wire (serial_send p f)"
| link_write: "link_run sent wire f \<Longrightarrow> fdhandler_write n f = (w, f') \<Longrightarrow> link_run sent (wire @ w) f'"

lemma link_run_bytes:
  "link_run sent wire f \<Longrightarrow> \<forall>p \<in> set sent. snd p \<noteq> [] \<Longrightarrow>
     fh_ok f \<and> wire @ fh_pending f = concat (map (\<lambda>q. serial_frame (Some q)) sent)"
proof (induction rule: link_run.induct)
  case link_start
  then show ?case by (simp add: new_fdhandler_ok)
next
  case (link_send sent wire f p)
  have h: "serial_header p \<noteq> []" by (metis length_serial_header HEADER_SIZE_def list.size(3) zero_neq_numeral)
  have "fh_ok f" "wire @ fh_pending f = concat (map (\<lambda>q. serial_frame (Some q)) sent)" "snd p \<noteq> []"
    using link_send by simp_all
  with fdhandler_enqueue_ok [OF _ h, of f] fdhandler_enqueue_ok [of "fdhandler_enqueue (serial_header p) f" "snd p"]
  show ?case by (simp add: serial_send_def serial_frame_def)
next
  case (link_write sent wire f n w f')
  with fdhandler_write_ok [of f n w f'] show ?case by simp
qed

fun receive_all :: "bytes list \<Rightarrow> serial \<Rightarrow> packet list \<times> serial \<times> exn option" where
  "receive_all [] s = ([], s, None)"
| "receive_all (d # ds) s =
     (case serial_fd_receive d s of
        (ps, s, Some e) \<Rightarrow> (ps, s, Some e)
      | (ps, s, None) \<Rightarrow> (case receive_all ds s of (qs, r) \<Rightarrow> (ps @ qs, r)))"

lemma receive_all_frames:
  "\<forall>q \<in> set qs. serial_sendable (Some q) \<Longrightarrow> stands_for s buf \<Longrightarrow>
     buf @ concat ds @ later = concat (map (\<lambda>q. serial_frame (Some q)) qs) \<Longrightarrow>
     \<exists>ps s' qs' b. receive_all ds s = (ps, s', None) \<and> qs = ps @ qs' \<and> stands_for s' b \<and>
       b @ later = concat (map (\<lambda>q. serial_frame (Some q)) qs')"
proof (induction ds arbitrary: s buf qs)
  case Nil
  then show ?case by auto
next
  case (Cons d ds)
  have eq: "buf @ d @ (concat ds @ later) = concat (map (\<lambda>q. serial_frame (Some q)) qs)" using Cons.prems(3) by simp
  obtain ps s1 where l: "serial_loop d s = (ps, s1, None)"
    using serial_loop_no_overflow [OF Cons.prems(2,1) eq] by (metis prod.collapse)
  have d: "ps = posted (fst (drain serial_next (buf @ d)))" "stands_for s1 (snd (drain serial_next (buf @ d)))"
    using serial_loop_drain [OF Cons.prems(2) l] by simp_all
  have "\<forall>m \<in> set (map Some qs). serial_sendable m" using Cons.prems(1) by simp
  moreover have "(buf @ d) @ concat ds @ later = concat (map serial_frame (map Some qs))" using eq by (simp add: comp_def)
  ultimately obtain ms' where ms: "map Some qs = fst (drain serial_next (buf @ d)) @ ms'"
      "snd (drain serial_next (buf @ d)) @ concat ds @ later = concat (map serial_frame ms')"
    using link.drain_prefix [of "map Some qs" "buf @ d" "concat ds @ later"] by (auto simp: serial_next_short HEADER_SIZE_def)
  from ms(1) obtain q1 q2 where q: "qs = q1 @ q2" "map Some q1 = fst (drain serial_next (buf @ d))" "map Some q2 = ms'"
    by (auto simp: map_eq_append_conv)
  have "ps = q1" using d(1) q(2) by (metis posted_simps(5))
  have "\<forall>q \<in> set q2. serial_sendable (Some q)" using Cons.prems(1) q(1) by simp
  from Cons.IH [OF this d(2)] ms(2) q(3) obtain ps' s' qs' b where
    "receive_all ds s1 = (ps', s', None)" "q2 = ps' @ qs'" "stands_for s' b"
    "b @ later = concat (map (\<lambda>q. serial_frame (Some q)) qs')" by (auto simp: comp_def)
  with l \<open>ps = q1\<close> q(1) show ?case by (auto simp: serial_fd_receive_def)
qed

text \<open>
  The stream delivers packets exactly: whatever packets of one to 4000 bytes on channels 0 to 255
  are queued, however the writes of the queue are cut short or fail, and however the bytes that went
  out are cut into reads, the receiving end overflows no buffer and posts the packets that were
  sent, in order and each once, up to those not yet complete; and all of them when nothing is left
  in the queue.
\<close>

lemma link_run_received:
  assumes "link_run sent wire f" "concat reads = wire"
    and "\<forall>p \<in> set sent. 0 \<le> fst p \<and> fst p < 256 \<and> snd p \<noteq> [] \<and> length (snd p) \<le> MAX_PAYLOAD"
  shows "\<exists>ps s' rest. receive_all reads new_serial = (ps, s', None) \<and> sent = ps @ rest \<and> (fh_out f = [] \<longrightarrow> rest = [])"
proof -
  have ok: "\<forall>q \<in> set sent. serial_sendable (Some q)" using assms(3) by (auto simp: serial_sendable_def)
  have run: "wire @ fh_pending f = concat (map (\<lambda>q. serial_frame (Some q)) sent)"
    using link_run_bytes [OF assms(1)] assms(3) by blast
  from receive_all_frames [OF ok stands_for_new, of reads "fh_pending f"] run assms(2) obtain ps s' qs' b where
    r: "receive_all reads new_serial = (ps, s', None)" "sent = ps @ qs'" "stands_for s' b"
    "b @ fh_pending f = concat (map (\<lambda>q. serial_frame (Some q)) qs')" by auto
  have "qs' = []" if "fh_out f = []"
  proof (rule ccontr)
    assume "qs' \<noteq> []"
    then obtain q qs where "qs' = q # qs" by (cases qs') auto
    with r that have b: "b = serial_frame (Some q) @ concat (map (\<lambda>q. serial_frame (Some q)) qs)"
      by (simp add: fh_pending_def)
    have "serial_sendable (Some q)" using ok r(2) \<open>qs' = q # qs\<close> by simp
    from link.nxt_frame [OF this] b stands_for_None [OF r(3)] show False by simp
  qed
  with r show ?thesis by blast
qed

end
