(* ===== verification/Guest_Mux.thy ===== *)
theory Guest_Mux
  imports Guest_Qemud
begin

text \<open>
  The multiplexer of the guest's qemud daemon (\<open>src/android/hardware/anbox/qemud/qemud.c\<close>): its
  clients, the channels they are given, the control messages and the events of the descriptors.
  A handler's identity is its descriptor, which is open as long as a handler has it. A handler
  that waits on the list \<open>closing\<close> still names its client, whose memory is gone: an access to it, or
  to a handler that was freed, is \<open>Undefined\<close>, and so is the overflow of \<open>last_channel\<close>.
\<close>

section \<open>Clients and channels\<close>

record client =
  cl_fd :: nat
  cl_channel :: int
  cl_registered :: bool
  cl_out :: fdhandler

record mux =
  mx_clients :: "client list"
  mx_last_channel :: int
  mx_in :: serial
  mx_out :: fdhandler
  mx_closing :: "(nat \<times> fdhandler) list"

definition CHANNEL_CONTROL :: int where "CHANNEL_CONTROL = 0"

definition multiplexer_init :: mux where
  "multiplexer_init =
     \<lparr>mx_clients = [], mx_last_channel = 0, mx_in = new_serial, mx_out = new_fdhandler, mx_closing = []\<rparr>"

definition find_fd :: "nat \<Rightarrow> mux \<Rightarrow> client option" where
  "find_fd fd m = List.find (\<lambda>c. cl_fd c = fd) (mx_clients m)"

definition set_client :: "nat \<Rightarrow> (client \<Rightarrow> client) \<Rightarrow> mux \<Rightarrow> mux" where
  "set_client fd g m = m\<lparr>mx_clients := map (\<lambda>c. if cl_fd c = fd then g c else c) (mx_clients m)\<rparr>"

definition unlink_client :: "nat \<Rightarrow> mux \<Rightarrow> mux" where
  "unlink_client fd m = m\<lparr>mx_clients := filter (\<lambda>c. cl_fd c \<noteq> fd) (mx_clients m)\<rparr>"

definition multiplexer_find_client :: "int \<Rightarrow> mux \<Rightarrow> client option" where
  "multiplexer_find_client channel m = List.find (\<lambda>c. cl_channel c = channel) (mx_clients m)"

definition multiplexer_serial_send :: "int \<Rightarrow> bytes \<Rightarrow> mux \<Rightarrow> mux" where
  "multiplexer_serial_send channel data m = m\<lparr>mx_out := serial_send (channel, data) (mx_out m)\<rparr>"

text \<open>The loop \<open>TRY_AGAIN\<close>: the channel and the new \<open>last_channel\<close>.\<close>

function alloc_channel :: "client list \<Rightarrow> int \<Rightarrow> (int \<times> int) res" where
  "alloc_channel cs prev =
     (if prev \<ge> 2 ^ 31 - 1 then Inl (Undefined ''last_channel'')
      else
        (let nxt = prev + 1; channel = nxt mod 256
         in if list_ex (\<lambda>c. cl_channel c = channel) cs then alloc_channel cs nxt
            else Inr (channel, nxt)))"
  by pat_completeness auto
termination by (relation "measure (\<lambda>(cs, prev). nat (2 ^ 31 - 1 - prev))") auto

declare alloc_channel.simps [simp del]

text \<open>\<open>%.*s\<close> stops at a zero byte.\<close>

definition connect_message :: "bytes \<Rightarrow> int \<Rightarrow> bytes" where
  "connect_message service channel =
     bytes_of ''connect:'' @ takeWhile (\<lambda>b. b \<noteq> 0) service @ bytes_of '':'' @ int2hex channel 2"

definition multiplexer_open_channel :: "bytes \<Rightarrow> mux \<Rightarrow> (int \<times> mux) res" where
  "multiplexer_open_channel service m =
     rbind (alloc_channel (mx_clients m) (mx_last_channel m)) (\<lambda>(channel, last).
       let m = m\<lparr>mx_last_channel := last\<rparr>; p = connect_message service channel
       in if length p \<ge> MAX_PAYLOAD then Inr (- 1, m)
          else Inr (channel, multiplexer_serial_send CHANNEL_CONTROL p m))"

definition disconnect_message :: "int \<Rightarrow> bytes" where
  "disconnect_message channel = bytes_of ''disconnect:'' @ int2hex channel 2"

definition multiplexer_close_channel :: "int \<Rightarrow> mux \<Rightarrow> mux" where
  "multiplexer_close_channel channel m = multiplexer_serial_send CHANNEL_CONTROL (disconnect_message channel) m"

section \<open>What happens to a client\<close>

definition client_new :: "nat \<Rightarrow> client" where
  "client_new fd = \<lparr>cl_fd = fd, cl_channel = - 1, cl_registered = False, cl_out = new_fdhandler\<rparr>"

text \<open>
  \<open>client_free\<close> with \<open>fdhandler_shutdown\<close>: a handler with packets left moves to the list \<open>closing\<close>,
  any other is closed.
\<close>

definition client_free :: "client \<Rightarrow> mux \<Rightarrow> mux" where
  "client_free c m =
     (let m = unlink_client (cl_fd c) m
      in if fh_out (cl_out c) \<noteq> [] then m\<lparr>mx_closing := (cl_fd c, cl_out c) # mx_closing m\<rparr> else m)"

definition client_fd_receive :: "bytes \<Rightarrow> client \<Rightarrow> mux \<Rightarrow> mux res" where
  "client_fd_receive data c m =
     (if cl_registered c then Inr (multiplexer_serial_send (cl_channel c) data m)
      else if cl_channel c > 0 then Inr (client_free c m)
      else rbind (multiplexer_open_channel data m) (\<lambda>(channel, m).
        if channel < 0 then Inr (client_free c m)
        else Inr (set_client (cl_fd c) (\<lambda>c. c\<lparr>cl_channel := channel\<rparr>) m)))"

definition client_fd_close :: "client \<Rightarrow> mux \<Rightarrow> mux" where
  "client_fd_close c m =
     unlink_client (cl_fd c) (if cl_channel c > 0 then multiplexer_close_channel (cl_channel c) m else m)"

definition client_registration :: "bool \<Rightarrow> client \<Rightarrow> client" where
  "client_registration registered c =
     (let c = c\<lparr>cl_out := fdhandler_enqueue (bytes_of (if registered then ''OK'' else ''KO'')) (cl_out c),
                cl_registered := registered\<rparr>
      in if registered then c else c\<lparr>cl_channel := - 1\<rparr>)"

definition client_send :: "bytes \<Rightarrow> client \<Rightarrow> client" where
  "client_send data c = c\<lparr>cl_out := fdhandler_enqueue data (cl_out c)\<rparr>"

section \<open>What arrives from the host\<close>

definition control_prefix :: "string \<Rightarrow> bytes \<Rightarrow> bool" where
  "control_prefix s p \<longleftrightarrow> length p = 13 \<and> take 11 p = bytes_of s"

definition multiplexer_handle_control :: "bytes \<Rightarrow> mux \<Rightarrow> mux" where
  "multiplexer_handle_control p m =
     (let client = multiplexer_find_client (hex2int (take 2 (drop 11 p))) m
      in if control_prefix ''ok:connect:'' p then
           (case client of None \<Rightarrow> m | Some c \<Rightarrow> set_client (cl_fd c) (client_registration True) m)
         else if control_prefix ''ko:connect:'' p then
           (case client of None \<Rightarrow> m | Some c \<Rightarrow> set_client (cl_fd c) (client_registration False) m)
         else if control_prefix ''disconnect:'' p then
           (case client of None \<Rightarrow> m | Some c \<Rightarrow> client_free c m)
         else m)"

definition multiplexer_serial_receive :: "packet \<Rightarrow> mux \<Rightarrow> mux" where
  "multiplexer_serial_receive p m =
     (if fst p = CHANNEL_CONTROL then multiplexer_handle_control (snd p) m
      else (case multiplexer_find_client (fst p) m of
              None \<Rightarrow> m
            | Some c \<Rightarrow> set_client (cl_fd c) (client_send (snd p)) m))"

section \<open>Events of the descriptors\<close>

text \<open>
  An event tells what \<open>read\<close> returned, if it returned anything, whether the descriptor was hung up,
  and what \<open>write\<close> returned, if the descriptor was writable.
\<close>

record fd_event =
  ev_in :: "bytes option"
  ev_hup :: bool
  ev_out :: "int option"

definition has_handler :: "nat \<Rightarrow> mux \<Rightarrow> bool" where
  "has_handler fd m \<longleftrightarrow> fd \<in> cl_fd ` set (mx_clients m) \<or> fd \<in> fst ` set (mx_closing m)"

definition fdhandler_close :: "nat \<Rightarrow> mux \<Rightarrow> mux" where
  "fdhandler_close fd m =
     (case find_fd fd m of
        Some c \<Rightarrow> client_fd_close c m
      | None \<Rightarrow> m\<lparr>mx_closing := filter (\<lambda>h. fst h \<noteq> fd) (mx_closing m)\<rparr>)"

definition client_write :: "nat \<Rightarrow> int \<Rightarrow> mux \<Rightarrow> bytes \<times> mux" where
  "client_write fd answer m =
     (case find_fd fd m of
        Some c \<Rightarrow> (case fdhandler_write answer (cl_out c) of (w, f) \<Rightarrow> (w, set_client fd (\<lambda>c. c\<lparr>cl_out := f\<rparr>) m))
      | None \<Rightarrow>
          (case map_of (mx_closing m) fd of
             None \<Rightarrow> ([], m)
           | Some h \<Rightarrow>
               (case fdhandler_write answer h of
                  (w, f) \<Rightarrow> (w, m\<lparr>mx_closing := map (\<lambda>x. if fst x = fd then (fd, f) else x) (mx_closing m)\<rparr>))))"

definition client_read :: "nat \<Rightarrow> bytes option \<Rightarrow> mux \<Rightarrow> mux res" where
  "client_read fd inp m =
     (case inp of
        None \<Rightarrow> Inr m
      | Some data \<Rightarrow>
          (case find_fd fd m of
             Some c \<Rightarrow> client_fd_receive data c m
           | None \<Rightarrow> Inl (Undefined ''client'')))"

definition client_event :: "nat \<Rightarrow> fd_event \<Rightarrow> mux \<Rightarrow> (bytes \<times> mux) res" where
  "client_event fd e m =
     rbind (client_read fd (ev_in e) m) (\<lambda>m.
       if ev_hup e then
         (if has_handler fd m then Inr ([], fdhandler_close fd m) else Inl (Undefined ''fdhandler''))
       else
         (case ev_out e of
            None \<Rightarrow> Inr ([], m)
          | Some answer \<Rightarrow>
              if has_handler fd m then Inr (client_write fd answer m) else Inl (Undefined ''fdhandler'')))"

definition serial_read :: "bytes \<Rightarrow> mux \<Rightarrow> mux res" where
  "serial_read data m =
     (case serial_fd_receive data (mx_in m) of
        (ps, s, Some x) \<Rightarrow> Inl x
      | (ps, s, None) \<Rightarrow> Inr (fold multiplexer_serial_receive ps (m\<lparr>mx_in := s\<rparr>)))"

definition serial_event :: "fd_event \<Rightarrow> mux \<Rightarrow> (bytes \<times> mux) res" where
  "serial_event e m =
     rbind (case ev_in e of None \<Rightarrow> Inr m | Some data \<Rightarrow> serial_read data m) (\<lambda>m.
       if ev_hup e then Inl (Runtime_error ''unexpected serial port close !!'')
       else
         (case ev_out e of
            None \<Rightarrow> Inr ([], m)
          | Some answer \<Rightarrow> (case fdhandler_write answer (mx_out m) of (w, f) \<Rightarrow> Inr (w, m\<lparr>mx_out := f\<rparr>))))"

text \<open>\<open>accept\<close> is what the call returned, negative for an error.\<close>

definition multiplexer_control_accept :: "nat \<Rightarrow> mux \<Rightarrow> mux" where
  "multiplexer_control_accept fd m = m\<lparr>mx_clients := client_new fd # mx_clients m\<rparr>"

definition fdhandler_accept_event :: "int option \<Rightarrow> bool \<Rightarrow> mux \<Rightarrow> mux res" where
  "fdhandler_accept_event accept hup m =
     (case accept of
        Some fd \<Rightarrow>
          if fd < 0 then Inr m
          else if hup then Inl (Runtime_error ''unexpected multiplexer control close'')
          else Inr (multiplexer_control_accept (nat fd) m)
      | None \<Rightarrow> if hup then Inl (Runtime_error ''unexpected multiplexer control close'') else Inr m)"

section \<open>Giving out channels\<close>

lemma alloc_channel_fresh:
  "alloc_channel cs prev = Inr (channel, nxt) \<Longrightarrow>
     channel \<notin> cl_channel ` set cs \<and> 0 \<le> channel \<and> channel < 256 \<and> channel = nxt mod 256 \<and> prev < nxt"
proof (induction cs prev rule: alloc_channel.induct)
  case (1 cs prev)
  from "1.prems" have le: "\<not> 2 ^ 31 - 1 \<le> prev" by (subst (asm) alloc_channel.simps) (auto split: if_splits)
  show ?case
  proof (cases "list_ex (\<lambda>c. cl_channel c = (prev + 1) mod 256) cs")
    case True
    with "1.prems" le have "alloc_channel cs (prev + 1) = Inr (channel, nxt)"
      by (subst (asm) alloc_channel.simps) (simp add: Let_def)
    with "1.IH" [OF le refl refl True] show ?thesis by force
  next
    case False
    with "1.prems" le have "channel = (prev + 1) mod 256" "nxt = prev + 1"
      by (subst (asm) alloc_channel.simps, simp add: Let_def)+
    with False show ?thesis by (auto simp: list_ex_iff)
  qed
qed

lemma alloc_channel_within:
  "(prev + 1 + int d) mod 256 \<notin> cl_channel ` set cs \<Longrightarrow> prev + 1 + int d < 2 ^ 31 \<Longrightarrow>
     \<exists>channel nxt. alloc_channel cs prev = Inr (channel, nxt) \<and> nxt \<le> prev + 1 + int d"
proof (induction d arbitrary: prev)
  case 0
  then have "\<not> list_ex (\<lambda>c. cl_channel c = (prev + 1) mod 256) cs"
    by (simp add: list_ex_iff) (metis imageI)
  with 0 show ?case by (subst alloc_channel.simps) (simp add: Let_def)
next
  case (Suc d)
  have e: "prev + 1 + int (Suc d) = (prev + 1) + 1 + int d" by simp
  show ?case
  proof (cases "list_ex (\<lambda>c. cl_channel c = (prev + 1) mod 256) cs")
    case True
    then have "alloc_channel cs prev = alloc_channel cs (prev + 1)"
      using Suc.prems(2) by (subst alloc_channel.simps) (simp add: Let_def)
    with Suc.IH [of "prev + 1"] Suc.prems show ?thesis unfolding e by simp
  next
    case False
    then show ?thesis using Suc.prems(2) by (subst alloc_channel.simps) (simp add: Let_def)
  qed
qed

lemma unused_channel_near:
  assumes "x \<notin> cl_channel ` set cs" "0 \<le> x" "x < 256"
  obtains d where "d < 256" "(prev + 1 + int d) mod 256 \<notin> cl_channel ` set cs"
proof (rule that)
  let ?d = "nat ((x - prev - 1) mod 256)"
  show "?d < 256" using pos_mod_bound [of 256 "x - prev - 1"] by linarith
  have "(prev + 1 + int ?d) mod 256 = (prev + 1 + (x - prev - 1)) mod 256"
    by (simp add: mod_add_right_eq)
  also have "\<dots> = x" using assms by simp
  finally show "(prev + 1 + int ?d) mod 256 \<notin> cl_channel ` set cs" using assms(1) by simp
qed

lemma unused_channel:
  assumes "length cs < 256"
  obtains x where "x \<notin> cl_channel ` set cs" "0 \<le> x" "x < (256 :: int)"
proof -
  have "card (cl_channel ` set cs) < card {0 ..< 256 :: int}"
    using assms card_image_le [of "set cs" cl_channel] card_length [of cs] by simp
  then have "\<not> {0 ..< 256} \<subseteq> cl_channel ` set cs" by (meson List.finite_set card_mono finite_imageI not_le)
  then obtain x where "x \<in> {0 ..< 256}" "x \<notin> cl_channel ` set cs" by blast
  then show thesis by (intro that) auto
qed

lemma alloc_channel_exhausted:
  "{0 ..< 256} \<subseteq> cl_channel ` set cs \<Longrightarrow> alloc_channel cs prev = Inl (Undefined ''last_channel'')"
proof (induction cs prev rule: alloc_channel.induct)
  case (1 cs prev)
  have "(prev + 1) mod 256 \<in> cl_channel ` set cs" using "1.prems" by auto
  then have u: "list_ex (\<lambda>c. cl_channel c = (prev + 1) mod 256) cs" by (auto simp: list_ex_iff)
  show ?case
  proof (cases "2 ^ 31 - 1 \<le> prev")
    case True
    then show ?thesis by (subst alloc_channel.simps) simp
  next
    case False
    then show ?thesis using "1.IH" [OF False refl refl u "1.prems"] u
      by (subst alloc_channel.simps) (simp add: Let_def)
  qed
qed


section \<open>The state of the multiplexer\<close>

definition fds :: "mux \<Rightarrow> nat list" where
  "fds m = map cl_fd (mx_clients m) @ map fst (mx_closing m)"

definition own_channels :: "mux \<Rightarrow> bool" where
  "own_channels m \<longleftrightarrow> (\<forall>c \<in> set (mx_clients m). \<forall>d \<in> set (mx_clients m).
     0 \<le> cl_channel c \<and> cl_channel c = cl_channel d \<longrightarrow> c = d)"

definition client_ok :: "client \<Rightarrow> bool" where
  "client_ok c \<longleftrightarrow> - 1 \<le> cl_channel c \<and> cl_channel c < 256 \<and> fh_ok (cl_out c)"

definition mux_ok :: "mux \<Rightarrow> bool" where
  "mux_ok m \<longleftrightarrow> distinct (fds m) \<and> own_channels m \<and> (\<forall>c \<in> set (mx_clients m). client_ok c) \<and>
     (\<forall>h \<in> set (mx_closing m). fh_ok (snd h))"

lemma mux_ok_init: "mux_ok multiplexer_init"
  by (simp add: mux_ok_def multiplexer_init_def fds_def own_channels_def)

lemma mux_ok_cong:
  "mx_clients m' = mx_clients m \<Longrightarrow> mx_closing m' = mx_closing m \<Longrightarrow> mux_ok m' = mux_ok m"
  by (simp add: mux_ok_def fds_def own_channels_def)

lemma own_fds: "mux_ok m \<Longrightarrow> c \<in> set (mx_clients m) \<Longrightarrow> d \<in> set (mx_clients m) \<Longrightarrow> cl_fd c = cl_fd d \<Longrightarrow> c = d"
  by (auto simp: mux_ok_def fds_def distinct_map inj_on_def)

lemma find_fd_Some: "find_fd fd m = Some c \<Longrightarrow> c \<in> set (mx_clients m) \<and> cl_fd c = fd"
  by (auto simp: find_fd_def find_Some_iff)

lemma find_fd_client:
  assumes "mux_ok m" "c \<in> set (mx_clients m)"
  shows "find_fd (cl_fd c) m = Some c"
proof -
  have "find_fd (cl_fd c) m \<noteq> None" using assms(2) by (auto simp: find_fd_def find_None_iff)
  then obtain d where d: "find_fd (cl_fd c) m = Some d" by blast
  with own_fds [OF assms, of d] find_fd_Some [OF d] show ?thesis by simp
qed

lemma find_client_Some: "multiplexer_find_client ch m = Some c \<Longrightarrow> c \<in> set (mx_clients m) \<and> cl_channel c = ch"
  by (auto simp: multiplexer_find_client_def find_Some_iff)

lemma own_channel:
  "mux_ok m \<Longrightarrow> c \<in> set (mx_clients m) \<Longrightarrow> d \<in> set (mx_clients m) \<Longrightarrow> 0 \<le> cl_channel c \<Longrightarrow>
     cl_channel c = cl_channel d \<Longrightarrow> c = d"
  unfolding mux_ok_def own_channels_def by blast

lemma find_client_own:
  assumes "mux_ok m" "c \<in> set (mx_clients m)" "0 \<le> cl_channel c"
  shows "multiplexer_find_client (cl_channel c) m = Some c"
proof -
  have "multiplexer_find_client (cl_channel c) m \<noteq> None"
    using assms(2) by (auto simp: multiplexer_find_client_def find_None_iff)
  then obtain d where d: "multiplexer_find_client (cl_channel c) m = Some d" by blast
  with own_channel [OF assms(1,2) _ assms(3), of d] find_client_Some [OF d] show ?thesis by simp
qed

section \<open>Every operation keeps it\<close>

lemma clients_set_client:
  "set (mx_clients (set_client fd g m)) = (\<lambda>c. if cl_fd c = fd then g c else c) ` set (mx_clients m)"
  by (simp add: set_client_def)

lemma mux_ok_set_client:
  assumes "mux_ok m" and c: "c \<in> set (mx_clients m)"
    and g: "cl_fd (g c) = cl_fd c" "client_ok (g c)"
      "cl_channel (g c) = cl_channel c \<or> cl_channel (g c) = - 1 \<or> cl_channel (g c) \<notin> cl_channel ` set (mx_clients m)"
  shows "mux_ok (set_client (cl_fd c) g m)"
proof -
  have one: "cl_fd d = cl_fd c \<longleftrightarrow> d = c" if "d \<in> set (mx_clients m)" for d
    using own_fds [OF assms(1) that c] by auto
  have cs: "mx_clients (set_client (cl_fd c) g m) = map (\<lambda>d. if d = c then g c else d) (mx_clients m)"
    using one by (auto simp: set_client_def)
  have "map cl_fd (mx_clients (set_client (cl_fd c) g m)) = map cl_fd (mx_clients m)"
    unfolding cs using g(1) by simp
  then have "fds (set_client (cl_fd c) g m) = fds m" by (simp add: fds_def set_client_def)
  moreover have "own_channels (set_client (cl_fd c) g m)"
    unfolding own_channels_def cs
  proof (intro ballI impI)
    fix x y
    assume "x \<in> set (map (\<lambda>d. if d = c then g c else d) (mx_clients m))"
      "y \<in> set (map (\<lambda>d. if d = c then g c else d) (mx_clients m))"
    then obtain d e where x: "x = (if d = c then g c else d)" "d \<in> set (mx_clients m)"
      and y: "y = (if e = c then g c else e)" "e \<in> set (mx_clients m)"
      by (simp only: set_map image_iff) blast
    assume a: "0 \<le> cl_channel x \<and> cl_channel x = cl_channel y"
    have "d = e"
      using a x y g(3) own_channel [OF assms(1) x(2) y(2)] own_channel [OF assms(1) x(2) y(2)] c
      by (cases "d = c"; cases "e = c") (auto simp: image_iff)
    with x(1) y(1) show "x = y" by simp
  qed
  moreover have "\<forall>d \<in> set (mx_clients (set_client (cl_fd c) g m)). client_ok d"
    unfolding cs using assms(1) g(2) by (auto simp: mux_ok_def)
  ultimately show ?thesis using assms(1) by (simp add: mux_ok_def set_client_def)
qed

lemma mux_ok_unlink: "mux_ok m \<Longrightarrow> mux_ok (unlink_client fd m)"
  by (auto simp: mux_ok_def unlink_client_def fds_def own_channels_def distinct_map_filter)

lemma mux_ok_client_free: "mux_ok m \<Longrightarrow> c \<in> set (mx_clients m) \<Longrightarrow> mux_ok (client_free c m)"
  using mux_ok_unlink [of m "cl_fd c"]
  by (auto simp: client_free_def Let_def mux_ok_def unlink_client_def fds_def own_channels_def client_ok_def)

lemma serial_send_same [simp]:
  "mx_clients (multiplexer_serial_send ch data m) = mx_clients m"
  "mx_closing (multiplexer_serial_send ch data m) = mx_closing m"
  "mx_last_channel (multiplexer_serial_send ch data m) = mx_last_channel m"
  "mx_in (multiplexer_serial_send ch data m) = mx_in m"
  "mx_out (multiplexer_serial_send ch data m) = serial_send (ch, data) (mx_out m)"
  by (simp_all add: multiplexer_serial_send_def)

lemma mux_ok_serial_send [simp]: "mux_ok (multiplexer_serial_send ch data m) = mux_ok m"
  by (rule mux_ok_cong) simp_all

text \<open>What \<open>multiplexer_open_channel\<close> answers, and the packet it sends.\<close>

lemma open_channel_cases:
  assumes "multiplexer_open_channel service m = Inr (ch, m')"
  obtains channel nxt where "alloc_channel (mx_clients m) (mx_last_channel m) = Inr (channel, nxt)"
    "length (connect_message service channel) \<ge> MAX_PAYLOAD" "ch = - 1" "m' = m\<lparr>mx_last_channel := nxt\<rparr>"
  | nxt where "alloc_channel (mx_clients m) (mx_last_channel m) = Inr (ch, nxt)" "0 \<le> ch" "ch < 256"
    "ch \<notin> cl_channel ` set (mx_clients m)" "length (connect_message service ch) < MAX_PAYLOAD"
    "m' = multiplexer_serial_send CHANNEL_CONTROL (connect_message service ch) (m\<lparr>mx_last_channel := nxt\<rparr>)"
proof -
  obtain channel nxt where al: "alloc_channel (mx_clients m) (mx_last_channel m) = Inr (channel, nxt)"
    using assms by (auto simp: multiplexer_open_channel_def rbind_eq_Inr)
  have "channel \<notin> cl_channel ` set (mx_clients m)" "0 \<le> channel" "channel < 256"
    using alloc_channel_fresh [OF al] by blast+
  with al assms that show thesis
    by (cases "MAX_PAYLOAD \<le> length (connect_message service channel)")
       (auto simp: multiplexer_open_channel_def)
qed

lemma mux_ok_client_fd_receive:
  assumes "mux_ok m" "c \<in> set (mx_clients m)" "client_fd_receive data c m = Inr m'"
  shows "mux_ok m'"
proof (cases "cl_registered c \<or> 0 < cl_channel c")
  case True
  with assms mux_ok_client_free [OF assms(1,2)] show ?thesis
    by (auto simp: client_fd_receive_def split: if_splits)
next
  case False
  then obtain ch m1 where o: "multiplexer_open_channel data m = Inr (ch, m1)"
    and m': "m' = (if ch < 0 then client_free c m1 else set_client (cl_fd c) (\<lambda>c. c\<lparr>cl_channel := ch\<rparr>) m1)"
    using assms(3) by (auto simp: client_fd_receive_def rbind_eq_Inr split: if_splits)
  show ?thesis
  proof (cases rule: open_channel_cases [OF o])
    case (1 channel nxt)
    then have "mux_ok m1" using assms(1) mux_ok_cong [of m1 m] by simp
    with 1 m' mux_ok_client_free [of m1 c] assms(2) show ?thesis by simp
  next
    case (2 nxt)
    then have ok: "mux_ok m1" using assms(1) mux_ok_cong [of m1 m] by simp
    have "client_ok c" using assms(1,2) by (simp add: mux_ok_def)
    then show ?thesis using mux_ok_set_client [OF ok, of c "\<lambda>c. c\<lparr>cl_channel := ch\<rparr>"] 2 m' assms(2)
      by (simp add: client_ok_def)
  qed
qed

lemma mux_ok_client_fd_close: "mux_ok m \<Longrightarrow> mux_ok (client_fd_close c m)"
  by (simp add: client_fd_close_def multiplexer_close_channel_def mux_ok_unlink)

lemma mux_ok_fdhandler_close: "mux_ok m \<Longrightarrow> mux_ok (fdhandler_close fd m)"
proof (cases "find_fd fd m")
  case None
  then show "mux_ok m \<Longrightarrow> ?thesis"
    by (auto simp: fdhandler_close_def mux_ok_def own_channels_def fds_def distinct_map_filter)
qed (simp add: fdhandler_close_def mux_ok_client_fd_close)

lemma client_ok_write:
  "client_ok c \<Longrightarrow> fdhandler_write answer (cl_out c) = (w, f) \<Longrightarrow> client_ok (c\<lparr>cl_out := f\<rparr>)"
  using fdhandler_write_ok [of "cl_out c" answer w f] by (simp add: client_ok_def)

lemma mux_ok_client_write:
  assumes "mux_ok m" "client_write fd answer m = (w, m')"
  shows "mux_ok m'"
proof (cases "find_fd fd m")
  case (Some c)
  obtain f where f: "fdhandler_write answer (cl_out c) = (w, f)" "m' = set_client fd (\<lambda>c. c\<lparr>cl_out := f\<rparr>) m"
    using assms(2) Some by (auto simp: client_write_def split: prod.splits)
  have c: "c \<in> set (mx_clients m)" "fd = cl_fd c" using find_fd_Some [OF Some] by auto
  have "client_ok c" using assms(1) c by (simp add: mux_ok_def)
  from client_ok_write [OF this f(1)] mux_ok_set_client [OF assms(1) c(1), of "\<lambda>c. c\<lparr>cl_out := f\<rparr>"]
  show ?thesis using f(2) c(2) by simp
next
  case None
  show ?thesis
  proof (cases "map_of (mx_closing m) fd")
    case None': None
    with None assms show ?thesis by (simp add: client_write_def)
  next
    case (Some h)
    then obtain f where f: "fdhandler_write answer h = (w, f)"
        "m' = m\<lparr>mx_closing := map (\<lambda>x. if fst x = fd then (fd, f) else x) (mx_closing m)\<rparr>"
      using assms(2) None by (auto simp: client_write_def split: prod.splits)
    have "fh_ok h" using map_of_SomeD [OF Some] assms(1) by (auto simp: mux_ok_def)
    then have "fh_ok f" using fdhandler_write_ok f(1) by blast
    moreover have "map fst (map (\<lambda>x. if fst x = fd then (fd, f) else x) (mx_closing m)) = map fst (mx_closing m)" by auto
    then have "fds m' = fds m" unfolding fds_def f(2) by (simp del: map_map)
    ultimately show ?thesis using assms(1) f(2) by (auto simp: mux_ok_def own_channels_def)
  qed
qed

lemma mux_ok_client_event:
  assumes "mux_ok m" "client_event fd e m = Inr (w, m')"
  shows "mux_ok m'"
proof -
  obtain m1 where r: "client_read fd (ev_in e) m = Inr m1" using assms(2) by (auto simp: client_event_def rbind_eq_Inr)
  have "mux_ok m1"
    using r assms(1) find_fd_Some [of fd m] mux_ok_client_fd_receive [of m]
    by (auto simp: client_read_def split: option.splits)
  with assms(2) r show ?thesis
    by (auto simp: client_event_def mux_ok_fdhandler_close intro: mux_ok_client_write split: if_splits option.splits)
qed

lemma client_ok_enqueue: "client_ok c \<Longrightarrow> data \<noteq> [] \<Longrightarrow> client_ok (c\<lparr>cl_out := fdhandler_enqueue data (cl_out c)\<rparr>)"
  using fdhandler_enqueue_ok [of "cl_out c" data] by (simp add: client_ok_def)

lemma client_ok_registration: "client_ok c \<Longrightarrow> client_ok (client_registration r c)"
  using client_ok_enqueue [of c "bytes_of (if r then ''OK'' else ''KO'')"]
  by (cases r) (simp_all add: client_registration_def client_ok_def bytes_of_def)

lemma client_registration_same [simp]: "cl_fd (client_registration r c) = cl_fd c"
  "cl_channel (client_registration r c) = (if r then cl_channel c else - 1)"
  by (simp_all add: client_registration_def Let_def)

lemma mux_ok_registration:
  "mux_ok m \<Longrightarrow> c \<in> set (mx_clients m) \<Longrightarrow> mux_ok (set_client (cl_fd c) (client_registration r) m)"
  by (rule mux_ok_set_client) (auto simp: mux_ok_def client_ok_registration)

lemma mux_ok_handle_control: "mux_ok m \<Longrightarrow> mux_ok (multiplexer_handle_control p m)"
  by (auto simp: multiplexer_handle_control_def Let_def mux_ok_registration mux_ok_client_free
      dest: find_client_Some split: option.split)

lemma mux_ok_serial_receive:
  assumes "mux_ok m" "snd p \<noteq> []"
  shows "mux_ok (multiplexer_serial_receive p m)"
proof (cases "multiplexer_find_client (fst p) m")
  case (Some c)
  then have c: "c \<in> set (mx_clients m)" using find_client_Some by blast
  then have "client_ok (client_send (snd p) c)" using assms by (simp add: client_send_def client_ok_enqueue mux_ok_def)
  with mux_ok_set_client [OF assms(1) c, of "client_send (snd p)"] show ?thesis
    by (simp add: Some multiplexer_serial_receive_def mux_ok_handle_control assms(1) client_send_def)
qed (simp add: multiplexer_serial_receive_def mux_ok_handle_control assms(1))

lemma mux_ok_receive_all:
  "mux_ok m \<Longrightarrow> \<forall>p \<in> set ps. snd p \<noteq> [] \<Longrightarrow> mux_ok (fold multiplexer_serial_receive ps m)"
  by (induction ps arbitrary: m) (simp_all add: mux_ok_serial_receive)

text \<open>A packet that is posted has a channel and a payload, whatever arrived.\<close>

lemma serial_loop_posts: "\<forall>p \<in> set (fst (serial_loop data s)). 0 \<le> fst p \<and> snd p \<noteq> []"
proof (induction data s rule: serial_loop.induct)
  case (1 data s)
  show ?case
  proof (cases "data = [] \<or> sr_datalen s \<noteq> 0 \<and> length (sr_in s) \<ge> sr_datalen s \<or>
      sr_datalen s = 0 \<and> length (sr_in s) \<ge> HEADER_SIZE")
    case True
    then show ?thesis by (subst serial_loop.simps) auto
  next
    case False
    show ?thesis
    proof (cases "sr_datalen s = 0")
      case True
      with False "1.IH"(1) show ?thesis by (subst serial_loop.simps) (simp add: Let_def)
    next
      case len: False
      define a inp where "a = min (length data) (sr_datalen s - length (sr_in s))" and "inp = sr_in s @ take a data"
      have data: "data \<noteq> []" "\<not> sr_datalen s \<le> length (sr_in s)" using False len by auto
      consider "MAX_PAYLOAD < length inp" | "\<not> MAX_PAYLOAD < length inp" "length inp = sr_datalen s"
        | "\<not> MAX_PAYLOAD < length inp" "length inp \<noteq> sr_datalen s" by blast
      then show ?thesis
      proof cases
        case 1
        with data len show ?thesis by (subst serial_loop.simps) (simp add: Let_def a_def inp_def)
      next
        case 2
        obtain qs r where q: "serial_loop (drop a data) (s\<lparr>sr_in := [], sr_datalen := 0\<rparr>) = (qs, r)"
          by (rule prod.exhaust)
        then have "serial_loop data s = (if sr_channel s < 0 then qs else (sr_channel s, inp) # qs, r)"
          using data len 2 by (subst serial_loop.simps) (simp add: Let_def a_def inp_def)
        moreover have "inp \<noteq> []" using 2(2) len by auto
        ultimately show ?thesis using "1.IH"(2) [OF data(1) len data(2) a_def inp_def 2] q by auto
      next
        case 3
        have "serial_loop data s = serial_loop (drop a data) (s\<lparr>sr_in := inp\<rparr>)"
          using data len 3 by (subst serial_loop.simps) (auto simp: Let_def a_def inp_def)
        then show ?thesis using "1.IH"(3) [OF data(1) len data(2) a_def inp_def 3] by simp
      qed
    qed
  qed
qed

lemma mux_ok_serial_read: "mux_ok m \<Longrightarrow> serial_read data m = Inr m' \<Longrightarrow> mux_ok m'"
  using serial_loop_posts [of data "mx_in m"] mux_ok_cong [of "m\<lparr>mx_in := _\<rparr>" m]
  by (auto simp: serial_read_def serial_fd_receive_def intro!: mux_ok_receive_all split: prod.splits option.splits)

lemma serial_event_Inr:
  assumes "serial_event e m = Inr (w, m')"
  obtains m1 where "(case ev_in e of None \<Rightarrow> Inr m | Some data \<Rightarrow> serial_read data m) = Inr m1" "w = []" "m' = m1"
  | m1 answer f where "(case ev_in e of None \<Rightarrow> Inr m | Some data \<Rightarrow> serial_read data m) = Inr m1"
      "fdhandler_write answer (mx_out m1) = (w, f)" "m' = m1\<lparr>mx_out := f\<rparr>"
proof -
  obtain m1 where m1: "(case ev_in e of None \<Rightarrow> Inr m | Some data \<Rightarrow> serial_read data m) = Inr m1"
    using assms unfolding serial_event_def rbind_eq_Inr by blast
  with assms that show thesis by (auto simp: serial_event_def split: if_splits option.splits prod.splits)
qed

lemma mux_ok_serial_event:
  assumes "mux_ok m" "serial_event e m = Inr (w, m')"
  shows "mux_ok m'"
proof -
  have "mux_ok m1" if "(case ev_in e of None \<Rightarrow> Inr m | Some data \<Rightarrow> serial_read data m) = Inr m1" for m1
    using that assms(1) by (auto dest: mux_ok_serial_read split: option.splits)
  moreover have "mux_ok (m1\<lparr>mx_out := f\<rparr>) = mux_ok m1" for m1 f by (rule mux_ok_cong) simp_all
  ultimately show ?thesis by (cases rule: serial_event_Inr [OF assms(2)]) auto
qed

lemma mux_ok_accept: "mux_ok m \<Longrightarrow> fd \<notin> set (fds m) \<Longrightarrow> mux_ok (multiplexer_control_accept fd m)"
  by (auto simp: mux_ok_def fds_def own_channels_def multiplexer_control_accept_def client_new_def client_ok_def
      new_fdhandler_ok(1))

section \<open>Runs of the multiplexer\<close>

text \<open>What an event of a client has to tell the host: the packets, written down independently of the queue.\<close>

definition receive_sends :: "bytes \<Rightarrow> client \<Rightarrow> mux \<Rightarrow> packet list" where
  "receive_sends data c m =
     (if cl_registered c then [(cl_channel c, data)]
      else if cl_channel c > 0 then []
      else (case alloc_channel (mx_clients m) (mx_last_channel m) of
              Inl _ \<Rightarrow> []
            | Inr (channel, _) \<Rightarrow>
                if length (connect_message data channel) \<ge> MAX_PAYLOAD then []
                else [(0, connect_message data channel)]))"

definition close_sends :: "nat \<Rightarrow> mux \<Rightarrow> packet list" where
  "close_sends fd m =
     (case find_fd fd m of
        Some c \<Rightarrow> if cl_channel c > 0 then [(0, disconnect_message (cl_channel c))] else []
      | None \<Rightarrow> [])"

definition uplink :: "nat \<Rightarrow> fd_event \<Rightarrow> mux \<Rightarrow> packet list" where
  "uplink fd e m =
     (case (ev_in e, find_fd fd m) of
        (Some data, Some c) \<Rightarrow> receive_sends data c m
      | _ \<Rightarrow> []) @
     (if ev_hup e then (case client_read fd (ev_in e) m of Inr m \<Rightarrow> close_sends fd m | Inl _ \<Rightarrow> []) else [])"

text \<open>\<open>read\<close> returns between one byte and the size of the packet, if anything.\<close>

definition event_ok :: "fd_event \<Rightarrow> bool" where
  "event_ok e \<longleftrightarrow> (case ev_in e of None \<Rightarrow> True | Some data \<Rightarrow> data \<noteq> [] \<and> length data \<le> MAX_PAYLOAD)"

text \<open>A run: the packets for the host, the bytes that went out on the serial link, the state.\<close>

inductive mux_run :: "packet list \<Rightarrow> bytes \<Rightarrow> mux \<Rightarrow> bool" where
  run_start: "mux_run [] [] multiplexer_init"
| run_accept: "mux_run sent wire m \<Longrightarrow> fd \<notin> set (fds m) \<Longrightarrow>
    fdhandler_accept_event (Some (int fd)) False m = Inr m' \<Longrightarrow> mux_run sent wire m'"
| run_client: "mux_run sent wire m \<Longrightarrow> has_handler fd m \<Longrightarrow> event_ok e \<Longrightarrow>
    client_event fd e m = Inr (w, m') \<Longrightarrow> mux_run (sent @ uplink fd e m) wire m'"
| run_serial: "mux_run sent wire m \<Longrightarrow> event_ok e \<Longrightarrow>
    serial_event e m = Inr (w, m') \<Longrightarrow> mux_run sent (wire @ w) m'"

lemma mux_run_ok: "mux_run sent wire m \<Longrightarrow> mux_ok m"
  by (induction rule: mux_run.induct)
     (auto simp: mux_ok_init fdhandler_accept_event_def mux_ok_accept intro: mux_ok_client_event mux_ok_serial_event)

subsection \<open>The packets go into the queue\<close>

lemma out_same [simp]:
  "mx_out (set_client fd g m) = mx_out m" "mx_out (unlink_client fd m) = mx_out m" "mx_out (client_free c m) = mx_out m"
  "mx_out (multiplexer_handle_control p m) = mx_out m" "mx_out (multiplexer_serial_receive q m) = mx_out m"
  "mx_out (multiplexer_control_accept fd m) = mx_out m"
proof -
  show a: "mx_out (set_client fd g m) = mx_out m" for fd g m by (simp add: set_client_def)
  show b: "mx_out (unlink_client fd m) = mx_out m" for fd m by (simp add: unlink_client_def)
  show c: "mx_out (client_free c m) = mx_out m" for c m by (simp add: client_free_def Let_def b)
  show d: "mx_out (multiplexer_handle_control p m) = mx_out m" for p m
    by (simp add: multiplexer_handle_control_def Let_def a c split: option.split)
  show "mx_out (multiplexer_serial_receive q m) = mx_out m"
    by (simp add: multiplexer_serial_receive_def a d split: option.split)
qed (simp add: multiplexer_control_accept_def)

lemma out_receive_all: "mx_out (fold multiplexer_serial_receive ps m) = mx_out m"
  by (induction ps arbitrary: m) simp_all

lemma in_same [simp]:
  "mx_in (set_client fd g m) = mx_in m" "mx_in (client_free c m) = mx_in m" "mx_in (multiplexer_serial_receive q m) = mx_in m"
proof -
  show a: "mx_in (set_client fd g m) = mx_in m" for fd g m by (simp add: set_client_def)
  show b: "mx_in (client_free c m) = mx_in m" for c m by (simp add: client_free_def Let_def unlink_client_def)
  show "mx_in (multiplexer_serial_receive q m) = mx_in m"
    by (simp add: multiplexer_serial_receive_def multiplexer_handle_control_def Let_def a b split: option.split)
qed

lemma in_receive_all: "mx_in (fold multiplexer_serial_receive ps m) = mx_in m"
  by (induction ps arbitrary: m) simp_all

lemma out_client_write: "client_write fd answer m = (w, m') \<Longrightarrow> mx_out m' = mx_out m"
  by (auto simp: client_write_def split: option.splits prod.splits)

lemma out_receive:
  assumes "client_fd_receive data c m = Inr m'"
  shows "mx_out m' = fold serial_send (receive_sends data c m) (mx_out m)"
proof (cases "cl_registered c \<or> 0 < cl_channel c")
  case True
  with assms show ?thesis by (auto simp: client_fd_receive_def receive_sends_def)
next
  case False
  then obtain ch m1 where o: "multiplexer_open_channel data m = Inr (ch, m1)" and m': "mx_out m' = mx_out m1"
    using assms by (auto simp: client_fd_receive_def rbind_eq_Inr split: if_splits)
  from False show ?thesis unfolding m'
    by (cases rule: open_channel_cases [OF o]) (simp_all add: receive_sends_def CHANNEL_CONTROL_def)
qed

lemma out_close: "mx_out (fdhandler_close fd m) = fold serial_send (close_sends fd m) (mx_out m)"
  by (auto simp: fdhandler_close_def close_sends_def client_fd_close_def multiplexer_close_channel_def
      CHANNEL_CONTROL_def split: option.split)

lemma out_client_event:
  assumes "client_event fd e m = Inr (w, m')"
  shows "mx_out m' = fold serial_send (uplink fd e m) (mx_out m)"
proof -
  obtain m1 where r: "client_read fd (ev_in e) m = Inr m1" using assms by (auto simp: client_event_def rbind_eq_Inr)
  have "mx_out m1 = fold serial_send (case (ev_in e, find_fd fd m) of (Some data, Some c) \<Rightarrow> receive_sends data c m | _ \<Rightarrow> []) (mx_out m)"
    using r out_receive by (auto simp: client_read_def split: option.splits)
  moreover have "mx_out m' = (if ev_hup e then fold serial_send (close_sends fd m1) (mx_out m1) else mx_out m1)"
    using assms r out_client_write by (auto simp: client_event_def out_close split: if_splits option.splits)
  ultimately show ?thesis using r by (simp add: uplink_def)
qed

lemma int2hex_mod: "int2hex (v mod 256) 2 = int2hex v 2"
proof -
  have "v mod 256 = 16 * (v div 16 mod 16) + v mod 16" using zmod_zmult2_eq [of 16 v 16] by simp
  then have "v mod 256 div 16 mod 16 = v div 16 mod 16" "v mod 256 mod 16 = v mod 16" by simp_all
  then show ?thesis by (simp add: numeral_2_eq_2)
qed

definition on_wire :: "packet \<Rightarrow> packet" where "on_wire p = (fst p mod 256, snd p)"

lemma serial_send_on_wire: "serial_send (on_wire p) f = serial_send p f"
  by (simp add: serial_send_def serial_header_def on_wire_def int2hex_mod)

lemma link_run_sends: "link_run sent wire f \<Longrightarrow> link_run (sent @ map on_wire ps) wire (fold serial_send ps f)"
proof (induction ps arbitrary: sent f)
  case (Cons p ps)
  from link_send [OF Cons.prems, of "on_wire p"] Cons.IH [of "sent @ [on_wire p]" "serial_send p f"] show ?case
    by (simp add: serial_send_on_wire)
qed simp

lemma mux_run_link: "mux_run sent wire m \<Longrightarrow> link_run (map on_wire sent) wire (mx_out m)"
proof (induction rule: mux_run.induct)
  case run_start
  then show ?case using link_start by (simp add: multiplexer_init_def)
next
  case (run_accept sent wire m fd m')
  then show ?case by (auto simp: fdhandler_accept_event_def)
next
  case (run_client sent wire m fd e w m')
  from link_run_sends [OF run_client.IH, of "uplink fd e m"] out_client_event [OF run_client.hyps(4)]
  show ?case by simp
next
  case (run_serial sent wire m e w m')
  have same: "mx_out m1 = mx_out m" if "(case ev_in e of None \<Rightarrow> Inr m | Some data \<Rightarrow> serial_read data m) = Inr m1" for m1
    using that by (auto simp: serial_read_def out_receive_all split: option.splits prod.splits)
  show ?case
  proof (cases rule: serial_event_Inr [OF run_serial.hyps(3)])
    case (1 m1)
    with same [OF 1(1)] run_serial.IH show ?thesis by simp
  next
    case (2 m1 answer f)
    with same [OF 2(1)] link_write [OF run_serial.IH, of answer w f] show ?thesis by simp
  qed
qed

lemma length_disconnect_message: "length (disconnect_message ch) = 13"
  by (simp add: disconnect_message_def)

lemma close_sends_fit: "p \<in> set (close_sends fd m) \<Longrightarrow> snd p \<noteq> [] \<and> length (snd p) \<le> MAX_PAYLOAD"
  using length_disconnect_message
  by (auto simp: close_sends_def disconnect_message_def MAX_PAYLOAD_def bytes_of_def split: option.splits if_splits)

lemma receive_sends_fit:
  "data \<noteq> [] \<Longrightarrow> length data \<le> MAX_PAYLOAD \<Longrightarrow> p \<in> set (receive_sends data c m) \<Longrightarrow>
     snd p \<noteq> [] \<and> length (snd p) \<le> MAX_PAYLOAD"
  by (auto simp: receive_sends_def connect_message_def bytes_of_def split: if_splits sum.splits)

lemma uplink_fits: "event_ok e \<Longrightarrow> p \<in> set (uplink fd e m) \<Longrightarrow> snd p \<noteq> [] \<and> length (snd p) \<le> MAX_PAYLOAD"
  unfolding uplink_def set_append
proof (elim UnE)
  assume "event_ok e" "p \<in> set (case (ev_in e, find_fd fd m) of (Some data, Some c) \<Rightarrow> receive_sends data c m | _ \<Rightarrow> [])"
  then show ?thesis using receive_sends_fit [of _ p _ m] by (auto simp: event_ok_def split: option.splits)
next
  assume "p \<in> set (if ev_hup e then (case client_read fd (ev_in e) m of Inr m \<Rightarrow> close_sends fd m | Inl _ \<Rightarrow> []) else [])"
  then obtain m1 where "p \<in> set (close_sends fd m1)"
    by (cases "ev_hup e"; cases "client_read fd (ev_in e) m") simp_all
  then show ?thesis by (rule close_sends_fit)
qed

lemma mux_run_fits: "mux_run sent wire m \<Longrightarrow> \<forall>p \<in> set sent. snd p \<noteq> [] \<and> length (snd p) \<le> MAX_PAYLOAD"
proof (induction rule: mux_run.induct)
  case (run_client sent wire m fd e w m')
  then show ?case using uplink_fits [OF run_client.hyps(3)] by auto
qed simp_all

text \<open>
  C20. From the client sockets to the host: whatever the clients do, however their data is cut,
  whatever the host sends back and however the writes to the serial link are cut short, a receiver
  at the other end of the link takes from it exactly the packets due for the clients' events (a
  registered client's data under its channel, a request of a service, the end of a connection) in
  order and each once, up to those still queued, and all of them when the queue is empty. The
  channel is sent modulo 256. In each state reached no two clients share a channel.
\<close>

theorem mux_uplink_exact:
  assumes "mux_run sent wire m" "concat reads = wire"
  shows "(\<exists>ps s' rest. receive_all reads new_serial = (ps, s', None) \<and> map on_wire sent = ps @ rest \<and>
       (fh_out (mx_out m) = [] \<longrightarrow> rest = [])) \<and>
     (\<forall>c \<in> set (mx_clients m). \<forall>d \<in> set (mx_clients m). 0 \<le> cl_channel c \<and> cl_channel c = cl_channel d \<longrightarrow> c = d)"
proof
  have "\<forall>p \<in> set (map on_wire sent). 0 \<le> fst p \<and> fst p < 256 \<and> snd p \<noteq> [] \<and> length (snd p) \<le> MAX_PAYLOAD"
    using mux_run_fits [OF assms(1)] by (auto simp: on_wire_def)
  from link_run_received [OF mux_run_link [OF assms(1)] assms(2) this]
  show "\<exists>ps s' rest. receive_all reads new_serial = (ps, s', None) \<and> map on_wire sent = ps @ rest \<and>
       (fh_out (mx_out m) = [] \<longrightarrow> rest = [])" .
qed (use mux_run_ok [OF assms(1)] own_channel in blast)

subsection \<open>Packets for the clients\<close>

text \<open>The client after packets were put into its queue.\<close>

definition extended :: "bytes \<Rightarrow> client \<Rightarrow> client \<Rightarrow> bool" where
  "extended data c c' \<longleftrightarrow> cl_fd c' = cl_fd c \<and> cl_channel c' = cl_channel c \<and> cl_registered c' = cl_registered c \<and>
     fh_pending (cl_out c') = fh_pending (cl_out c) @ data"

definition addressed :: "client \<Rightarrow> packet list \<Rightarrow> bytes" where
  "addressed c ps = concat (map snd (filter (\<lambda>p. fst p = cl_channel c) ps))"

lemma extended_refl: "extended [] c c"
  by (simp add: extended_def)

lemma extended_trans: "extended xs c c' \<Longrightarrow> extended ys c' c'' \<Longrightarrow> extended (xs @ ys) c c''"
  by (simp add: extended_def)

lemma receive_one_routed:
  assumes "mux_ok m" "0 < fst p" "snd p \<noteq> []" "c \<in> set (mx_clients m)"
  shows "\<exists>c' \<in> set (mx_clients (multiplexer_serial_receive p m)). extended (addressed c [p]) c c'"
proof (cases "multiplexer_find_client (fst p) m")
  case None
  then have "fst p \<noteq> cl_channel c" using assms(4) by (auto simp: multiplexer_find_client_def find_None_iff)
  then show ?thesis using None assms(2,4) extended_refl
    by (auto simp: multiplexer_serial_receive_def addressed_def CHANNEL_CONTROL_def)
next
  case (Some d)
  then have d: "d \<in> set (mx_clients m)" "cl_channel d = fst p" using find_client_Some by blast+
  have cs: "set (mx_clients (multiplexer_serial_receive p m)) =
      (\<lambda>e. if cl_fd e = cl_fd d then client_send (snd p) e else e) ` set (mx_clients m)"
    using Some assms(2) by (simp add: multiplexer_serial_receive_def CHANNEL_CONTROL_def clients_set_client)
  show ?thesis
  proof (cases "c = d")
    case True
    have "fh_ok (cl_out c)" using assms(1,4) by (simp add: mux_ok_def client_ok_def)
    from fdhandler_enqueue_ok [OF this assms(3)] True d(2) have "extended (addressed c [p]) c (client_send (snd p) c)"
      by (simp add: extended_def addressed_def client_send_def)
    with True assms(4) show ?thesis unfolding cs by force
  next
    case False
    then have "cl_channel c \<noteq> fst p" "cl_fd c \<noteq> cl_fd d"
      using own_channel [OF assms(1) d(1) assms(4)] own_fds [OF assms(1,4) d(1)] d(2) assms(2) by auto
    with assms(4) show ?thesis unfolding cs
      by (intro bexI [of _ c]) (auto simp: addressed_def extended_refl image_iff)
  qed
qed

lemma receive_one_same:
  assumes "0 < fst p"
  shows "map cl_fd (mx_clients (multiplexer_serial_receive p m)) = map cl_fd (mx_clients m) \<and>
    mx_closing (multiplexer_serial_receive p m) = mx_closing m"
  using assms
  by (auto simp: multiplexer_serial_receive_def CHANNEL_CONTROL_def set_client_def client_send_def split: option.split)

lemma receive_list_routed:
  "mux_ok m \<Longrightarrow> \<forall>p \<in> set ps. 0 < fst p \<and> snd p \<noteq> [] \<Longrightarrow> c \<in> set (mx_clients m) \<Longrightarrow>
     \<exists>c' \<in> set (mx_clients (fold multiplexer_serial_receive ps m)). extended (addressed c ps) c c'"
proof (induction ps arbitrary: m c)
  case Nil
  then show ?case using extended_refl by (force simp: addressed_def)
next
  case (Cons p ps)
  from receive_one_routed [of m p c] Cons.prems obtain c1 where
    c1: "c1 \<in> set (mx_clients (multiplexer_serial_receive p m))" "extended (addressed c [p]) c c1" by auto
  from Cons.IH [OF mux_ok_serial_receive _ c1(1)] Cons.prems obtain c' where
    c': "c' \<in> set (mx_clients (fold multiplexer_serial_receive (p # ps) m))" "extended (addressed c1 ps) c1 c'" by auto
  have "addressed c (p # ps) = addressed c [p] @ addressed c1 ps"
    using c1(2) by (simp add: addressed_def extended_def)
  with extended_trans [OF c1(2) c'(2)] c'(1) show ?case by metis
qed

lemma receive_list_same:
  "\<forall>p \<in> set ps. 0 < fst p \<Longrightarrow>
     map cl_fd (mx_clients (fold multiplexer_serial_receive ps m)) = map cl_fd (mx_clients m) \<and>
     mx_closing (fold multiplexer_serial_receive ps m) = mx_closing m"
  by (induction ps arbitrary: m) (simp_all add: receive_one_same)

text \<open>
  C21. From the host to the clients: in every state the multiplexer reaches, when a read of the
  serial link completes the packets \<open>ps\<close>, none of them on the control channel, every client has
  behind what waited in its queue the payloads of exactly the packets on its channel, in order, and
  keeps its channel and registration; no client comes or goes and nothing is sent to the host.
\<close>

theorem mux_downlink_routed:
  assumes "mux_run sent wire m" "serial_fd_receive data (mx_in m) = (ps, s, None)"
    and "\<forall>p \<in> set ps. fst p \<noteq> CHANNEL_CONTROL"
  shows "\<exists>m'. serial_read data m = Inr m' \<and> map cl_fd (mx_clients m') = map cl_fd (mx_clients m) \<and>
    mx_closing m' = mx_closing m \<and> mx_out m' = mx_out m \<and> mx_in m' = s \<and>
    (\<forall>c \<in> set (mx_clients m). \<exists>c'. find_fd (cl_fd c) m' = Some c' \<and> cl_channel c' = cl_channel c \<and>
       cl_registered c' = cl_registered c \<and>
       fh_pending (cl_out c') = fh_pending (cl_out c) @ concat (map snd (filter (\<lambda>p. fst p = cl_channel c) ps)))"
proof -
  let ?m = "m\<lparr>mx_in := s\<rparr>"
  let ?m' = "fold multiplexer_serial_receive ps ?m"
  have ps: "\<forall>p \<in> set ps. 0 < fst p \<and> snd p \<noteq> []"
    using serial_loop_posts [of data "mx_in m"] assms(2,3) by (force simp: serial_fd_receive_def CHANNEL_CONTROL_def)
  have ok: "mux_ok ?m" using mux_run_ok [OF assms(1)] mux_ok_cong [of ?m m] by simp
  have ok': "mux_ok ?m'" using mux_ok_receive_all [OF ok] ps by blast
  have "\<exists>c'. find_fd (cl_fd c) ?m' = Some c' \<and> extended (addressed c ps) c c'" if "c \<in> set (mx_clients m)" for c
    using receive_list_routed [OF ok ps, of c] that find_fd_client [OF ok'] by (force simp: extended_def)
  then have "\<forall>c \<in> set (mx_clients m). \<exists>c'. find_fd (cl_fd c) ?m' = Some c' \<and> cl_channel c' = cl_channel c \<and>
      cl_registered c' = cl_registered c \<and>
      fh_pending (cl_out c') = fh_pending (cl_out c) @ concat (map snd (filter (\<lambda>p. fst p = cl_channel c) ps))"
    unfolding extended_def addressed_def by blast
  moreover have "mx_in ?m' = s" by (simp add: in_receive_all)
  ultimately show ?thesis
    using assms(2) receive_list_same [of ps ?m] ps out_receive_all [of ps ?m]
    by (simp add: serial_read_def)
qed

section \<open>Handlers that are gone\<close>

lemma find_fd_None: "find_fd fd m = None \<longleftrightarrow> fd \<notin> cl_fd ` set (mx_clients m)"
  by (auto simp: find_fd_def find_None_iff)

lemma has_handler_find: "find_fd fd m = Some c \<Longrightarrow> has_handler fd m"
  using find_fd_Some [of fd m c] by (auto simp: has_handler_def)

lemma find_fd_serial_send [simp]: "find_fd fd (multiplexer_serial_send ch data m) = find_fd fd m"
  by (simp add: find_fd_def)

text \<open>
  Which events of a client are safe: in every state the multiplexer reaches, an event of a
  registered client, and one that only hangs up or writes, is handled. But a client that waits for
  the answer to its request, has nothing to be written, and sends more data and hangs up so that
  both are reported at once, is freed with its handler, which is then closed a second time.
\<close>

theorem client_hangup_frees_twice:
  assumes "mux_run sent wire m" "c \<in> set (mx_clients m)"
  shows "(cl_registered c \<or> ev_in e = None \<longrightarrow> (\<exists>w m'. client_event (cl_fd c) e m = Inr (w, m'))) \<and>
    (\<not> cl_registered c \<and> 0 < cl_channel c \<and> fh_out (cl_out c) = [] \<and> ev_in e \<noteq> None \<and> ev_hup e \<longrightarrow>
       client_event (cl_fd c) e m = Inl (Undefined ''fdhandler''))"
proof (intro conjI impI)
  note ok = mux_run_ok [OF assms(1)]
  note c = find_fd_client [OF ok assms(2)]
  {
    assume "cl_registered c \<or> ev_in e = None"
    then obtain m1 where m1: "client_read (cl_fd c) (ev_in e) m = Inr m1" "find_fd (cl_fd c) m1 = Some c"
      using c by (cases "ev_in e") (auto simp: client_read_def client_fd_receive_def)
    then show "\<exists>w m'. client_event (cl_fd c) e m = Inr (w, m')"
      using has_handler_find [OF m1(2)] by (auto simp: client_event_def split: option.split)
  }
  {
    assume a: "\<not> cl_registered c \<and> 0 < cl_channel c \<and> fh_out (cl_out c) = [] \<and> ev_in e \<noteq> None \<and> ev_hup e"
    then have "client_read (cl_fd c) (ev_in e) m = Inr (unlink_client (cl_fd c) m)"
      using c by (auto simp: client_read_def client_fd_receive_def client_free_def)
    moreover have "cl_fd c \<in> cl_fd ` set (mx_clients m)" using assms(2) by simp
    then have "cl_fd c \<notin> fst ` set (mx_closing m)" using ok by (auto simp: mux_ok_def fds_def)
    then have "\<not> has_handler (cl_fd c) (unlink_client (cl_fd c) m)" by (auto simp: has_handler_def unlink_client_def)
    ultimately show "client_event (cl_fd c) e m = Inl (Undefined ''fdhandler'')"
      using a by (simp add: client_event_def)
  }
qed

section \<open>Sample runs\<close>

text \<open>A client connects and asks for the service \<open>gsm\<close>; the first bytes go out.\<close>

definition ask :: fd_event where
  "ask = \<lparr>ev_in = Some (bytes_of ''gsm''), ev_hup = False, ev_out = None\<rparr>"

definition flush_link :: fd_event where
  "flush_link = \<lparr>ev_in = None, ev_hup = False, ev_out = Some 4000\<rparr>"

definition asked :: mux where
  "asked = (case client_event 5 ask (multiplexer_control_accept 5 multiplexer_init) of Inr (w, m) \<Rightarrow> m | Inl _ \<Rightarrow> multiplexer_init)"

definition flushed :: "bytes \<times> mux" where
  "flushed = (case serial_event flush_link asked of Inr r \<Rightarrow> r | Inl _ \<Rightarrow> ([], asked))"

lemma asked_run: "mux_run [(0, bytes_of ''connect:gsm:01'')] [] asked"
proof -
  have "client_event 5 ask (multiplexer_control_accept 5 multiplexer_init) = Inr ([], asked)" by code_simp
  moreover have "uplink 5 ask (multiplexer_control_accept 5 multiplexer_init) = [(0, bytes_of ''connect:gsm:01'')]" by code_simp
  moreover have "has_handler 5 (multiplexer_control_accept 5 multiplexer_init)" "event_ok ask" by code_simp+
  moreover have "mux_run [] [] (multiplexer_control_accept 5 multiplexer_init)"
    by (rule run_accept [OF run_start, of 5]) code_simp+
  ultimately show ?thesis using run_client by fastforce
qed

lemma flushed_run: "mux_run [(0, bytes_of ''connect:gsm:01'')] (bytes_of ''00000e'') (snd flushed)"
proof -
  have "serial_event flush_link asked = Inr (bytes_of ''00000e'', snd flushed)" "event_ok flush_link" by code_simp+
  with run_serial [OF asked_run] show ?thesis by fastforce
qed

theorem mux_uplink_exact_witness:
  "\<exists>ps s' rest. receive_all [bytes_of ''0000'', bytes_of ''0e''] new_serial = (ps, s', None) \<and>
     map on_wire [(0, bytes_of ''connect:gsm:01'')] = ps @ rest"
proof -
  have "concat [bytes_of ''0000'', bytes_of ''0e''] = bytes_of ''00000e''" by code_simp
  from mux_uplink_exact [OF flushed_run this] show ?thesis by blast
qed

theorem mux_downlink_routed_witness:
  "\<exists>m' c'. serial_read (bytes_of ''010002hi'') asked = Inr m' \<and> find_fd 5 m' = Some c' \<and> cl_channel c' = 1 \<and>
     fh_pending (cl_out c') = bytes_of ''hi''"
proof -
  have r: "serial_fd_receive (bytes_of ''010002hi'') (mx_in asked) =
      ([(1, bytes_of ''hi'')], fst (snd (serial_fd_receive (bytes_of ''010002hi'') (mx_in asked))), None)"
    "\<forall>p \<in> set [(1, bytes_of ''hi'')]. fst p \<noteq> CHANNEL_CONTROL"
    by code_simp+
  have c: "hd (mx_clients asked) \<in> set (mx_clients asked)" "cl_fd (hd (mx_clients asked)) = 5"
    "cl_channel (hd (mx_clients asked)) = 1" "fh_pending (cl_out (hd (mx_clients asked))) = []"
    by code_simp+
  from mux_downlink_routed [OF asked_run r] c show ?thesis by fastforce
qed


definition gone :: fd_event where
  "gone = \<lparr>ev_in = Some (bytes_of ''AT''), ev_hup = True, ev_out = None\<rparr>"

theorem client_hangup_frees_twice_witness:
  "client_event (cl_fd (hd (mx_clients asked))) gone asked = Inl (Undefined ''fdhandler'')"
proof -
  have "hd (mx_clients asked) \<in> set (mx_clients asked)" by code_simp
  moreover have "\<not> cl_registered (hd (mx_clients asked))" "0 < cl_channel (hd (mx_clients asked))"
    "fh_out (cl_out (hd (mx_clients asked))) = []" "ev_in gone \<noteq> None" "ev_hup gone" by code_simp+
  ultimately show ?thesis using client_hangup_frees_twice [OF asked_run, of "hd (mx_clients asked)" gone] by blast
qed

end
