(* ===== verification/Guest_Looper.thy ===== *)
theory Guest_Looper
  imports Anbox_Prelude "HOL-Library.Multiset"
begin

unbundle bit_operations_syntax

text \<open>
  The event loop of the guest's qemud daemon (\<open>src/android/hardware/anbox/qemud/qemud.c\<close>): the table
  of hooks and the set of descriptors the kernel watches. \<open>epoll\<close> keeps for each descriptor that was
  added the mask of events and the pointer it was given, here the index of the hook; adding a
  descriptor it has and changing one it does not have fail. An event handler is identified by a
  number, and what it does to the looper is a list of calls that may depend on a state of its own.
\<close>

section \<open>Hooks\<close>

definition EPOLLIN :: u32 where "EPOLLIN = 1"
definition EPOLLOUT :: u32 where "EPOLLOUT = 4"

record hook =
  hk_fd :: int
  hk_wanted :: u32
  hk_events :: u32
  hk_pending :: bool
  hk_closing :: bool
  hk_user :: nat

record looper =
  lp_max :: nat
  lp_hooks :: "hook list"
  lp_epoll :: "int \<Rightarrow> (u32 \<times> nat) option"

definition epoll_add :: "int \<Rightarrow> u32 \<Rightarrow> nat \<Rightarrow> looper \<Rightarrow> looper" where
  "epoll_add fd events i l =
     (case lp_epoll l fd of None \<Rightarrow> l\<lparr>lp_epoll := (lp_epoll l)(fd \<mapsto> (events, i))\<rparr> | Some _ \<Rightarrow> l)"

definition epoll_mod :: "int \<Rightarrow> u32 \<Rightarrow> nat \<Rightarrow> looper \<Rightarrow> looper" where
  "epoll_mod fd events i l =
     (case lp_epoll l fd of None \<Rightarrow> l | Some _ \<Rightarrow> l\<lparr>lp_epoll := (lp_epoll l)(fd \<mapsto> (events, i))\<rparr>)"

definition epoll_del :: "int \<Rightarrow> looper \<Rightarrow> looper" where
  "epoll_del fd l = l\<lparr>lp_epoll := (lp_epoll l)(fd := None)\<rparr>"

definition looper_init :: looper where
  "looper_init = \<lparr>lp_max = 0, lp_hooks = [], lp_epoll = (\<lambda>_. None)\<rparr>"

fun find_hook :: "int \<Rightarrow> hook list \<Rightarrow> nat option" where
  "find_hook fd [] = None"
| "find_hook fd (h # hs) = (if hk_fd h = fd then Some 0 else map_option Suc (find_hook fd hs))"

definition looper_find :: "int \<Rightarrow> looper \<Rightarrow> nat option" where
  "looper_find fd l = find_hook fd (lp_hooks l)"

fun regrow :: "nat \<Rightarrow> hook list \<Rightarrow> looper \<Rightarrow> looper" where
  "regrow n [] l = l"
| "regrow n (h # hs) l = regrow (Suc n) hs (epoll_mod (hk_fd h) (hk_wanted h) n l)"

definition looper_grow :: "looper \<Rightarrow> looper" where
  "looper_grow l = regrow 0 (lp_hooks l) (l\<lparr>lp_max := lp_max l + lp_max l div 2 + 4\<rparr>)"

definition new_hook :: "int \<Rightarrow> nat \<Rightarrow> hook" where
  "new_hook fd user = \<lparr>hk_fd = fd, hk_wanted = 0, hk_events = 0, hk_pending = False, hk_closing = False, hk_user = user\<rparr>"

definition looper_add :: "int \<Rightarrow> nat \<Rightarrow> looper \<Rightarrow> looper" where
  "looper_add fd user l =
     (let l = (if length (lp_hooks l) \<ge> lp_max l then looper_grow l else l); n = length (lp_hooks l);
          l = l\<lparr>lp_hooks := lp_hooks l @ [new_hook fd user]\<rparr>
      in epoll_add fd 0 n l)"

definition set_hook :: "nat \<Rightarrow> (hook \<Rightarrow> hook) \<Rightarrow> looper \<Rightarrow> looper" where
  "set_hook i g l = l\<lparr>lp_hooks := (lp_hooks l)[i := g (lp_hooks l ! i)]\<rparr>"

definition looper_del :: "int \<Rightarrow> looper \<Rightarrow> looper" where
  "looper_del fd l =
     (case looper_find fd l of
        None \<Rightarrow> l
      | Some i \<Rightarrow> epoll_del fd (set_hook i (\<lambda>h. h\<lparr>hk_closing := True\<rparr>) l))"

definition looper_enable :: "int \<Rightarrow> u32 \<Rightarrow> looper \<Rightarrow> looper" where
  "looper_enable fd events l =
     (case looper_find fd l of
        None \<Rightarrow> l
      | Some i \<Rightarrow>
          (let wanted = hk_wanted (lp_hooks l ! i)
           in if events AND NOT wanted \<noteq> 0
              then epoll_mod fd (wanted OR events) i (set_hook i (\<lambda>h. h\<lparr>hk_wanted := wanted OR events\<rparr>) l)
              else l))"

definition looper_disable :: "int \<Rightarrow> u32 \<Rightarrow> looper \<Rightarrow> looper" where
  "looper_disable fd events l =
     (case looper_find fd l of
        None \<Rightarrow> l
      | Some i \<Rightarrow>
          (let wanted = hk_wanted (lp_hooks l ! i)
           in if events AND wanted \<noteq> 0
              then epoll_mod fd (wanted AND NOT events) i (set_hook i (\<lambda>h. h\<lparr>hk_wanted := wanted AND NOT events\<rparr>) l)
              else l))"

datatype looper_call = Add int nat | Del int | Enable int u32 | Disable int u32

fun run_call :: "looper_call \<Rightarrow> looper \<Rightarrow> looper" where
  "run_call (Add fd user) l = looper_add fd user l"
| "run_call (Del fd) l = looper_del fd l"
| "run_call (Enable fd events) l = looper_enable fd events l"
| "run_call (Disable fd events) l = looper_disable fd events l"

section \<open>What handlers cannot touch\<close>

text \<open>The handler, the events and the mark of a hook stay; hooks are only added, unmarked.\<close>

definition hook_key :: "hook \<Rightarrow> int \<times> nat \<times> u32 \<times> bool" where
  "hook_key h = (hk_fd h, hk_user h, hk_events h, hk_pending h)"

lemma epoll_hooks [simp]:
  "lp_hooks (epoll_add fd events i l) = lp_hooks l" "lp_hooks (epoll_mod fd events i l) = lp_hooks l"
  "lp_hooks (epoll_del fd l) = lp_hooks l" "lp_hooks (regrow n hs l) = lp_hooks l" "lp_hooks (looper_grow l) = lp_hooks l"
proof -
  show m: "lp_hooks (epoll_mod fd events i l) = lp_hooks l" for fd events i l
    by (simp add: epoll_mod_def split: option.split)
  show r: "lp_hooks (regrow n hs l) = lp_hooks l" for n hs l
    by (induction n hs l rule: regrow.induct) (simp_all add: m)
  show "lp_hooks (looper_grow l) = lp_hooks l" by (simp add: looper_grow_def r)
qed (simp_all add: epoll_add_def epoll_del_def split: option.split)

lemma keys_set_hook:
  "(\<And>h. hook_key (g h) = hook_key h) \<Longrightarrow> map hook_key (lp_hooks (set_hook i g l)) = map hook_key (lp_hooks l)"
  by (simp add: set_hook_def map_update) (metis list_update_id map_update)

lemma keys_run_call:
  "\<exists>ks. map hook_key (lp_hooks (run_call c l)) = map hook_key (lp_hooks l) @ ks \<and> (\<forall>k \<in> set ks. \<not> snd (snd (snd k)))"
proof (cases c)
  case (Add fd user)
  then show ?thesis by (simp add: looper_add_def Let_def hook_key_def new_hook_def)
next
  case (Del fd)
  then show ?thesis using keys_set_hook [of "\<lambda>h. h\<lparr>hk_closing := True\<rparr>"]
    by (simp add: looper_del_def hook_key_def split: option.split)
next
  case (Enable fd events)
  then show ?thesis using keys_set_hook [of "\<lambda>h. h\<lparr>hk_wanted := _\<rparr>"]
    by (simp add: looper_enable_def hook_key_def Let_def split: option.split)
next
  case (Disable fd events)
  then show ?thesis using keys_set_hook [of "\<lambda>h. h\<lparr>hk_wanted := _\<rparr>"]
    by (simp add: looper_disable_def hook_key_def Let_def split: option.split)
qed

lemma keys_run_calls:
  "\<exists>ks. map hook_key (lp_hooks (fold run_call cs l)) = map hook_key (lp_hooks l) @ ks \<and> (\<forall>k \<in> set ks. \<not> snd (snd (snd k)))"
proof (induction cs arbitrary: l)
  case (Cons c cs)
  from keys_run_call [of c l] Cons.IH [of "run_call c l"] show ?case by fastforce
qed simp

definition marked :: "looper \<Rightarrow> nat" where
  "marked l = length (filter hk_pending (lp_hooks l))"

lemma marked_keys: "marked l = length (filter (\<lambda>k. snd (snd (snd k))) (map hook_key (lp_hooks l)))"
  by (simp add: marked_def filter_map comp_def hook_key_def)

lemma marked_run_calls [simp]: "marked (fold run_call cs l) = marked l"
proof -
  obtain ks where "map hook_key (lp_hooks (fold run_call cs l)) = map hook_key (lp_hooks l) @ ks"
      "filter (\<lambda>k. snd (snd (snd k))) ks = []"
    using keys_run_calls [of cs l] by (auto simp: filter_empty_conv)
  then show ?thesis unfolding marked_keys by (simp only: filter_append append_Nil2)
qed

lemma marked_clear:
  assumes "n < length (lp_hooks l)" "hk_pending (lp_hooks l ! n)"
  shows "marked (set_hook n (\<lambda>h. h\<lparr>hk_pending := False\<rparr>) l) < marked l"
proof -
  define xs h ys where "xs = take n (lp_hooks l)" and "h = lp_hooks l ! n" and "ys = drop (Suc n) (lp_hooks l)"
  have "lp_hooks l = xs @ h # ys" unfolding xs_def h_def ys_def using assms(1) by (rule id_take_nth_drop)
  moreover have "lp_hooks (set_hook n (\<lambda>h. h\<lparr>hk_pending := False\<rparr>) l) = xs @ h\<lparr>hk_pending := False\<rparr> # ys"
    unfolding xs_def h_def ys_def using assms(1) by (simp add: set_hook_def upd_conv_take_nth_drop)
  moreover have "hk_pending h" using assms(2) by (simp add: h_def)
  ultimately show ?thesis by (simp add: marked_def)
qed

section \<open>Rounds of the loop\<close>

fun mark_hooks :: "(int \<times> u32) list \<Rightarrow> looper \<Rightarrow> looper" where
  "mark_hooks [] l = l"
| "mark_hooks ((fd, events) # es) l =
     (case lp_epoll l fd of
        None \<Rightarrow> mark_hooks es l
      | Some (_, i) \<Rightarrow>
          mark_hooks es (set_hook i (\<lambda>h. h\<lparr>hk_pending := True, hk_closing := False, hk_events := events\<rparr>) l))"

text \<open>The callbacks: each call with the handler and its events, in the order they are made.\<close>

function looper_dispatch ::
    "(nat \<Rightarrow> u32 \<Rightarrow> 's \<Rightarrow> looper_call list \<times> 's) \<Rightarrow> nat \<Rightarrow> looper \<Rightarrow> 's \<Rightarrow> (nat \<times> u32) list \<times> looper \<times> 's" where
  "looper_dispatch cb n l st =
     (if n < length (lp_hooks l) then
        (let h = lp_hooks l ! n
         in if hk_pending h then
              (let l1 = set_hook n (\<lambda>h. h\<lparr>hk_pending := False\<rparr>) l; r = cb (hk_user h) (hk_events h) st;
                   s = looper_dispatch cb (Suc n) (fold run_call (fst r) l1) (snd r)
               in ((hk_user h, hk_events h) # fst s, snd s))
            else looper_dispatch cb (Suc n) l st)
      else ([], l, st))"
  by pat_completeness auto
termination
  by (relation "measures [\<lambda>(cb, n, l, st). marked l, \<lambda>(cb, n, l, st). length (lp_hooks l) - n]")
     (auto simp: marked_clear)

declare looper_dispatch.simps [simp del]

text \<open>
  The removal of closed hooks: the last one takes the place. The slot of the last hook keeps its
  contents, so the descriptor registered anew is the moved hook's, also when it is the removed one.
\<close>

function looper_sweep :: "nat \<Rightarrow> looper \<Rightarrow> looper" where
  "looper_sweep n l =
     (if n < length (lp_hooks l) then
        (if \<not> hk_closing (lp_hooks l ! n) then looper_sweep (Suc n) l
         else
           (let moved = last (lp_hooks l)
            in looper_sweep n
                 (epoll_mod (hk_fd moved) (hk_wanted moved) n
                    (l\<lparr>lp_hooks := butlast ((lp_hooks l)[n := moved])\<rparr>))))
      else l)"
  by pat_completeness auto
termination by (relation "measure (\<lambda>(n, l). length (lp_hooks l) - n)") auto

declare looper_sweep.simps [simp del]

definition looper_round ::
    "(nat \<Rightarrow> u32 \<Rightarrow> 's \<Rightarrow> looper_call list \<times> 's) \<Rightarrow> (int \<times> u32) list \<Rightarrow> looper \<Rightarrow> 's \<Rightarrow>
     (nat \<times> u32) list \<times> looper \<times> 's" where
  "looper_round cb reported l st =
     (case looper_dispatch cb 0 (mark_hooks reported l) st of (calls, l, st) \<Rightarrow> (calls, looper_sweep 0 l, st))"

text \<open>The loop: what each \<open>epoll_wait\<close> reported, \<open>None\<close> for an error, which ends it.\<close>

fun looper_loop ::
    "(nat \<Rightarrow> u32 \<Rightarrow> 's \<Rightarrow> looper_call list \<times> 's) \<Rightarrow> (int \<times> u32) list option list \<Rightarrow> looper \<Rightarrow> 's \<Rightarrow>
     (nat \<times> u32) list \<times> looper \<times> 's" where
  "looper_loop cb [] l st = ([], l, st)"
| "looper_loop cb (None # as) l st = ([], l, st)"
| "looper_loop cb (Some reported # as) l st =
     (if reported = [] then looper_loop cb as l st
      else (case looper_round cb reported l st of
              (calls, l, st) \<Rightarrow> (case looper_loop cb as l st of (calls', r) \<Rightarrow> (calls @ calls', r))))"

section \<open>Which handlers are called\<close>

definition calls_of :: "(int \<times> nat \<times> u32 \<times> bool) list \<Rightarrow> (nat \<times> u32) list" where
  "calls_of ks = map (\<lambda>(fd, user, events, _). (user, events)) (filter (\<lambda>k. snd (snd (snd k))) ks)"

lemma calls_of_hooks: "calls_of (map hook_key hs) = map (\<lambda>h. (hk_user h, hk_events h)) (filter hk_pending hs)"
  by (induction hs) (simp_all add: calls_of_def hook_key_def)

lemma calls_of_Cons:
  "calls_of (hook_key h # ks) = (if hk_pending h then [(hk_user h, hk_events h)] else []) @ calls_of ks"
  by (simp add: calls_of_def hook_key_def)

lemma calls_of_append: "\<forall>k \<in> set ks'. \<not> snd (snd (snd k)) \<Longrightarrow> calls_of (ks @ ks') = calls_of ks"
  by (simp add: calls_of_def filter_empty_conv)

lemma dispatch_calls:
  "fst (looper_dispatch cb n l st) = calls_of (drop n (map hook_key (lp_hooks l)))"
proof (induction cb n l st rule: looper_dispatch.induct)
  case (1 cb n l st)
  let ?ks = "map hook_key (lp_hooks l)"
  show ?case
  proof (cases "n < length (lp_hooks l)")
    case n: True
    define h where "h = lp_hooks l ! n"
    have d: "drop n ?ks = hook_key h # drop (Suc n) ?ks" using n by (simp add: h_def flip: Cons_nth_drop_Suc)
    show ?thesis
    proof (cases "hk_pending h")
      case False
      then have "looper_dispatch cb n l st = looper_dispatch cb (Suc n) l st"
        using n by (subst looper_dispatch.simps) (simp add: h_def)
      with "1.IH"(2) [OF n h_def False] False show ?thesis unfolding d by (simp add: calls_of_Cons)
    next
      case True
      define l1 r where "l1 = set_hook n (\<lambda>h. h\<lparr>hk_pending := False\<rparr>) l" and "r = cb (hk_user h) (hk_events h) st"
      have a: "fst (looper_dispatch cb n l st) =
          (hk_user h, hk_events h) # fst (looper_dispatch cb (Suc n) (fold run_call (fst r) l1) (snd r))"
        using n True by (subst looper_dispatch.simps) (simp add: h_def l1_def r_def Let_def)
      obtain ks where ks: "map hook_key (lp_hooks (fold run_call (fst r) l1)) = map hook_key (lp_hooks l1) @ ks"
          "\<forall>k \<in> set ks. \<not> snd (snd (snd k))"
        using keys_run_calls by blast
      have "Suc n \<le> length (lp_hooks l1)" "drop (Suc n) (map hook_key (lp_hooks l1)) = drop (Suc n) ?ks"
        using n by (simp_all add: l1_def set_hook_def map_update)
      then have "drop (Suc n) (map hook_key (lp_hooks (fold run_call (fst r) l1))) = drop (Suc n) ?ks @ ks"
        unfolding ks(1) by simp
      with "1.IH"(1) [OF n h_def True l1_def r_def] calls_of_append [OF ks(2)] have
        "fst (looper_dispatch cb (Suc n) (fold run_call (fst r) l1) (snd r)) = calls_of (drop (Suc n) ?ks)" by simp
      with a True show ?thesis unfolding d by (simp add: calls_of_Cons)
    qed
  next
    case False
    then show ?thesis by (subst looper_dispatch.simps) (simp add: calls_of_def)
  qed
qed

section \<open>The table and what the kernel watches\<close>

definition exact_table :: "hook list \<Rightarrow> int \<Rightarrow> (u32 \<times> nat) option" where
  "exact_table hs fd =
     (case find_hook fd hs of
        None \<Rightarrow> None
      | Some i \<Rightarrow> if hk_closing (hs ! i) then None else Some (hk_wanted (hs ! i), i))"

definition table_ok :: "looper \<Rightarrow> bool" where
  "table_ok l \<longleftrightarrow> distinct (map hk_fd (lp_hooks l)) \<and> lp_epoll l = exact_table (lp_hooks l)"

lemma find_hook_None: "find_hook fd hs = None \<longleftrightarrow> fd \<notin> hk_fd ` set hs"
  by (induction hs) auto

lemma find_hook_Some: "find_hook fd hs = Some i \<Longrightarrow> i < length hs \<and> hk_fd (hs ! i) = fd"
  by (induction hs arbitrary: i) (auto split: if_splits)

lemma find_hook_nth:
  assumes "distinct (map hk_fd hs)" "i < length hs"
  shows "find_hook (hk_fd (hs ! i)) hs = Some i"
proof -
  have "find_hook (hk_fd (hs ! i)) hs \<noteq> None" using assms(2) by (simp add: find_hook_None)
  then obtain j where j: "find_hook (hk_fd (hs ! i)) hs = Some j" by blast
  have "j = i" using find_hook_Some [OF j] assms by (metis distinct_conv_nth length_map nth_map)
  with j show ?thesis by simp
qed

lemma exact_table_Some:
  "distinct (map hk_fd hs) \<Longrightarrow>
     exact_table hs fd = Some (w, i) \<longleftrightarrow> i < length hs \<and> hk_fd (hs ! i) = fd \<and> \<not> hk_closing (hs ! i) \<and> hk_wanted (hs ! i) = w"
  using find_hook_Some [of fd hs] find_hook_nth [of hs i]
  by (auto simp: exact_table_def split: option.splits)

lemma exact_tableI:
  assumes "distinct (map hk_fd hs)"
    and "\<And>fd w i. t fd = Some (w, i) \<longleftrightarrow> i < length hs \<and> hk_fd (hs ! i) = fd \<and> \<not> hk_closing (hs ! i) \<and> hk_wanted (hs ! i) = w"
  shows "t = exact_table hs"
proof
  fix fd
  show "t fd = exact_table hs fd"
    using assms(2) [of fd] exact_table_Some [OF assms(1), of fd] by (metis option.exhaust prod.exhaust)
qed

lemma table_ok_epoll:
  "table_ok l \<Longrightarrow> lp_epoll l fd = Some (w, i) \<longleftrightarrow>
     i < length (lp_hooks l) \<and> hk_fd (lp_hooks l ! i) = fd \<and> \<not> hk_closing (lp_hooks l ! i) \<and> hk_wanted (lp_hooks l ! i) = w"
  by (simp add: table_ok_def exact_table_Some)

lemma table_okI:
  "distinct (map hk_fd (lp_hooks l)) \<Longrightarrow>
   (\<And>fd w i. lp_epoll l fd = Some (w, i) \<longleftrightarrow>
     i < length (lp_hooks l) \<and> hk_fd (lp_hooks l ! i) = fd \<and> \<not> hk_closing (lp_hooks l ! i) \<and> hk_wanted (lp_hooks l ! i) = w) \<Longrightarrow>
   table_ok l"
  by (simp add: table_ok_def exact_tableI)

lemma table_ok_init: "table_ok looper_init"
  by (rule table_okI) (simp_all add: looper_init_def)

lemma epoll_mod_same: "lp_epoll l fd = None \<or> lp_epoll l fd = Some (w, i) \<Longrightarrow> epoll_mod fd w i l = l"
  by (auto simp: epoll_mod_def fun_upd_idem)

lemma table_hook:
  assumes "table_ok l" "i < length (lp_hooks l)"
  defines "h \<equiv> lp_hooks l ! i"
  shows "lp_epoll l (hk_fd h) = (if hk_closing h then None else Some (hk_wanted h, i))"
  using assms(1,2) find_hook_nth [of "lp_hooks l" i] by (simp add: table_ok_def exact_table_def h_def)

lemma regrow_same: "table_ok l \<Longrightarrow> hs = drop n (lp_hooks l) \<Longrightarrow> regrow n hs l = l"
proof (induction n hs l rule: regrow.induct)
  case (2 n h hs l)
  from 2(3) have n: "n < length (lp_hooks l)" "h = lp_hooks l ! n" "hs = drop (Suc n) (lp_hooks l)"
    by (metis drop_eq_Nil2 list.distinct(1) not_le, metis nth_via_drop, metis drop_Suc list.sel(3) tl_drop)
  have "epoll_mod (hk_fd h) (hk_wanted h) n l = l"
    using table_hook [OF 2(2) n(1)] n(2) by (intro epoll_mod_same) (simp split: if_splits)
  with "2.IH" "2.prems"(1) n(3) show ?case by (simp only: regrow.simps)
qed simp

lemma looper_grow_epoll:
  assumes "table_ok l"
  shows "lp_epoll (looper_grow l) = lp_epoll l"
proof -
  have "table_ok (l\<lparr>lp_max := lp_max l + lp_max l div 2 + 4\<rparr>)" using assms by (simp add: table_ok_def)
  from regrow_same [OF this, of "lp_hooks l" 0] show ?thesis by (simp add: looper_grow_def)
qed

lemma table_ok_cong: "lp_hooks l' = lp_hooks l \<Longrightarrow> lp_epoll l' = lp_epoll l \<Longrightarrow> table_ok l' = table_ok l"
  by (simp add: table_ok_def)

lemma table_ok_add:
  assumes "table_ok l" "fd \<notin> hk_fd ` set (lp_hooks l)"
  shows "table_ok (looper_add fd user l)"
proof -
  define l1 where "l1 = (if length (lp_hooks l) \<ge> lp_max l then looper_grow l else l)"
  have l1: "lp_hooks l1 = lp_hooks l" "lp_epoll l1 = lp_epoll l"
    using looper_grow_epoll [OF assms(1)] by (simp_all add: l1_def)
  let ?h = "new_hook fd user"
  have none: "lp_epoll l fd = None"
    using assms by (simp add: table_ok_def exact_table_def find_hook_None [THEN iffD2])
  have hooks: "lp_hooks (looper_add fd user l) = lp_hooks l @ [?h]"
    using l1 by (simp add: looper_add_def Let_def l1_def [symmetric])
  have ep: "lp_epoll (looper_add fd user l) = (lp_epoll l)(fd \<mapsto> (0, length (lp_hooks l)))"
    using l1 none by (simp add: looper_add_def Let_def epoll_add_def l1_def [symmetric])
  show ?thesis
  proof (rule table_okI)
    show "distinct (map hk_fd (lp_hooks (looper_add fd user l)))"
      using assms by (simp add: hooks table_ok_def new_hook_def)
    fix fd' w i
    have out: "hk_fd (lp_hooks l ! i) \<noteq> fd" if "i < length (lp_hooks l)" using assms(2) that by (metis image_eqI nth_mem)
    show "lp_epoll (looper_add fd user l) fd' = Some (w, i) \<longleftrightarrow>
       i < length (lp_hooks (looper_add fd user l)) \<and> hk_fd (lp_hooks (looper_add fd user l) ! i) = fd' \<and>
       \<not> hk_closing (lp_hooks (looper_add fd user l) ! i) \<and> hk_wanted (lp_hooks (looper_add fd user l) ! i) = w"
      using table_ok_epoll [OF assms(1), of fd' w i] none out
      by (auto simp: hooks ep nth_append new_hook_def less_Suc_eq)
  qed
qed

lemma fds_set_hook: "(\<And>h. hk_fd (g h) = hk_fd h) \<Longrightarrow> map hk_fd (lp_hooks (set_hook i g l)) = map hk_fd (lp_hooks l)"
  by (simp add: set_hook_def map_update) (metis list_update_id map_update)

lemma table_ok_set_hook:
  assumes "table_ok l" "i < length (lp_hooks l)" and g: "\<And>h. hk_fd (g h) = hk_fd h"
    and "lp_hooks l' = lp_hooks (set_hook i g l)"
    and "lp_epoll l' = (lp_epoll l)(hk_fd (lp_hooks l ! i) :=
      (if hk_closing (g (lp_hooks l ! i)) then None else Some (hk_wanted (g (lp_hooks l ! i)), i)))"
  shows "table_ok l'"
proof (rule table_okI)
  show d: "distinct (map hk_fd (lp_hooks l'))"
    using assms(1) fds_set_hook [of g i l, OF g] assms(4) by (simp add: table_ok_def)
  fix fd w j
  have nth: "lp_hooks l' ! j = (if j = i then g (lp_hooks l ! i) else lp_hooks l ! j)" if "j < length (lp_hooks l)"
    using that assms(4) by (simp add: set_hook_def nth_list_update)
  have len: "length (lp_hooks l') = length (lp_hooks l)" using assms(4) by (simp add: set_hook_def)
  have neq: "hk_fd (lp_hooks l ! j) \<noteq> hk_fd (lp_hooks l ! i)" if "j < length (lp_hooks l)" "j \<noteq> i"
    using assms(1,2) that nth_eq_iff_index_eq [of "map hk_fd (lp_hooks l)" j i] by (simp add: table_ok_def)
  show "lp_epoll l' fd = Some (w, j) \<longleftrightarrow> j < length (lp_hooks l') \<and> hk_fd (lp_hooks l' ! j) = fd \<and>
      \<not> hk_closing (lp_hooks l' ! j) \<and> hk_wanted (lp_hooks l' ! j) = w"
    using table_ok_epoll [OF assms(1), of fd w j] neq nth len assms(2) g
    by (cases "j = i"; cases "fd = hk_fd (lp_hooks l ! i)") (auto simp: assms(5))
qed

lemma table_ok_del:
  assumes "table_ok l"
  shows "table_ok (looper_del fd l)"
proof (cases "looper_find fd l")
  case (Some i)
  then have i: "i < length (lp_hooks l)" "hk_fd (lp_hooks l ! i) = fd" using find_hook_Some by (auto simp: looper_find_def)
  show ?thesis
    by (rule table_ok_set_hook [OF assms i(1), of "\<lambda>h. h\<lparr>hk_closing := True\<rparr>"])
      (simp_all add: Some looper_del_def epoll_del_def i(2) set_hook_def)
qed (simp add: looper_del_def assms)

lemma table_ok_wanted:
  assumes "table_ok l" "looper_find fd l = Some i"
  shows "table_ok (epoll_mod fd w i (set_hook i (\<lambda>h. h\<lparr>hk_wanted := w\<rparr>) l))"
proof -
  have i: "i < length (lp_hooks l)" "hk_fd (lp_hooks l ! i) = fd"
    using find_hook_Some assms(2) by (auto simp: looper_find_def)
  from table_hook [OF assms(1) i(1)] show ?thesis
    by (intro table_ok_set_hook [OF assms(1) i(1), of "\<lambda>h. h\<lparr>hk_wanted := w\<rparr>"])
      (auto simp: epoll_mod_def i(2) set_hook_def split: if_splits)
qed

lemma table_ok_enable: "table_ok l \<Longrightarrow> table_ok (looper_enable fd events l)"
  by (simp add: looper_enable_def Let_def table_ok_wanted split: option.split)

lemma table_ok_disable: "table_ok l \<Longrightarrow> table_ok (looper_disable fd events l)"
  by (simp add: looper_disable_def Let_def table_ok_wanted split: option.split)

lemma table_ok_mark: "table_ok l \<Longrightarrow> table_ok (mark_hooks reported l)"
proof (induction reported l rule: mark_hooks.induct)
  case (2 fd events es l)
  show ?case
  proof (cases "lp_epoll l fd")
    case (Some p)
    then obtain w i where p: "lp_epoll l fd = Some (w, i)" by (cases p) auto
    let ?g = "\<lambda>h. h\<lparr>hk_pending := True, hk_closing := False, hk_events := events\<rparr>"
    have "table_ok (set_hook i ?g l)"
      using table_ok_epoll [OF 2(3), of fd w i] p
      by (intro table_ok_set_hook [OF 2(3), of i ?g]) (auto simp: set_hook_def)
    with 2 p show ?thesis by simp
  qed (use 2 in simp)
qed simp

text \<open>No call registers a descriptor that still has a hook, be it one that was deleted.\<close>

fun fresh_calls :: "looper_call list \<Rightarrow> looper \<Rightarrow> bool" where
  "fresh_calls [] l = True"
| "fresh_calls (c # cs) l =
     ((case c of Add fd user \<Rightarrow> fd \<notin> hk_fd ` set (lp_hooks l) | _ \<Rightarrow> True) \<and> fresh_calls cs (run_call c l))"

lemma table_ok_calls: "table_ok l \<Longrightarrow> fresh_calls cs l \<Longrightarrow> table_ok (fold run_call cs l)"
proof (induction cs arbitrary: l)
  case (Cons c cs)
  have "table_ok (run_call c l)"
    using Cons.prems by (cases c) (simp_all add: table_ok_add table_ok_del table_ok_enable table_ok_disable)
  with Cons show ?case by simp
qed simp

function dispatch_fresh ::
    "(nat \<Rightarrow> u32 \<Rightarrow> 's \<Rightarrow> looper_call list \<times> 's) \<Rightarrow> nat \<Rightarrow> looper \<Rightarrow> 's \<Rightarrow> bool" where
  "dispatch_fresh cb n l st =
     (if n < length (lp_hooks l) then
        (let h = lp_hooks l ! n
         in if hk_pending h then
              (let l1 = set_hook n (\<lambda>h. h\<lparr>hk_pending := False\<rparr>) l; r = cb (hk_user h) (hk_events h) st
               in fresh_calls (fst r) l1 \<and> dispatch_fresh cb (Suc n) (fold run_call (fst r) l1) (snd r))
            else dispatch_fresh cb (Suc n) l st)
      else True)"
  by pat_completeness auto
termination
  by (relation "measures [\<lambda>(cb, n, l, st). marked l, \<lambda>(cb, n, l, st). length (lp_hooks l) - n]")
     (auto simp: marked_clear)

declare dispatch_fresh.simps [simp del]

lemma table_ok_clear:
  assumes "table_ok l" "n < length (lp_hooks l)"
  shows "table_ok (set_hook n (\<lambda>h. h\<lparr>hk_pending := False\<rparr>) l)"
proof (rule table_ok_set_hook [OF assms, of "\<lambda>h. h\<lparr>hk_pending := False\<rparr>"])
  let ?h = "lp_hooks l ! n"
  from fun_upd_idem [where f = "lp_epoll l" and x = "hk_fd ?h", OF table_hook [OF assms]]
  show "lp_epoll (set_hook n (\<lambda>h. h\<lparr>hk_pending := False\<rparr>) l) = (lp_epoll l)(hk_fd ?h :=
      (if hk_closing (?h\<lparr>hk_pending := False\<rparr>) then None else Some (hk_wanted (?h\<lparr>hk_pending := False\<rparr>), n)))"
    by (simp add: set_hook_def split: if_splits)
qed simp_all

lemma table_ok_dispatch:
  "table_ok l \<Longrightarrow> dispatch_fresh cb n l st \<Longrightarrow> table_ok (fst (snd (looper_dispatch cb n l st)))"
proof (induction cb n l st rule: looper_dispatch.induct)
  case (1 cb n l st)
  show ?case
  proof (cases "n < length (lp_hooks l)")
    case n: True
    define h where "h = lp_hooks l ! n"
    show ?thesis
    proof (cases "hk_pending h")
      case False
      then have "looper_dispatch cb n l st = looper_dispatch cb (Suc n) l st"
        using n by (subst looper_dispatch.simps) (simp add: h_def)
      moreover have "dispatch_fresh cb (Suc n) l st"
        using n False "1.prems"(2) by (subst (asm) dispatch_fresh.simps) (simp add: h_def)
      ultimately show ?thesis
        using "1.IH"(2) [OF n h_def False "1.prems"(1)] by simp
    next
      case True
      define l1 r where "l1 = set_hook n (\<lambda>h. h\<lparr>hk_pending := False\<rparr>) l" and "r = cb (hk_user h) (hk_events h) st"
      have f: "fresh_calls (fst r) l1" "dispatch_fresh cb (Suc n) (fold run_call (fst r) l1) (snd r)"
        using "1.prems"(2) n True
        by (subst (asm) dispatch_fresh.simps, simp add: h_def l1_def r_def Let_def)+
      have "table_ok (fold run_call (fst r) l1)"
        using table_ok_calls [OF _ f(1)] table_ok_clear [OF "1.prems"(1) n] by (simp add: l1_def)
      moreover have "fst (snd (looper_dispatch cb n l st)) =
          fst (snd (looper_dispatch cb (Suc n) (fold run_call (fst r) l1) (snd r)))"
        using n True by (subst looper_dispatch.simps) (simp add: h_def l1_def r_def Let_def)
      ultimately show ?thesis using "1.IH"(1) [OF n h_def True l1_def r_def] f(2) by simp
    qed
  next
    case False
    then show ?thesis using "1.prems"(1) by (subst looper_dispatch.simps) simp
  qed
qed

section \<open>The sweep\<close>

lemma sweep_step_hooks:
  assumes "n < length hs"
  shows "length (butlast (hs[n := last hs])) = length hs - 1"
    and "i < length hs - 1 \<Longrightarrow> butlast (hs[n := last hs]) ! i = (if i = n then last hs else hs ! i)"
    and "mset hs = add_mset (hs ! n) (mset (butlast (hs[n := last hs])))"
proof -
  show "length (butlast (hs[n := last hs])) = length hs - 1" by simp
  show "i < length hs - 1 \<Longrightarrow> butlast (hs[n := last hs]) ! i = (if i = n then last hs else hs ! i)"
    using assms by (simp add: nth_butlast nth_list_update)
  obtain ys z where hs: "hs = ys @ [z]" using assms by (cases hs rule: rev_cases) auto
  show "mset hs = add_mset (hs ! n) (mset (butlast (hs[n := last hs])))"
  proof (cases "n = length ys")
    case False
    then have n: "n < length ys" using assms hs by simp
    with hs have "butlast (hs[n := last hs]) = ys[n := z]" by (simp add: list_update_append)
    moreover have "mset ys = add_mset (ys ! n) (mset ys - {#ys ! n#})" using n by simp
    ultimately show ?thesis using n hs by (simp add: mset_update nth_append)
  qed (simp add: hs)
qed

lemma table_ok_sweep_step:
  assumes "table_ok l" "n < length (lp_hooks l)" "hk_closing (lp_hooks l ! n)"
  defines "moved \<equiv> last (lp_hooks l)"
  shows "table_ok (epoll_mod (hk_fd moved) (hk_wanted moved) n (l\<lparr>lp_hooks := butlast ((lp_hooks l)[n := moved])\<rparr>))"
    (is "table_ok ?l")
proof (rule table_okI)
  let ?hs = "lp_hooks l"
  let ?k = "length ?hs - 1"
  have hooks: "lp_hooks ?l = butlast (?hs[n := moved])" by simp
  have len: "length (lp_hooks ?l) = ?k" using sweep_step_hooks(1) [OF assms(2)] by (simp add: moved_def)
  have nth: "lp_hooks ?l ! i = (if i = n then moved else ?hs ! i)" if "i < ?k" for i
    using sweep_step_hooks(2) [OF assms(2) that] by (simp add: moved_def)
  have m: "moved = ?hs ! ?k" using assms(2) by (simp add: moved_def last_conv_nth flip: length_greater_0_conv)
  have "mset (map hk_fd ?hs) = add_mset (hk_fd (?hs ! n)) (mset (map hk_fd (lp_hooks ?l)))"
    using sweep_step_hooks(3) [OF assms(2)] by (simp add: moved_def)
  moreover have "distinct (map hk_fd ?hs)" using assms(1) by (simp add: table_ok_def)
  ultimately show d: "distinct (map hk_fd (lp_hooks ?l))"
    using mset_eq_imp_distinct_iff [of "map hk_fd ?hs" "hk_fd (?hs ! n) # map hk_fd (lp_hooks ?l)"] by simp
  have ep: "lp_epoll ?l = (if hk_closing moved then lp_epoll l else (lp_epoll l)(hk_fd moved \<mapsto> (hk_wanted moved, n)))"
    using table_hook [OF assms(1), of ?k] assms(2) m by (auto simp: epoll_mod_def)
  have fd: "hk_fd (?hs ! i) = hk_fd (?hs ! j) \<longleftrightarrow> i = j" if "i < length ?hs" "j < length ?hs" for i j
    using assms(1) that nth_eq_iff_index_eq [of "map hk_fd ?hs" i j] by (simp add: table_ok_def)
  fix fd w i
  show "lp_epoll ?l fd = Some (w, i) \<longleftrightarrow> i < length (lp_hooks ?l) \<and> hk_fd (lp_hooks ?l ! i) = fd \<and>
      \<not> hk_closing (lp_hooks ?l ! i) \<and> hk_wanted (lp_hooks ?l ! i) = w"
  proof (cases "hk_closing moved")
    case True
    then show ?thesis using table_ok_epoll [OF assms(1), of fd w i] nth [of i] len assms(3) m ep
      by (cases "i = n"; cases "i = ?k") auto
  next
    case False
    then have n: "n < ?k" using assms(2,3) m by (cases "n = ?k") auto
    show ?thesis
    proof (cases "fd = hk_fd moved")
      case True
      have "hk_fd (?hs ! i) \<noteq> fd" if "i < ?k" using fd [of i ?k] that True m by simp
      with True False n nth [of i] show ?thesis unfolding len ep by (cases "i = n") auto
    next
      case other: False
      have "lp_epoll ?l fd = lp_epoll l fd" using False other by (simp add: ep)
      moreover have "i \<noteq> ?k" if "hk_fd (?hs ! i) = fd" using that other m by auto
      ultimately show ?thesis
        using table_ok_epoll [OF assms(1), of fd w i] nth [of i] len n assms(3) other by (cases "i = n") auto
    qed
  qed
qed

lemma sweep_ok:
  "table_ok l \<Longrightarrow> \<forall>i < n. i < length (lp_hooks l) \<longrightarrow> \<not> hk_closing (lp_hooks l ! i) \<Longrightarrow>
     table_ok (looper_sweep n l) \<and>
     mset (lp_hooks (looper_sweep n l)) = mset (filter (\<lambda>h. \<not> hk_closing h) (lp_hooks l))"
proof (induction n l rule: looper_sweep.induct)
  case (1 n l)
  show ?case
  proof (cases "n < length (lp_hooks l)")
    case n: True
    show ?thesis
    proof (cases "hk_closing (lp_hooks l ! n)")
      case False
      then have "looper_sweep n l = looper_sweep (Suc n) l" using n by (subst looper_sweep.simps) simp
      moreover have "\<forall>i < Suc n. i < length (lp_hooks l) \<longrightarrow> \<not> hk_closing (lp_hooks l ! i)"
        using "1.prems"(2) False by (simp add: less_Suc_eq)
      ultimately show ?thesis using "1.IH"(1) [OF n False "1.prems"(1)] by simp
    next
      case True
      define moved where "moved = last (lp_hooks l)"
      define l1 where "l1 = epoll_mod (hk_fd moved) (hk_wanted moved) n (l\<lparr>lp_hooks := butlast ((lp_hooks l)[n := moved])\<rparr>)"
      have l1: "table_ok l1" unfolding l1_def moved_def by (rule table_ok_sweep_step [OF "1.prems"(1) n True])
      have hooks: "lp_hooks l1 = butlast ((lp_hooks l)[n := last (lp_hooks l)])" by (simp add: l1_def moved_def)
      have "\<forall>i < n. i < length (lp_hooks l1) \<longrightarrow> \<not> hk_closing (lp_hooks l1 ! i)"
        using "1.prems"(2) sweep_step_hooks(2) [OF n] by (auto simp: hooks)
      moreover have "looper_sweep n l = looper_sweep n l1"
        using n True by (subst looper_sweep.simps) (simp add: l1_def moved_def Let_def)
      moreover have "mset (filter (\<lambda>h. \<not> hk_closing h) (lp_hooks l)) = mset (filter (\<lambda>h. \<not> hk_closing h) (lp_hooks l1))"
        using sweep_step_hooks(3) [OF n] True by (simp add: hooks)
      ultimately show ?thesis
        using "1.IH"(2) [of moved] n True l1 by (simp add: moved_def l1_def)
    qed
  next
    case False
    then have "looper_sweep n l = l" by (subst looper_sweep.simps) simp
    moreover have "filter (\<lambda>h. \<not> hk_closing h) (lp_hooks l) = lp_hooks l"
      using False "1.prems"(2) by (auto simp: filter_id_conv in_set_conv_nth)
    ultimately show ?thesis using "1.prems"(1) by simp
  qed
qed

text \<open>Rounds in which no handler registers a descriptor that still has a hook.\<close>

fun loop_fresh ::
    "(nat \<Rightarrow> u32 \<Rightarrow> 's \<Rightarrow> looper_call list \<times> 's) \<Rightarrow> (int \<times> u32) list option list \<Rightarrow> looper \<Rightarrow> 's \<Rightarrow> bool" where
  "loop_fresh cb (Some reported # as) l st =
     (if reported = [] then loop_fresh cb as l st
      else dispatch_fresh cb 0 (mark_hooks reported l) st \<and>
        (case looper_round cb reported l st of (calls, l, st) \<Rightarrow> loop_fresh cb as l st))"
| "loop_fresh cb as l st = True"

lemma round_ok:
  assumes "table_ok l" "dispatch_fresh cb 0 (mark_hooks reported l) st" "looper_round cb reported l st = (calls, l', st')"
  shows "table_ok l' \<and> (\<forall>h \<in> set (lp_hooks l'). \<not> hk_closing h)"
proof -
  define l1 where "l1 = fst (snd (looper_dispatch cb 0 (mark_hooks reported l) st))"
  have "table_ok l1" unfolding l1_def by (rule table_ok_dispatch [OF table_ok_mark [OF assms(1)] assms(2)])
  moreover have "l' = looper_sweep 0 l1" using assms(3) by (simp add: looper_round_def l1_def split: prod.splits)
  ultimately have "table_ok l'" "mset (lp_hooks l') = mset (filter (\<lambda>h. \<not> hk_closing h) (lp_hooks l1))"
    using sweep_ok [of l1 0] by simp_all
  then show ?thesis using mset_eq_setD by fastforce
qed

lemma loop_ok:
  "table_ok l \<Longrightarrow> \<forall>h \<in> set (lp_hooks l). \<not> hk_closing h \<Longrightarrow> loop_fresh cb as l st \<Longrightarrow> looper_loop cb as l st = (calls, l', st') \<Longrightarrow>
     table_ok l' \<and> (\<forall>h \<in> set (lp_hooks l'). \<not> hk_closing h)"
proof (induction cb as l st arbitrary: calls rule: looper_loop.induct)
  case (3 cb reported as l st)
  show ?case
  proof (cases "reported = []")
    case True
    with 3 show ?thesis by simp
  next
    case False
    obtain cs l1 st1 where r: "looper_round cb reported l st = (cs, l1, st1)" by (rule prod_cases3)
    obtain cs2 where r2: "looper_loop cb as l1 st1 = (cs2, l', st')"
      using "3.prems"(4) False r by (auto split: prod.splits)
    have f: "dispatch_fresh cb 0 (mark_hooks reported l) st" "loop_fresh cb as l1 st1" using "3.prems"(3) False r by simp_all
    from "3.IH"(2) [OF False r [symmetric] refl _ _ f(2) r2] round_ok [OF "3.prems"(1) f(1) r] show ?thesis by blast
  qed
qed simp_all

lemma open_hooks_call:
  assumes "\<forall>h \<in> set (lp_hooks l). \<not> hk_closing h" "\<forall>fd. c \<noteq> Del fd"
  shows "\<forall>h \<in> set (lp_hooks (run_call c l)). \<not> hk_closing h"
proof -
  have w: "\<forall>h \<in> set (lp_hooks (set_hook i (\<lambda>h. h\<lparr>hk_wanted := w\<rparr>) l)). \<not> hk_closing h" if "looper_find fd l = Some i" for i w fd
  proof -
    have "i < length (lp_hooks l)" using find_hook_Some that by (auto simp: looper_find_def)
    then have "\<not> hk_closing (lp_hooks l ! i)" using assms(1) by simp
    then show ?thesis using assms(1) set_update_subset_insert [of "lp_hooks l" i] by (fastforce simp: set_hook_def)
  qed
  show ?thesis
  proof (cases c)
    case (Add fd user)
    then show ?thesis using assms(1) by (simp add: looper_add_def Let_def new_hook_def)
  next
    case (Enable fd events)
    then show ?thesis using assms(1) w [of fd] by (simp add: looper_enable_def Let_def split: option.split)
  next
    case (Disable fd events)
    then show ?thesis using assms(1) w [of fd] by (simp add: looper_disable_def Let_def split: option.split)
  qed (use assms(2) in simp)
qed

lemma open_hooks_calls:
  "\<forall>h \<in> set (lp_hooks l). \<not> hk_closing h \<Longrightarrow> \<forall>c \<in> set cs. \<forall>fd. c \<noteq> Del fd \<Longrightarrow>
     \<forall>h \<in> set (lp_hooks (fold run_call cs l)). \<not> hk_closing h"
proof (induction cs arbitrary: l)
  case (Cons c cs)
  have "\<forall>h \<in> set (lp_hooks (run_call c l)). \<not> hk_closing h"
    by (rule open_hooks_call [OF Cons.prems(1)]) (use Cons.prems(2) in simp)
  from Cons.IH [OF this] Cons.prems(2) show ?case by simp
qed simp


section \<open>Handlers deleted and descriptors reused during a round\<close>

definition mark :: "(int \<times> u32) list \<Rightarrow> hook \<Rightarrow> hook" where
  "mark es h = (case map_of es (hk_fd h) of
     None \<Rightarrow> h | Some e \<Rightarrow> h\<lparr>hk_pending := True, hk_closing := False, hk_events := e\<rparr>)"

lemma mark_hooks_map:
  "table_ok l \<Longrightarrow> \<forall>h \<in> set (lp_hooks l). \<not> hk_closing h \<Longrightarrow> distinct (map fst es) \<Longrightarrow>
     lp_hooks (mark_hooks es l) = map (mark es) (lp_hooks l)"
proof (induction es l rule: mark_hooks.induct)
  case (1 l)
  then show ?case by (simp add: mark_def)
next
  case (2 fd e es l)
  show ?case
  proof (cases "lp_epoll l fd")
    case None
    have "hk_fd h \<noteq> fd" if h: "h \<in> set (lp_hooks l)" for h
    proof -
      obtain j where "j < length (lp_hooks l)" "h = lp_hooks l ! j" using h by (metis in_set_conv_nth)
      with table_hook [OF "2.prems"(1), of j] "2.prems"(2) h None show ?thesis by auto
    qed
    then have "map (mark es) (lp_hooks l) = map (mark ((fd, e) # es)) (lp_hooks l)" by (auto simp: mark_def)
    with None 2 show ?thesis by simp
  next
    case (Some p)
    then obtain w i where p: "lp_epoll l fd = Some (w, i)" by (cases p) auto
    let ?g = "\<lambda>h. h\<lparr>hk_pending := True, hk_closing := False, hk_events := e\<rparr>"
    have i: "i < length (lp_hooks l)" "hk_fd (lp_hooks l ! i) = fd" "\<not> hk_closing (lp_hooks l ! i)"
      using table_ok_epoll [OF "2.prems"(1), of fd w i] p by simp_all
    have ok: "table_ok (set_hook i ?g l)"
      using table_ok_epoll [OF "2.prems"(1), of fd w i] p
      by (intro table_ok_set_hook [OF "2.prems"(1), of i ?g]) (auto simp: set_hook_def)
    have "\<forall>h \<in> set (lp_hooks (set_hook i ?g l)). \<not> hk_closing h"
      using "2.prems"(2) set_update_subset_insert [of "lp_hooks l" i] by (fastforce simp: set_hook_def)
    with 2 p ok have "lp_hooks (mark_hooks ((fd, e) # es) l) = map (mark es) (lp_hooks (set_hook i ?g l))" by simp
    also have "\<dots> = map (mark ((fd, e) # es)) (lp_hooks l)"
    proof (rule nth_equalityI)
      fix j
      assume "j < length (map (mark es) (lp_hooks (set_hook i ?g l)))"
      then have j: "j < length (lp_hooks l)" by (simp add: set_hook_def)
      have "hk_fd (lp_hooks l ! j) = fd \<longleftrightarrow> j = i"
        using "2.prems"(1) i j nth_eq_iff_index_eq [of "map hk_fd (lp_hooks l)" j i] by (auto simp: table_ok_def)
      moreover have "map_of es fd = None" using "2.prems"(3) by (auto simp: map_of_eq_None_iff)
      ultimately show "map (mark es) (lp_hooks (set_hook i ?g l)) ! j = map (mark ((fd, e) # es)) (lp_hooks l) ! j"
        using j i by (auto simp: set_hook_def nth_list_update mark_def)
    qed (simp add: set_hook_def)
    finally show ?thesis .
  qed
qed

lemma calls_of_marked:
  "\<forall>h \<in> set hs. \<not> hk_pending h \<Longrightarrow> calls_of (map hook_key (map (mark es) hs)) =
     List.map_filter (\<lambda>h. map_option (Pair (hk_user h)) (map_of es (hk_fd h))) hs"
proof (induction hs)
  case (Cons h hs)
  then show ?case
    by (cases "map_of es (hk_fd h)") (simp_all add: calls_of_Cons mark_def List.map_filter_simps)
qed (simp add: calls_of_def List.map_filter_simps)

text \<open>
  A round calls exactly the handlers of the descriptors the kernel reported, each once, in the
  order of the table and with the events reported, whatever the handlers called earlier do: also
  the handler of a descriptor that an earlier one has just deleted is still called.
\<close>

theorem round_calls_reported:
  assumes "table_ok l" "\<forall>h \<in> set (lp_hooks l). \<not> hk_closing h \<and> \<not> hk_pending h" "distinct (map fst reported)"
  shows "fst (looper_round cb reported l st) =
    List.map_filter (\<lambda>h. map_option (Pair (hk_user h)) (map_of reported (hk_fd h))) (lp_hooks l)"
proof -
  have "fst (looper_round cb reported l st) = calls_of (map hook_key (lp_hooks (mark_hooks reported l)))"
    using dispatch_calls [of cb 0 "mark_hooks reported l" st]
    by (cases "looper_dispatch cb 0 (mark_hooks reported l) st") (simp add: looper_round_def)
  also have "\<dots> = calls_of (map hook_key (map (mark reported) (lp_hooks l)))"
    using mark_hooks_map [OF assms(1) _ assms(3)] assms(2) by simp
  also have "\<dots> = List.map_filter (\<lambda>h. map_option (Pair (hk_user h)) (map_of reported (hk_fd h))) (lp_hooks l)"
    by (rule calls_of_marked) (use assms(2) in blast)
  finally show ?thesis .
qed

lemma sweep_skip:
  assumes "\<forall>j. n \<le> j \<and> j < m \<longrightarrow> \<not> hk_closing (lp_hooks l ! j)" "n \<le> m" "m \<le> length (lp_hooks l)"
  shows "looper_sweep n l = looper_sweep m l"
  using assms
proof (induction "m - n" arbitrary: n)
  case (Suc d)
  have "n < m" using Suc.hyps(2) by simp
  moreover have "\<not> hk_closing (lp_hooks l ! n)" using Suc.prems(1) \<open>n < m\<close> by simp
  ultimately have "looper_sweep n l = looper_sweep (Suc n) l" using Suc.prems(3) by (subst looper_sweep.simps) simp
  moreover have "looper_sweep (Suc n) l = looper_sweep m l" by (rule Suc.hyps(1)) (use Suc.hyps(2) Suc.prems in auto)
  ultimately show ?case by simp
qed simp

lemma sweep_end: "looper_sweep (length (lp_hooks l)) l = l"
  by (subst looper_sweep.simps) simp

lemma find_hook_cong: "map hk_fd hs = map hk_fd hs' \<Longrightarrow> find_hook fd hs = find_hook fd hs'"
  by (induction hs hs' rule: list_induct2') auto

lemma find_hook_append: "find_hook fd hs = Some i \<Longrightarrow> find_hook fd (hs @ hs') = Some i"
  by (induction hs arbitrary: i) auto

lemma sweep_one:
  assumes "i < length hs" "hk_closing h" "\<forall>h \<in> set hs. \<not> hk_closing h" "\<not> hk_closing z"
    and "lp_hooks l = hs[i := h] @ [z]"
  shows "looper_sweep 0 l = epoll_mod (hk_fd z) (hk_wanted z) i (l\<lparr>lp_hooks := hs[i := z]\<rparr>)" (is "_ = ?l")
proof -
  have hooks: "lp_hooks ?l = hs[i := z]" by simp
  have "looper_sweep 0 l = looper_sweep i l"
    by (rule sweep_skip) (use assms in \<open>auto simp: nth_append nth_list_update\<close>)
  also have "\<dots> = looper_sweep i ?l"
    using assms by (subst looper_sweep.simps) (simp add: nth_append list_update_append butlast_append Let_def)
  also have "\<dots> = looper_sweep (length (lp_hooks ?l)) ?l"
    by (rule sweep_skip) (use assms in \<open>auto simp: nth_list_update\<close>)
  finally show ?thesis by (simp only: sweep_end)
qed

text \<open>
  A descriptor closed and reused within one round is lost: if a handler deletes a watched
  descriptor and a later handler of the same round registers the same descriptor number again and
  enables events for it, then after the round the new hook is in the table and wants no event, and
  the kernel watches the descriptor with an empty mask: its handler is never called for them.
\<close>

theorem reused_descriptor_deaf:
  assumes "table_ok l" "\<forall>h \<in> set (lp_hooks l). \<not> hk_closing h"
    and "i < length (lp_hooks l)" "hk_fd (lp_hooks l ! i) = fd"
    and "l' = looper_sweep 0 (fold run_call [Del fd, Add fd user, Enable fd events] l)"
  shows "lp_epoll l' fd = Some (0, i) \<and> lp_hooks l' ! i = new_hook fd user"
proof -
  define h where "h = lp_hooks l ! i"
  define l1 where "l1 = looper_del fd l"
  have f: "find_hook fd (lp_hooks l) = Some i" using find_hook_nth [of "lp_hooks l" i] assms(1,3,4) by (simp add: table_ok_def)
  have l1: "lp_hooks l1 = (lp_hooks l)[i := h\<lparr>hk_closing := True\<rparr>]" "lp_epoll l1 fd = None"
    using f by (simp_all add: l1_def looper_del_def looper_find_def set_hook_def epoll_del_def h_def)
  have ok1: "table_ok l1" unfolding l1_def by (rule table_ok_del [OF assms(1)])
  define l2 where "l2 = looper_add fd user l1"
  have grow: "lp_epoll (looper_grow l1) = lp_epoll l1" by (rule looper_grow_epoll [OF ok1])
  have l2: "lp_hooks l2 = (lp_hooks l)[i := h\<lparr>hk_closing := True\<rparr>] @ [new_hook fd user]"
      "lp_epoll l2 fd = Some (0, length (lp_hooks l))"
    using l1 grow by (simp_all add: l2_def looper_add_def Let_def epoll_add_def)
  have "map hk_fd ((lp_hooks l)[i := h\<lparr>hk_closing := True\<rparr>]) = map hk_fd (lp_hooks l)"
    using assms(3) by (simp add: h_def map_update list_update_same_conv)
  from find_hook_append [of fd] find_hook_cong [OF this] f have f2: "looper_find fd l2 = Some i"
    by (simp add: looper_find_def l2(1))
  define l3 where "l3 = looper_enable fd events l2"
  obtain h' where h': "lp_hooks l3 = (lp_hooks l)[i := h'] @ [new_hook fd user]" "hk_closing h'"
  proof (cases "events AND NOT (hk_wanted (lp_hooks l2 ! i)) = 0")
    case True
    then show thesis using f2 l2(1) by (intro that [of "h\<lparr>hk_closing := True\<rparr>"]) (simp_all add: l3_def looper_enable_def Let_def)
  next
    case False
    define v where "v = hk_wanted (lp_hooks l2 ! i) OR events"
    show thesis using f2 l2(1) False assms(3)
      by (intro that [of "h\<lparr>hk_closing := True, hk_wanted := v\<rparr>"])
        (simp_all add: l3_def looper_enable_def Let_def set_hook_def v_def nth_append list_update_append)
  qed
  have e3: "lp_epoll l3 fd \<noteq> None"
    using f2 l2(2) by (simp add: l3_def looper_enable_def Let_def epoll_mod_def set_hook_def)
  have l': "l' = epoll_mod fd 0 i (l3\<lparr>lp_hooks := (lp_hooks l)[i := new_hook fd user]\<rparr>)"
    using sweep_one [OF assms(3) h'(2) assms(2) _ h'(1)] assms(5)
    by (simp add: l3_def l2_def l1_def new_hook_def)
  with e3 assms(3) show ?thesis by (auto simp: epoll_mod_def)
qed

section \<open>Samples\<close>

text \<open>
  Three descriptors are watched. The handler of the first deletes the third, and that of the second
  registers another.
\<close>

definition sample_start :: "looper_call list" where
  "sample_start = [Add 3 0, Enable 3 EPOLLIN, Add 4 1, Enable 4 EPOLLIN, Add 7 2, Enable 7 EPOLLIN]"

definition sample_looper :: looper where
  "sample_looper = fold run_call sample_start looper_init"

definition sample_handler :: "nat \<Rightarrow> u32 \<Rightarrow> unit \<Rightarrow> looper_call list \<times> unit" where
  "sample_handler user events st =
     (if user = 0 then [Del 7] else if user = 1 then [Add 9 3, Enable 9 EPOLLIN] else [], st)"

lemma sample_looper_ok: "table_ok sample_looper"
proof -
  have "fresh_calls sample_start looper_init" by code_simp
  from table_ok_calls [OF table_ok_init this] show ?thesis by (simp add: sample_looper_def)
qed

lemma sample_looper_open: "\<forall>h \<in> set (lp_hooks sample_looper). \<not> hk_closing h \<and> \<not> hk_pending h"
  by code_simp


theorem round_calls_reported_witness:
  "fst (looper_round sample_handler [(3, 1), (7, 16)] sample_looper ()) =
     List.map_filter (\<lambda>h. map_option (Pair (hk_user h)) (map_of [(3, 1), (7, 16)] (hk_fd h))) (lp_hooks sample_looper)"
  by (rule round_calls_reported [OF sample_looper_ok sample_looper_open]) simp

theorem reused_descriptor_deaf_witness:
  "lp_epoll (looper_sweep 0 (fold run_call [Del 7, Add 7 5, Enable 7 EPOLLIN] sample_looper)) 7 = Some (0, 2) \<and>
   lp_hooks (looper_sweep 0 (fold run_call [Del 7, Add 7 5, Enable 7 EPOLLIN] sample_looper)) ! 2 = new_hook 7 5"
  by (rule reused_descriptor_deaf [OF sample_looper_ok _ _ _ refl]) (use sample_looper_open in blast, code_simp+)

end
