(* ===== verification/Ashmem.thy ===== *)
theory Ashmem
  imports Anbox_Prelude
begin

unbundle bit_operations_syntax

text \<open>
  The shared memory driver of the container's kernel modules
  (\<open>src/modules/anbox/ashmem/ashmem.c\<close>): areas, the ranges of pages their users have unpinned, and
  the list, shared by all areas, of the ranges the kernel may purge when memory is short.

  A range and an area stand for the objects of the driver and carry the number that identifies
  them. Page numbers are natural numbers: an offset and a length of an \<open>ashmem_pin\<close> are below
  \<open>2 ^ 32\<close>, so the \<open>size_t\<close> arithmetic on pages is exact; the size of a range is written so that it is
  0 for the empty range, as it is modulo \<open>2 ^ 64\<close>. Whether \<open>kmem_cache_zalloc\<close> finds memory and the
  contents of user memory are arguments. Every operation runs under \<open>ashmem_mutex\<close>.
\<close>

section \<open>Ranges\<close>

record range =
  rg_id :: nat
  rg_start :: nat
  rg_end :: nat
  rg_purged :: bool

record lru_state =
  lr_list :: "(nat \<times> nat) list"          \<comment> \<open>area and range, least recently unpinned first\<close>
  lr_count :: u64
  lr_next :: nat                          \<comment> \<open>the identity of the next range\<close>

definition range_size :: "range \<Rightarrow> nat" where
  "range_size r = rg_end r + 1 - rg_start r"

definition range_on_lru :: "range \<Rightarrow> bool" where
  "range_on_lru r \<longleftrightarrow> \<not> rg_purged r"

definition page_range_subsumes_range :: "range \<Rightarrow> nat \<Rightarrow> nat \<Rightarrow> bool" where
  "page_range_subsumes_range r s e \<longleftrightarrow> rg_start r \<ge> s \<and> rg_end r \<le> e"

definition page_range_subsumed_by_range :: "range \<Rightarrow> nat \<Rightarrow> nat \<Rightarrow> bool" where
  "page_range_subsumed_by_range r s e \<longleftrightarrow> rg_start r \<le> s \<and> rg_end r \<ge> e"

definition page_in_range :: "range \<Rightarrow> nat \<Rightarrow> bool" where
  "page_in_range r page \<longleftrightarrow> rg_start r \<le> page \<and> rg_end r \<ge> page"

definition page_range_in_range :: "range \<Rightarrow> nat \<Rightarrow> nat \<Rightarrow> bool" where
  "page_range_in_range r s e \<longleftrightarrow> page_in_range r s \<or> page_in_range r e \<or> page_range_subsumes_range r s e"

definition range_before_page :: "range \<Rightarrow> nat \<Rightarrow> bool" where
  "range_before_page r page \<longleftrightarrow> rg_end r < page"

definition lru_add :: "nat \<Rightarrow> range \<Rightarrow> lru_state \<Rightarrow> lru_state" where
  "lru_add a r l = l\<lparr>lr_list := lr_list l @ [(a, rg_id r)], lr_count := lr_count l + of_nat (range_size r)\<rparr>"

definition lru_del :: "nat \<Rightarrow> range \<Rightarrow> lru_state \<Rightarrow> lru_state" where
  "lru_del a r l = l\<lparr>lr_list := remove1 (a, rg_id r) (lr_list l), lr_count := lr_count l - of_nat (range_size r)\<rparr>"

text \<open>The new range is linked into the list by the caller, in front of the range it passes.\<close>

definition range_alloc :: "bool \<Rightarrow> nat \<Rightarrow> bool \<Rightarrow> nat \<Rightarrow> nat \<Rightarrow> lru_state \<Rightarrow> (range \<times> lru_state) option" where
  "range_alloc memory a purged s e l =
     (if \<not> memory then None
      else
        (let r = \<lparr>rg_id = lr_next l, rg_start = s, rg_end = e, rg_purged = purged\<rparr>;
             l = l\<lparr>lr_next := lr_next l + 1\<rparr>
         in Some (r, if range_on_lru r then lru_add a r l else l)))"

definition range_del :: "nat \<Rightarrow> range \<Rightarrow> lru_state \<Rightarrow> lru_state" where
  "range_del a r l = (if range_on_lru r then lru_del a r l else l)"

definition range_shrink :: "range \<Rightarrow> nat \<Rightarrow> nat \<Rightarrow> lru_state \<Rightarrow> range \<times> lru_state" where
  "range_shrink r s e l =
     (let pre = range_size r; r = r\<lparr>rg_start := s, rg_end := e\<rparr>
      in (r, if range_on_lru r then l\<lparr>lr_count := lr_count l - of_nat (pre - range_size r)\<rparr> else l))"

section \<open>Pinning and unpinning\<close>

text \<open>The list of an area goes from the highest pages to the lowest.\<close>

fun ashmem_pin :: "bool \<Rightarrow> nat \<Rightarrow> nat \<Rightarrow> nat \<Rightarrow> range list \<Rightarrow> lru_state \<Rightarrow> bool \<times> range list \<times> lru_state" where
  "ashmem_pin memory a s e [] l = (False, [], l)"
| "ashmem_pin memory a s e (r # rs) l =
     (if range_before_page r s then (False, r # rs, l)
      else if page_range_in_range r s e then
        (if page_range_subsumes_range r s e then
           (case ashmem_pin memory a s e rs (range_del a r l) of (p, rs, l) \<Rightarrow> (rg_purged r \<or> p, rs, l))
         else if rg_start r \<ge> s then
           (case range_shrink r (e + 1) (rg_end r) l of (r', l) \<Rightarrow>
              (case ashmem_pin memory a s e rs l of (p, rs, l) \<Rightarrow> (rg_purged r \<or> p, r' # rs, l)))
         else if rg_end r \<le> e then
           (case range_shrink r (rg_start r) (s - 1) l of (r', l) \<Rightarrow>
              (case ashmem_pin memory a s e rs l of (p, rs, l) \<Rightarrow> (rg_purged r \<or> p, r' # rs, l)))
         else
           (case range_alloc memory a (rg_purged r) (e + 1) (rg_end r) l of
              None \<Rightarrow> (case range_shrink r (rg_start r) (s - 1) l of (r', l) \<Rightarrow> (rg_purged r, r' # rs, l))
            | Some (n, l) \<Rightarrow>
                (case range_shrink r (rg_start r) (s - 1) l of (r', l) \<Rightarrow> (rg_purged r, n # r' # rs, l))))
      else (case ashmem_pin memory a s e rs l of (p, rs, l) \<Rightarrow> (p, r # rs, l)))"

text \<open>One pass of the loop of \<open>ashmem_unpin\<close>: why it ended.\<close>

datatype unpin_find = Covered | Merge range | Insert

fun find_unpinned :: "nat \<Rightarrow> nat \<Rightarrow> range list \<Rightarrow> unpin_find" where
  "find_unpinned s e [] = Insert"
| "find_unpinned s e (r # rs) =
     (if range_before_page r s then Insert
      else if page_range_subsumed_by_range r s e then Covered
      else if page_range_in_range r s e then Merge r
      else find_unpinned s e rs)"

lemma find_unpinned_Merge: "find_unpinned s e rs = Merge r \<Longrightarrow> r \<in> set rs"
  by (induction rs) (auto split: if_splits)

definition insert_range :: "nat \<Rightarrow> range \<Rightarrow> range list \<Rightarrow> range list" where
  "insert_range s r rs =
     takeWhile (\<lambda>x. \<not> range_before_page x s) rs @ r # dropWhile (\<lambda>x. \<not> range_before_page x s) rs"

definition ENOMEM :: int where "ENOMEM = 12"

function ashmem_unpin ::
    "bool \<Rightarrow> nat \<Rightarrow> bool \<Rightarrow> nat \<Rightarrow> nat \<Rightarrow> range list \<Rightarrow> lru_state \<Rightarrow> int \<times> range list \<times> lru_state" where
  "ashmem_unpin memory a purged s e rs l =
     (case find_unpinned s e rs of
        Covered \<Rightarrow> (0, rs, l)
      | Merge r \<Rightarrow>
          ashmem_unpin memory a (purged \<or> rg_purged r) (min (rg_start r) s) (max (rg_end r) e) (remove1 r rs) (range_del a r l)
      | Insert \<Rightarrow>
          (case range_alloc memory a purged s e l of
             None \<Rightarrow> (- ENOMEM, rs, l)
           | Some (r, l) \<Rightarrow> (0, insert_range s r rs, l)))"
  by pat_completeness auto
termination
proof (relation "measure (\<lambda>(memory, a, purged, s, e, rs, l). length rs)")
  fix memory :: bool and a :: nat and purged :: bool and s e :: nat and rs :: "range list" and l :: lru_state and r
  assume "find_unpinned s e rs = Merge r"
  then have "r \<in> set rs" by (rule find_unpinned_Merge)
  with length_pos_if_in_set [OF this] show "((memory, a, purged \<or> rg_purged r, min (rg_start r) s, max (rg_end r) e, remove1 r rs, range_del a r l),
      (memory, a, purged, s, e, rs, l)) \<in> measure (\<lambda>(memory, a, purged, s, e, rs, l). length rs)"
    by (simp add: length_remove1)
qed simp

declare ashmem_unpin.simps [simp del]

text \<open>\<open>ASHMEM_IS_UNPINNED\<close> is 0 and \<open>ASHMEM_IS_PINNED\<close> is 1; here whether a page is unpinned.\<close>

fun ashmem_get_pin_status :: "nat \<Rightarrow> nat \<Rightarrow> range list \<Rightarrow> bool" where
  "ashmem_get_pin_status s e [] = False"
| "ashmem_get_pin_status s e (r # rs) =
     (if range_before_page r s then False
      else if page_range_in_range r s e then True
      else ashmem_get_pin_status s e rs)"

section \<open>Areas\<close>

definition PROT_READ :: u64 where "PROT_READ = 1"
definition PROT_WRITE :: u64 where "PROT_WRITE = 2"
definition PROT_EXEC :: u64 where "PROT_EXEC = 4"
definition PROT_MASK :: u64 where "PROT_MASK = 7"
definition PAGE_SIZE :: nat where "PAGE_SIZE = 4096"
definition ASHMEM_NAME_LEN :: nat where "ASHMEM_NAME_LEN = 256"
definition ASHMEM_NAME_DEF :: string where "ASHMEM_NAME_DEF = ''dev/ashmem''"

record area =
  ar_name :: string                       \<comment> \<open>what follows the prefix \<open>dev/ashmem/\<close>\<close>
  ar_unpinned :: "range list"
  ar_file :: bool                         \<comment> \<open>the backing file is there\<close>
  ar_size :: u64
  ar_prot_mask :: u64
  ar_pos :: int                           \<comment> \<open>\<open>f_pos\<close> of the open file\<close>
  ar_file_pos :: int                      \<comment> \<open>\<open>f_pos\<close> of the backing file\<close>

record ashmem =
  am_areas :: "(nat \<times> area) list"
  am_lru :: lru_state

definition ashmem_init :: ashmem where
  "ashmem_init = \<lparr>am_areas = [], am_lru = \<lparr>lr_list = [], lr_count = 0, lr_next = 0\<rparr>\<rparr>"

definition new_area :: area where
  "new_area = \<lparr>ar_name = [], ar_unpinned = [], ar_file = False, ar_size = 0, ar_prot_mask = PROT_MASK,
     ar_pos = 0, ar_file_pos = 0\<rparr>"

text \<open>\<open>generic\<close> is what \<open>generic_file_open\<close> returns, 0 or an error.\<close>

definition ashmem_open :: "int \<Rightarrow> bool \<Rightarrow> nat \<Rightarrow> ashmem \<Rightarrow> int \<times> ashmem" where
  "ashmem_open generic memory a st =
     (if generic \<noteq> 0 then (generic, st)
      else if \<not> memory then (- ENOMEM, st) else (0, st\<lparr>am_areas := (a, new_area) # am_areas st\<rparr>))"

definition set_area :: "nat \<Rightarrow> area \<Rightarrow> ashmem \<Rightarrow> ashmem" where
  "set_area a x st = st\<lparr>am_areas := map (\<lambda>(b, y). if b = a then (b, x) else (b, y)) (am_areas st)\<rparr>"

definition ashmem_release :: "nat \<Rightarrow> ashmem \<Rightarrow> ashmem" where
  "ashmem_release a st =
     (case map_of (am_areas st) a of
        None \<Rightarrow> st
      | Some x \<Rightarrow>
          \<lparr>am_areas = filter (\<lambda>(b, y). b \<noteq> a) (am_areas st), am_lru = fold (range_del a) (ar_unpinned x) (am_lru st)\<rparr>)"

section \<open>Purging\<close>

type_synonym hole = "nat \<times> nat \<times> nat"     \<comment> \<open>area, first and last page punched out of its file\<close>

definition mark_purged :: "nat \<Rightarrow> nat \<Rightarrow> ashmem \<Rightarrow> ashmem" where
  "mark_purged a i st =
     (case map_of (am_areas st) a of
        None \<Rightarrow> st
      | Some x \<Rightarrow>
          set_area a (x\<lparr>ar_unpinned := map (\<lambda>r. if rg_id r = i then r\<lparr>rg_purged := True\<rparr> else r) (ar_unpinned x)\<rparr>) st)"

definition find_range :: "nat \<Rightarrow> nat \<Rightarrow> ashmem \<Rightarrow> range option" where
  "find_range a i st =
     (case map_of (am_areas st) a of None \<Rightarrow> None | Some x \<Rightarrow> List.find (\<lambda>r. rg_id r = i) (ar_unpinned x))"

text \<open>
  The loop of \<open>ashmem_shrink_scan\<close> over the entries of the list: the holes, the pages freed and the
  state. \<open>nr_to_scan\<close> is unsigned and counted down before it is compared with 0.
\<close>

fun shrink_loop :: "u64 \<Rightarrow> (nat \<times> nat) list \<Rightarrow> ashmem \<Rightarrow> (hole list \<times> u64 \<times> ashmem) res" where
  "shrink_loop nr_to_scan [] st = Inr ([], 0, st)"
| "shrink_loop nr_to_scan ((a, i) # xs) st =
     (case find_range a i st of
        None \<Rightarrow> Inl (Undefined ''range'')
      | Some r \<Rightarrow>
          (let st = (mark_purged a i st)\<lparr>am_lru := lru_del a r (am_lru st)\<rparr>
           in if nr_to_scan - 1 = 0 then Inr ([(a, rg_start r, rg_end r)], of_nat (range_size r), st)
              else rbind (shrink_loop (nr_to_scan - 1) xs st) (\<lambda>(hs, freed, st).
                Inr ((a, rg_start r, rg_end r) # hs, of_nat (range_size r) + freed, st))))"

definition SHRINK_STOP :: u64 where "SHRINK_STOP = - 1"

definition ashmem_shrink_scan :: "bool \<Rightarrow> u64 \<Rightarrow> ashmem \<Rightarrow> (hole list \<times> u64 \<times> ashmem) res" where
  "ashmem_shrink_scan gfp_fs nr_to_scan st =
     (if \<not> gfp_fs then Inr ([], SHRINK_STOP, st) else shrink_loop nr_to_scan (lr_list (am_lru st)) st)"

definition ashmem_shrink_count :: "ashmem \<Rightarrow> u64" where
  "ashmem_shrink_count st = lr_count (am_lru st)"

section \<open>The calls of a user\<close>

definition EPERM :: int where "EPERM = 1"
definition EBADF :: int where "EBADF = 9"
definition EFAULT :: int where "EFAULT = 14"
definition ENOTTY :: int where "ENOTTY = 25"

text \<open>\<open>kernel_read\<close> is given by its result and the position it leaves.\<close>

definition ashmem_read :: "int \<times> int \<Rightarrow> area \<Rightarrow> int \<times> area" where
  "ashmem_read answer x =
     (if ar_size x = 0 then (0, x)
      else if \<not> ar_file x then (- EBADF, x)
      else
        (let ret = s32 (fst answer); x = x\<lparr>ar_pos := snd answer\<rparr>
         in (ret, if ret \<ge> 0 then x\<lparr>ar_file_pos := ar_pos x\<rparr> else x)))"

text \<open>\<open>vfs_llseek\<close> is given by its result, which is kept in an \<open>int\<close>, and the new position of the file.\<close>

definition ashmem_llseek :: "int \<times> int \<Rightarrow> area \<Rightarrow> int \<times> area" where
  "ashmem_llseek answer x =
     (if ar_size x = 0 then (- EINVAL, x)
      else if \<not> ar_file x then (- EBADF, x)
      else
        (let ret = s32 (fst answer); x = x\<lparr>ar_file_pos := snd answer\<rparr>
         in (ret, if ret < 0 then x else x\<lparr>ar_pos := ar_file_pos x\<rparr>)))"

definition VM_SHARED :: u64 where "VM_SHARED = 8"

text \<open>The kernel's flags \<open>VM_MAYREAD\<close>, \<open>VM_MAYWRITE\<close> and \<open>VM_MAYEXEC\<close> for protection bits.\<close>

definition calc_vm_trans :: "u64 \<Rightarrow> u64 \<Rightarrow> u64 \<Rightarrow> u64" where
  "calc_vm_trans x bit1 bit2 = (if x AND bit1 \<noteq> 0 then bit2 else 0)"

definition calc_vm_may_flags :: "u64 \<Rightarrow> u64" where
  "calc_vm_may_flags prot =
     calc_vm_trans prot PROT_READ 16 OR calc_vm_trans prot PROT_WRITE 32 OR calc_vm_trans prot PROT_EXEC 64"

text \<open>
  \<open>prot_bits\<close> is the kernel's \<open>calc_vm_prot_bits\<close>; \<open>file_setup\<close> and \<open>zero_setup\<close>
  are what \<open>shmem_file_setup\<close> and \<open>shmem_zero_setup\<close> return, 0 or an error.
\<close>

definition ashmem_mmap ::
    "(u64 \<Rightarrow> u64) \<Rightarrow> int \<Rightarrow> int \<Rightarrow> u64 \<Rightarrow> area \<Rightarrow> int \<times> u64 \<times> area" where
  "ashmem_mmap prot_bits file_setup zero_setup vm_flags x =
     (if ar_size x = 0 then (- EINVAL, vm_flags, x)
      else if (vm_flags AND NOT (prot_bits (ar_prot_mask x))) AND prot_bits PROT_MASK \<noteq> 0 then (- EPERM, vm_flags, x)
      else
        (let vm_flags = vm_flags AND NOT (calc_vm_may_flags (NOT (ar_prot_mask x)))
         in if \<not> ar_file x \<and> file_setup \<noteq> 0 then (file_setup, vm_flags, x)
            else
              (let x = x\<lparr>ar_file := True\<rparr>
               in if vm_flags AND VM_SHARED \<noteq> 0 \<and> zero_setup \<noteq> 0 then (zero_setup, vm_flags, x)
                  else (0, vm_flags, x))))"

definition set_prot_mask :: "bool \<Rightarrow> u64 \<Rightarrow> area \<Rightarrow> int \<times> area" where
  "set_prot_mask read_implies_exec prot x =
     (if ar_prot_mask x AND prot \<noteq> prot then (- EINVAL, x)
      else (0, x\<lparr>ar_prot_mask := (if prot AND PROT_READ \<noteq> 0 \<and> read_implies_exec then prot OR PROT_EXEC else prot)\<rparr>))"

text \<open>The string in user memory, \<open>None\<close> when it cannot be read.\<close>

definition set_name :: "string option \<Rightarrow> area \<Rightarrow> int \<times> area" where
  "set_name name x =
     (case name of
        None \<Rightarrow> (- EFAULT, x)
      | Some s \<Rightarrow>
          (let local_name = (if length s \<ge> ASHMEM_NAME_LEN then take (ASHMEM_NAME_LEN - 1) s else s)
           in if ar_file x then (- EINVAL, x) else (0, x\<lparr>ar_name := local_name\<rparr>)))"

definition get_name :: "bool \<Rightarrow> area \<Rightarrow> int \<times> string" where
  "get_name writable x =
     (let local_name = (if ar_name x \<noteq> [] then ar_name x else ASHMEM_NAME_DEF)
      in if writable then (0, local_name) else (- EFAULT, []))"

definition page_align :: "u64 \<Rightarrow> u64" where
  "page_align n = (n + 4095) AND NOT 4095"

text \<open>The checks of \<open>ashmem_pin_unpin\<close>: the pages named by an offset and a length.\<close>

definition pin_pages :: "u64 \<Rightarrow> u32 \<Rightarrow> u32 \<Rightarrow> (nat \<times> nat) option" where
  "pin_pages sz offset len =
     (let len = (if len = 0 then ucast (page_align sz - ucast offset) else len)
      in if (offset OR len) AND 4095 \<noteq> 0 then None
         else if (- 1) - offset < len then None
         else if page_align sz < ucast (offset + len) then None
         else
           (let pgstart = unat offset div PAGE_SIZE
            in Some (pgstart, unat (of_nat (pgstart + unat len div PAGE_SIZE) - 1 :: u64))))"

datatype ioctl =
    Set_name "string option" | Get_name bool | Set_size u64 | Get_size | Set_prot_mask u64 | Get_prot_mask
  | Pin "(u32 \<times> u32) option" | Unpin "(u32 \<times> u32) option" | Get_pin_status "(u32 \<times> u32) option"
  | Purge_all_caches bool | Other_ioctl

definition with_pages :: "(u32 \<times> u32) option \<Rightarrow> area \<Rightarrow> (nat \<Rightarrow> nat \<Rightarrow> int \<times> 'b) \<Rightarrow> 'b \<Rightarrow> int \<times> 'b" where
  "with_pages pin x f y =
     (if \<not> ar_file x then (- EINVAL, y)
      else case pin of
        None \<Rightarrow> (- EFAULT, y)
      | Some (offset, len) \<Rightarrow>
          (case pin_pages (ar_size x) offset len of None \<Rightarrow> (- EINVAL, y) | Some (s, e) \<Rightarrow> f s e))"

definition with_unpinned :: "nat \<Rightarrow> area \<Rightarrow> range list \<times> lru_state \<Rightarrow> ashmem \<Rightarrow> ashmem" where
  "with_unpinned a x r st = (set_area a (x\<lparr>ar_unpinned := fst r\<rparr>) st)\<lparr>am_lru := snd r\<rparr>"

fun ashmem_ioctl ::
    "bool \<Rightarrow> bool \<Rightarrow> nat \<Rightarrow> ioctl \<Rightarrow> area \<Rightarrow> ashmem \<Rightarrow> (int \<times> string \<times> hole list \<times> ashmem) res" where
  "ashmem_ioctl memory rie a (Set_name name) x st =
     (case set_name name x of (ret, x) \<Rightarrow> Inr (ret, [], [], set_area a x st))"
| "ashmem_ioctl memory rie a (Get_name writable) x st =
     (case get_name writable x of (ret, s) \<Rightarrow> Inr (ret, s, [], st))"
| "ashmem_ioctl memory rie a (Set_size sz) x st =
     (if ar_file x then Inr (- EINVAL, [], [], st) else Inr (0, [], [], set_area a (x\<lparr>ar_size := sz\<rparr>) st))"
| "ashmem_ioctl memory rie a Get_size x st = Inr (sint (ar_size x), [], [], st)"
| "ashmem_ioctl memory rie a (Set_prot_mask prot) x st =
     (case set_prot_mask rie prot x of (ret, x) \<Rightarrow> Inr (ret, [], [], set_area a x st))"
| "ashmem_ioctl memory rie a Get_prot_mask x st = Inr (sint (ar_prot_mask x), [], [], st)"
| "ashmem_ioctl memory rie a (Pin pin) x st =
     (case with_pages pin x (\<lambda>s e.
          case ashmem_pin memory a s e (ar_unpinned x) (am_lru st) of
            (p, r) \<Rightarrow> (of_bool p, with_unpinned a x r st)) st of
        (ret, st) \<Rightarrow> Inr (ret, [], [], st))"
| "ashmem_ioctl memory rie a (Unpin pin) x st =
     (case with_pages pin x (\<lambda>s e.
          case ashmem_unpin memory a False s e (ar_unpinned x) (am_lru st) of
            (ret, r) \<Rightarrow> (ret, with_unpinned a x r st)) st of
        (ret, st) \<Rightarrow> Inr (ret, [], [], st))"
| "ashmem_ioctl memory rie a (Get_pin_status pin) x st =
     (case with_pages pin x (\<lambda>s e. (of_bool (\<not> ashmem_get_pin_status s e (ar_unpinned x)), st)) st of
        (ret, st) \<Rightarrow> Inr (ret, [], [], st))"
| "ashmem_ioctl memory rie a (Purge_all_caches capable) x st =
     (if \<not> capable then Inr (- EPERM, [], [], st)
      else rbind (ashmem_shrink_scan True (2 ^ 63 - 1) st) (\<lambda>(hs, freed, st').
        Inr (sint (ashmem_shrink_count st), [], hs, st')))"
| "ashmem_ioctl memory rie a Other_ioctl x st = Inr (- ENOTTY, [], [], st)"

section \<open>The pages of a list of ranges\<close>

definition range_pages :: "range \<Rightarrow> nat set" where
  "range_pages r = {rg_start r .. rg_end r}"

definition unpinned_pages :: "range list \<Rightarrow> nat set" where
  "unpinned_pages rs = (\<Union>r \<in> set rs. range_pages r)"

definition flagged_pages :: "range list \<Rightarrow> nat set" where
  "flagged_pages rs = (\<Union>r \<in> {r \<in> set rs. rg_purged r}. range_pages r)"

definition ranges_ok :: "range list \<Rightarrow> bool" where
  "ranges_ok rs \<longleftrightarrow> sorted_wrt (\<lambda>r r'. rg_end r' < rg_start r) rs \<and> (\<forall>r \<in> set rs. rg_start r \<le> Suc (rg_end r))"

lemmas range_tests = range_before_page_def page_range_in_range_def page_in_range_def
  page_range_subsumes_range_def page_range_subsumed_by_range_def

lemma pages_simps [simp]:
  "unpinned_pages [] = {}" "unpinned_pages (r # rs) = range_pages r \<union> unpinned_pages rs"
  "unpinned_pages (rs @ rs') = unpinned_pages rs \<union> unpinned_pages rs'"
  "flagged_pages [] = {}" "flagged_pages (r # rs) = (if rg_purged r then range_pages r else {}) \<union> flagged_pages rs"
  "flagged_pages (rs @ rs') = flagged_pages rs \<union> flagged_pages rs'"
  by (auto simp: unpinned_pages_def flagged_pages_def)

lemma flagged_unpinned: "flagged_pages rs \<subseteq> unpinned_pages rs"
  by (auto simp: unpinned_pages_def flagged_pages_def)

lemma ranges_ok_Nil [simp]: "ranges_ok []"
  by (simp add: ranges_ok_def)

lemma ranges_ok_Cons:
  "ranges_ok (r # rs) \<longleftrightarrow> (\<forall>x \<in> set rs. rg_end x < rg_start r) \<and> rg_start r \<le> Suc (rg_end r) \<and> ranges_ok rs"
  by (auto simp: ranges_ok_def)

lemma ranges_ok_append:
  "ranges_ok (rs @ rs') \<longleftrightarrow> ranges_ok rs \<and> ranges_ok rs' \<and> (\<forall>x \<in> set rs. \<forall>y \<in> set rs'. rg_end y < rg_start x)"
  by (auto simp: ranges_ok_def sorted_wrt_append)

text \<open>Behind a range that lies before a page all do.\<close>

lemma ranges_before:
  assumes "ranges_ok (r # rs)" "range_before_page r s"
  shows "\<forall>x \<in> set (r # rs). rg_end x < s"
proof
  fix x
  assume "x \<in> set (r # rs)"
  moreover have "rg_start r \<le> s" using assms by (simp add: ranges_ok_Cons range_before_page_def)
  ultimately show "rg_end x < s" using assms by (auto simp: ranges_ok_Cons range_before_page_def dest: order.strict_trans2)
qed

lemma before_disjoint: "\<forall>x \<in> set rs. rg_end x < s \<Longrightarrow> unpinned_pages rs \<inter> {s..e} = {}"
  by (fastforce simp: unpinned_pages_def range_pages_def)

lemma range_beyond: "\<not> range_before_page r s \<Longrightarrow> \<not> page_range_in_range r s e \<Longrightarrow> e < rg_start r"
  by (auto simp: range_tests)

section \<open>The pages after pinning and unpinning\<close>

text \<open>A range after \<open>range_shrink\<close>.\<close>

lemma range_shrink_simps:
  assumes "range_shrink r s e l = (r', l')"
  shows "r' = r\<lparr>rg_start := s, rg_end := e\<rparr>"
    "l' = (if rg_purged r then l else l\<lparr>lr_count := lr_count l - of_nat (range_size r - range_size r')\<rparr>)"
  using assms by (auto simp: range_shrink_def Let_def range_on_lru_def)

text \<open>The ways a step of \<open>ashmem_pin\<close> goes.\<close>

lemma pin_cases [consumes 1, case_names Before Whole Front Rear Middle Middle_fails Beyond]:
  assumes "ashmem_pin memory a s e (r # rs) l = (p, rs', l')"
  obtains "rg_end r < s" "p = False" "rs' = r # rs" "l' = l"
  | p1 where "s \<le> rg_end r" "s \<le> rg_start r" "rg_end r \<le> e" "p = (rg_purged r \<or> p1)"
      "ashmem_pin memory a s e rs (range_del a r l) = (p1, rs', l')"
  | p1 r' rs1 l1 where "s \<le> rg_start r" "rg_start r \<le> s \<or> rg_start r \<le> e" "e < rg_end r" "p = (rg_purged r \<or> p1)" "rs' = r' # rs1"
      "range_shrink r (e + 1) (rg_end r) l = (r', l1)" "ashmem_pin memory a s e rs l1 = (p1, rs1, l')"
  | p1 r' rs1 l1 where "rg_start r < s" "s \<le> rg_end r" "rg_end r \<le> e" "p = (rg_purged r \<or> p1)" "rs' = r' # rs1"
      "range_shrink r (rg_start r) (s - 1) l = (r', l1)" "ashmem_pin memory a s e rs l1 = (p1, rs1, l')"
  | n r' l1 where "rg_start r < s" "s \<le> rg_end r" "e < rg_end r" "p = rg_purged r" "rs' = n # r' # rs"
      "range_alloc memory a (rg_purged r) (e + 1) (rg_end r) l = Some (n, l1)"
      "range_shrink r (rg_start r) (s - 1) l1 = (r', l')"
  | r' where "rg_start r < s" "s \<le> rg_end r" "e < rg_end r" "\<not> memory" "p = rg_purged r" "rs' = r' # rs"
      "range_shrink r (rg_start r) (s - 1) l = (r', l')"
  | rs1 where "e < rg_start r" "s \<le> rg_end r" "rs' = r # rs1" "ashmem_pin memory a s e rs l = (p, rs1, l')"
proof (cases "range_before_page r s")
  case True
  then show thesis using assms that(1) by (simp add: range_before_page_def)
next
  case nb: False
  then have le: "s \<le> rg_end r" by (simp add: range_before_page_def)
  show thesis
  proof (cases "page_range_in_range r s e")
    case False
    then show thesis using assms nb le range_beyond [OF nb False] that(7) by (simp split: prod.splits)
  next
    case ov: True
    show thesis
    proof (cases "page_range_subsumes_range r s e")
      case True
      then show thesis using assms nb ov le that(2) by (simp add: page_range_subsumes_range_def split: prod.splits)
    next
      case ns: False
      consider "s \<le> rg_start r" | "rg_start r < s" "rg_end r \<le> e" | "rg_start r < s" "e < rg_end r" by linarith
      then show thesis
      proof cases
        case 1
        then have "rg_start r \<le> s \<or> rg_start r \<le> e" "e < rg_end r" using ov ns by (auto simp: range_tests)
        moreover obtain r' l1 where sh: "range_shrink r (e + 1) (rg_end r) l = (r', l1)" by (rule prod.exhaust)
        moreover obtain p1 rs1 l2 where "ashmem_pin memory a s e rs l1 = (p1, rs1, l2)" by (rule prod_cases3)
        ultimately show thesis using 1 assms nb ov ns that(3) [OF 1 _ _ _ _ sh, of p1 rs1] by auto
      next
        case 2
        obtain r' l1 where sh: "range_shrink r (rg_start r) (s - 1) l = (r', l1)" by (rule prod.exhaust)
        moreover obtain p1 rs1 l2 where "ashmem_pin memory a s e rs l1 = (p1, rs1, l2)" by (rule prod_cases3)
        ultimately show thesis using 2 assms nb ov ns that(4) [OF 2(1) le 2(2) _ _ sh, of p1 rs1] by auto
      next
        case 3
        show thesis
        proof (cases "range_alloc memory a (rg_purged r) (e + 1) (rg_end r) l")
          case None
          then have "\<not> memory" by (auto simp: range_alloc_def Let_def split: if_splits)
          moreover obtain r' l1 where sh: "range_shrink r (rg_start r) (s - 1) l = (r', l1)" by (rule prod.exhaust)
          ultimately show thesis using 3 None assms nb ov ns that(6) [OF 3(1) le 3(2), of r'] by simp
        next
          case (Some nl)
          then obtain n l1 where al: "range_alloc memory a (rg_purged r) (e + 1) (rg_end r) l = Some (n, l1)" by (cases nl) simp
          moreover obtain r' l2 where sh: "range_shrink r (rg_start r) (s - 1) l1 = (r', l2)" by (rule prod.exhaust)
          ultimately show thesis using 3 assms nb ov ns that(5) [OF 3(1) le 3(2) _ _ al, of r'] by simp
        qed
      qed
    qed
  qed
qed

lemma range_alloc_Some:
  assumes "range_alloc memory a purged s e l = Some (r, l')"
  shows "rg_start r = s \<and> rg_end r = e \<and> rg_purged r = purged \<and> rg_id r = lr_next l"
  using assms by (auto simp: range_alloc_def Let_def split: if_splits)

text \<open>What is left of a list of ranges when the pages from \<open>s\<close> to \<open>e\<close> are pinned.\<close>

definition pinned :: "nat \<Rightarrow> nat \<Rightarrow> range list \<Rightarrow> bool \<Rightarrow> range list \<Rightarrow> bool" where
  "pinned s e rs p rs' \<longleftrightarrow> ranges_ok rs' \<and> unpinned_pages rs' = unpinned_pages rs - {s..e} \<and>
     flagged_pages rs' = flagged_pages rs - {s..e} \<and> (\<forall>b. (\<forall>x \<in> set rs. rg_end x < b) \<longrightarrow> (\<forall>x \<in> set rs'. rg_end x < b)) \<and>
     (flagged_pages rs \<inter> {s..e} \<noteq> {} \<longrightarrow> p)"

lemma pinned_head:
  assumes "pinned s e rs p rs'" "ranges_ok (r # rs)" "range_pages r - {s..e} = range_pages r'"
    and "rg_purged r' = rg_purged r" "rg_start r \<le> rg_start r'" "rg_start r' \<le> Suc (rg_end r')" "rg_end r' \<le> rg_end r"
    and "rg_purged r \<and> range_pages r \<inter> {s..e} \<noteq> {} \<or> p \<longrightarrow> q"
  shows "pinned s e (r # rs) q (r' # rs')"
  unfolding pinned_def
proof (intro conjI)
  have "\<forall>x \<in> set rs'. rg_end x < rg_start r" using assms(1,2) by (auto simp: pinned_def ranges_ok_Cons)
  then show "ranges_ok (r' # rs')" using assms(1,5,6) by (auto simp: pinned_def ranges_ok_Cons)
  show "unpinned_pages (r' # rs') = unpinned_pages (r # rs) - {s..e}"
    using assms(1,3) by (auto simp: pinned_def)
  show "flagged_pages (r' # rs') = flagged_pages (r # rs) - {s..e}"
    using assms(1,3,4) by (auto simp: pinned_def)
  show "\<forall>b. (\<forall>x \<in> set (r # rs). rg_end x < b) \<longrightarrow> (\<forall>x \<in> set (r' # rs'). rg_end x < b)"
    using assms(1,7) by (auto simp: pinned_def)
  show "flagged_pages (r # rs) \<inter> {s..e} \<noteq> {} \<longrightarrow> q"
    using assms(1,8) by (auto simp: pinned_def)
qed

lemma pinned_none:
  assumes "ranges_ok rs" "\<forall>x \<in> set rs. rg_end x < s"
  shows "pinned s e rs p rs"
  using assms before_disjoint [OF assms(2), of e] flagged_unpinned [of rs] by (auto simp: pinned_def)

lemma pin_pages_ok:
  "ashmem_pin True a s e rs l = (p, rs', l') \<Longrightarrow> ranges_ok rs \<Longrightarrow> s \<le> Suc e \<Longrightarrow> pinned s e rs p rs'"
proof (induction rs arbitrary: l p rs' l')
  case Nil
  then show ?case by (simp add: pinned_none)
next
  case (Cons r rs)
  have ok: "ranges_ok rs" and r: "rg_start r \<le> Suc (rg_end r)" "\<forall>x \<in> set rs. rg_end x < rg_start r"
    using Cons.prems(2) by (auto simp: ranges_ok_Cons)
  note IH = Cons.IH [OF _ ok Cons.prems(3)]
  from Cons.prems(1) show ?case
  proof (cases rule: pin_cases)
    case Before
    then show ?thesis using pinned_none [OF Cons.prems(2)] ranges_before [OF Cons.prems(2)] by (simp add: range_before_page_def)
  next
    case (Whole p1)
    then have "range_pages r \<subseteq> {s..e}" by (auto simp: range_pages_def)
    with IH [OF Whole(5)] Whole(4) show ?thesis by (auto simp: pinned_def)
  next
    case (Front p1 r' rs1 l1)
    note r' = range_shrink_simps(1) [OF Front(6)]
    show ?thesis unfolding Front(5)
      by (rule pinned_head [OF IH [OF Front(7)] Cons.prems(2)])
        (use Front(1-4) r' Cons.prems(3) in \<open>auto simp: range_pages_def\<close>)
  next
    case (Rear p1 r' rs1 l1)
    note r' = range_shrink_simps(1) [OF Rear(6)]
    show ?thesis unfolding Rear(5)
      by (rule pinned_head [OF IH [OF Rear(7)] Cons.prems(2)])
        (use Rear(1-4) r' in \<open>auto simp: range_pages_def\<close>)
  next
    case (Middle n r' l1)
    note r' = range_shrink_simps(1) [OF Middle(7)] and n = range_alloc_Some [OF Middle(6)]
    have "\<forall>x \<in> set rs. rg_end x < s" using r(2) Middle(1) by auto
    note rest = before_disjoint [OF this, of e]
    have "range_pages n \<union> range_pages r' = range_pages r - {s..e}"
      using Middle(1-3) r' n Cons.prems(3) by (auto simp: range_pages_def)
    moreover have "ranges_ok (n # r' # rs)"
      using Middle(1-3) r' n r ok Cons.prems(3) by (auto simp: ranges_ok_Cons)
    ultimately show ?thesis
      using Middle(1-5) r' n rest flagged_unpinned [of rs] by (auto simp: pinned_def)
  next
    case (Middle_fails r')
    then show ?thesis by simp
  next
    case (Beyond rs1)
    then show ?thesis unfolding Beyond(3)
      by (intro pinned_head [OF IH [OF Beyond(4)] Cons.prems(2)]) (use Beyond(1) r in \<open>auto simp: range_pages_def\<close>)
  qed
qed

lemma ranges_disjoint:
  assumes "ranges_ok rs" "r \<in> set rs"
  shows "ranges_ok (remove1 r rs)" "unpinned_pages rs = range_pages r \<union> unpinned_pages (remove1 r rs)"
    "range_pages r \<inter> unpinned_pages (remove1 r rs) = {}"
    "flagged_pages rs = (if rg_purged r then range_pages r else {}) \<union> flagged_pages (remove1 r rs)"
proof -
  obtain xs ys where rs: "rs = xs @ r # ys" "r \<notin> set xs" using split_list_first [OF assms(2)] by blast
  then have rem: "remove1 r rs = xs @ ys" by (simp add: remove1_append)
  show "ranges_ok (remove1 r rs)" using assms(1) unfolding rem by (auto simp: rs ranges_ok_append ranges_ok_Cons)
  show "unpinned_pages rs = range_pages r \<union> unpinned_pages (remove1 r rs)"
    "flagged_pages rs = (if rg_purged r then range_pages r else {}) \<union> flagged_pages (remove1 r rs)"
    unfolding rem by (auto simp: rs)
  have "rg_start x \<le> p \<Longrightarrow> p \<le> rg_end r \<Longrightarrow> False" if "x \<in> set xs" for x p
    using assms(1) that by (fastforce simp: rs ranges_ok_append ranges_ok_Cons)
  moreover have "rg_start r \<le> p \<Longrightarrow> p \<le> rg_end y \<Longrightarrow> False" if "y \<in> set ys" for y p
    using assms(1) that by (fastforce simp: rs ranges_ok_append ranges_ok_Cons)
  ultimately show "range_pages r \<inter> unpinned_pages (remove1 r rs) = {}"
    unfolding rem by (auto simp: unpinned_pages_def range_pages_def)
qed

lemma find_unpinned_Covered:
  "find_unpinned s e rs = Covered \<Longrightarrow> \<exists>r \<in> set rs. {s..e} \<subseteq> range_pages r"
  by (induction rs) (auto simp: page_range_subsumed_by_range_def range_pages_def split: if_splits)

lemma find_unpinned_Merge_not_before: "find_unpinned s e rs = Merge r \<Longrightarrow> page_range_in_range r s e"
  by (induction rs) (auto split: if_splits)

lemma find_unpinned_Insert:
  assumes "ranges_ok rs" "find_unpinned s e rs = Insert"
  shows "\<forall>x \<in> set (takeWhile (\<lambda>x. \<not> range_before_page x s) rs). e < rg_start x"
    "\<forall>x \<in> set (dropWhile (\<lambda>x. \<not> range_before_page x s) rs). rg_end x < s"
proof -
  show "\<forall>x \<in> set (takeWhile (\<lambda>x. \<not> range_before_page x s) rs). e < rg_start x"
    using assms(2) by (induction rs) (auto simp: range_beyond split: if_splits)
  show "\<forall>x \<in> set (dropWhile (\<lambda>x. \<not> range_before_page x s) rs). rg_end x < s"
  proof (cases "dropWhile (\<lambda>x. \<not> range_before_page x s) rs")
    case (Cons y ys)
    have "ranges_ok (y # ys)"
      using assms(1) takeWhile_dropWhile_id [of "\<lambda>x. \<not> range_before_page x s" rs] Cons by (metis ranges_ok_append)
    moreover have "range_before_page y s" using hd_dropWhile [of "\<lambda>x. \<not> range_before_page x s" rs] Cons by simp
    ultimately show ?thesis using ranges_before Cons by metis
  next
    case Nil
    show ?thesis unfolding Nil by simp
  qed
qed

lemma insert_range_ok:
  assumes "ranges_ok rs" "find_unpinned s e rs = Insert" "s \<le> Suc e" "rg_start r = s" "rg_end r = e"
  shows "ranges_ok (insert_range s r rs)" "unpinned_pages (insert_range s r rs) = range_pages r \<union> unpinned_pages rs"
    "flagged_pages (insert_range s r rs) = (if rg_purged r then range_pages r else {}) \<union> flagged_pages rs"
proof -
  define xs ys where "xs = takeWhile (\<lambda>x. \<not> range_before_page x s) rs" and "ys = dropWhile (\<lambda>x. \<not> range_before_page x s) rs"
  have rs: "rs = xs @ ys" "insert_range s r rs = xs @ r # ys" by (simp_all add: xs_def ys_def insert_range_def)
  note b = find_unpinned_Insert [OF assms(1,2), folded xs_def ys_def]
  show "ranges_ok (insert_range s r rs)"
    using assms(1,3-5) b unfolding rs(2) by (auto simp: rs(1) ranges_ok_append ranges_ok_Cons)
  show "unpinned_pages (insert_range s r rs) = range_pages r \<union> unpinned_pages rs"
    "flagged_pages (insert_range s r rs) = (if rg_purged r then range_pages r else {}) \<union> flagged_pages rs"
    unfolding rs(2) by (auto simp: rs(1))
qed

text \<open>\<open>G\<close> are pages of merged ranges that were purged.\<close>

lemma unpin_pages_ok:
  assumes "ashmem_unpin True a purged s e rs l = (ret, rs', l')" "ranges_ok rs" "s \<le> Suc e"
    and "G \<subseteq> {s..e}" "purged \<or> G = {}" "G \<inter> unpinned_pages rs = {}"
  shows "ret = 0 \<and> ranges_ok rs' \<and> unpinned_pages rs' = unpinned_pages rs \<union> {s..e} \<and> flagged_pages rs \<union> G \<subseteq> flagged_pages rs'"
  using assms
proof (induction "length rs" arbitrary: purged s e rs l G rule: less_induct)
  case less
  note step = trans [OF ashmem_unpin.simps [symmetric] less.prems(1)]
  show ?case
  proof (cases "find_unpinned s e rs")
    case Covered
    then obtain r where r: "r \<in> set rs" "{s..e} \<subseteq> range_pages r" using find_unpinned_Covered by blast
    then have "{s..e} \<subseteq> unpinned_pages rs" by (auto simp: unpinned_pages_def)
    with Covered step less.prems show ?thesis by auto
  next
    case (Merge r)
    then have r: "r \<in> set rs" by (rule find_unpinned_Merge)
    note d = ranges_disjoint [OF less.prems(2) r]
    let ?G = "G \<union> (if rg_purged r then range_pages r else {})"
    let ?s = "min (rg_start r) s" and ?e = "max (rg_end r) e"
    have ov: "page_range_in_range r s e" using Merge by (rule find_unpinned_Merge_not_before)
    have wf: "rg_start r \<le> Suc (rg_end r)" using less.prems(2) r by (simp add: ranges_ok_def)
    have len: "length (remove1 r rs) < length rs" using r length_pos_if_in_set [OF r] by (simp add: length_remove1)
    have rec: "ashmem_unpin True a (purged \<or> rg_purged r) ?s ?e (remove1 r rs) (range_del a r l) = (ret, rs', l')"
      using step Merge by simp
    have se: "?s \<le> Suc ?e" using less.prems(3) by auto
    have "{s..e} \<subseteq> {?s..?e}" "range_pages r \<subseteq> {?s..?e}" by (auto simp: range_pages_def)
    then have G: "?G \<subseteq> {?s..?e}" using less.prems(4) by (meson Un_least order.trans if_split empty_subsetI)
    have G': "(purged \<or> rg_purged r) \<or> ?G = {}" "?G \<inter> unpinned_pages (remove1 r rs) = {}"
      using less.prems(5,6) d(2,3) by auto
    have "ret = 0 \<and> ranges_ok rs' \<and> unpinned_pages rs' = unpinned_pages (remove1 r rs) \<union> {?s..?e} \<and>
        flagged_pages (remove1 r rs) \<union> ?G \<subseteq> flagged_pages rs'"
      by (rule less.hyps [OF len rec d(1) se G G'])
    moreover have "{?s..?e} = {s..e} \<union> range_pages r"
      using ov wf less.prems(3) by (auto simp: range_pages_def range_tests)
    ultimately show ?thesis using d by auto
  next
    case Insert
    then obtain r l1 where al: "range_alloc True a purged s e l = Some (r, l1)" "ret = 0" "rs' = insert_range s r rs"
      using step by (auto simp: range_alloc_def Let_def)
    have r: "rg_start r = s" "rg_end r = e" "rg_purged r = purged" using range_alloc_Some [OF al(1)] by simp_all
    note ins = insert_range_ok [OF less.prems(2) Insert less.prems(3) r(1,2)]
    have "range_pages r = {s..e}" using r by (simp add: range_pages_def)
    then show ?thesis using ins al r(3) less.prems(4,5) by auto
  qed
qed

lemma pin_status_ok:
  "ranges_ok rs \<Longrightarrow> unpinned_pages rs \<inter> {s..e} \<noteq> {} \<Longrightarrow> ashmem_get_pin_status s e rs"
proof (induction rs)
  case (Cons r rs)
  show ?case
  proof (cases "range_before_page r s")
    case True
    with before_disjoint [OF ranges_before [OF Cons.prems(1) True]] Cons.prems(2) show ?thesis by blast
  next
    case False
    show ?thesis
    proof (cases "page_range_in_range r s e")
      case ov: False
      have "range_pages r \<inter> {s..e} = {}" using range_beyond [OF False ov] by (auto simp: range_pages_def)
      with Cons False ov show ?thesis by (auto simp: ranges_ok_Cons)
    qed (use False in simp)
  qed
qed simp

section \<open>The list of ranges to purge\<close>

definition live :: "nat \<Rightarrow> range list \<Rightarrow> (nat \<times> nat) set" where
  "live a rs = (\<lambda>r. (a, rg_id r)) ` {r \<in> set rs. range_on_lru r}"

definition weight :: "range list \<Rightarrow> u64" where
  "weight rs = (\<Sum>r \<leftarrow> filter range_on_lru rs. of_nat (range_size r))"

text \<open>The list agrees with the ranges \<open>rs\<close> of area \<open>a\<close>, whatever it holds of others.\<close>

definition lru_fits :: "nat \<Rightarrow> range list \<Rightarrow> lru_state \<Rightarrow> bool" where
  "lru_fits a rs l \<longleftrightarrow> distinct (lr_list l) \<and> distinct (map rg_id rs) \<and>
     (\<forall>r \<in> set rs. (a, rg_id r) \<in> set (lr_list l) \<longleftrightarrow> range_on_lru r) \<and>
     (\<forall>r \<in> set rs. rg_id r < lr_next l) \<and> (\<forall>x \<in> set (lr_list l). snd x < lr_next l)"

text \<open>The ranges \<open>rs\<close> became \<open>rs'\<close>, and the list went along.\<close>

definition lru_step :: "nat \<Rightarrow> range list \<Rightarrow> lru_state \<Rightarrow> range list \<Rightarrow> lru_state \<Rightarrow> bool" where
  "lru_step a rs l rs' l' \<longleftrightarrow> distinct (lr_list l') \<and> distinct (map rg_id rs') \<and>
     set (lr_list l') = set (lr_list l) - live a rs \<union> live a rs' \<and>
     lr_count l' = lr_count l - weight rs + weight rs' \<and> lr_next l \<le> lr_next l' \<and>
     (\<forall>r \<in> set rs'. rg_id r < lr_next l' \<and> (rg_id r \<in> rg_id ` set rs \<or> lr_next l \<le> rg_id r)) \<and>
     (\<forall>x \<in> set (lr_list l'). snd x < lr_next l')"

lemma live_simps [simp]:
  "live a [] = {}" "live a (r # rs) = (if rg_purged r then {} else {(a, rg_id r)}) \<union> live a rs"
  "live a (rs @ rs') = live a rs \<union> live a rs'"
  by (auto simp: live_def range_on_lru_def)

lemma weight_simps [simp]:
  "weight [] = 0" "weight (r # rs) = (if rg_purged r then 0 else of_nat (range_size r)) + weight rs"
  "weight (rs @ rs') = weight rs + weight rs'"
  by (simp_all add: weight_def range_on_lru_def)

lemma live_ids: "x \<in> live a rs \<Longrightarrow> fst x = a \<and> snd x \<in> rg_id ` set rs"
  by (auto simp: live_def)

lemma live_member: "distinct (map rg_id rs) \<Longrightarrow> r \<in> set rs \<Longrightarrow> (a, rg_id r) \<in> live a rs \<longleftrightarrow> range_on_lru r"
  by (auto simp: live_def distinct_map inj_on_def)

lemma lru_fits_live: "lru_fits a rs l \<Longrightarrow> live a rs \<subseteq> set (lr_list l)"
  by (auto simp: lru_fits_def live_def)

lemma lru_step_refl: "lru_fits a rs l \<Longrightarrow> lru_step a rs l rs l"
  using lru_fits_live [of a rs l] by (auto simp: lru_fits_def lru_step_def)

text \<open>An entry that no range of the area accounts for has a number none of the new ranges has.\<close>

lemma lru_entry_apart:
  assumes "lru_fits a rs l" "lru_step a rs l rs' l'" "(a, i) \<in> set (lr_list l) - live a rs"
  shows "i \<notin> rg_id ` set rs'"
proof
  assume "i \<in> rg_id ` set rs'"
  moreover have "i < lr_next l" using assms(1,3) unfolding lru_fits_def by fastforce
  ultimately obtain r where r: "r \<in> set rs" "rg_id r = i" using assms(2) unfolding lru_step_def by fastforce
  with assms(1,3) have "range_on_lru r" unfolding lru_fits_def by blast
  with r assms(3) show False by (auto simp: live_def)
qed

lemma lru_step_fits:
  assumes "lru_fits a rs l" "lru_step a rs l rs' l'"
  shows "lru_fits a rs' l'"
proof -
  have d: "distinct (map rg_id rs')" using assms(2) by (simp add: lru_step_def)
  have "(a, rg_id r) \<in> set (lr_list l') \<longleftrightarrow> range_on_lru r" if "r \<in> set rs'" for r
  proof -
    have "(a, rg_id r) \<notin> set (lr_list l) - live a rs" using lru_entry_apart [OF assms] that by blast
    then show ?thesis using assms(2) live_member [OF d that, of a] by (auto simp: lru_step_def)
  qed
  with assms(2) show ?thesis by (simp add: lru_fits_def lru_step_def)
qed

lemma lru_step_trans:
  assumes "lru_fits a rs l" "lru_step a rs l rs1 l1" "lru_step a rs1 l1 rs2 l2"
  shows "lru_step a rs l rs2 l2"
proof -
  have "(set (lr_list l) - live a rs) \<inter> live a rs1 = {}"
    using lru_entry_apart [OF assms(1,2)] by (fastforce simp: live_def)
  then have "set (lr_list l2) = set (lr_list l) - live a rs \<union> live a rs2"
    using assms(2,3) unfolding lru_step_def by blast
  moreover have "rg_id r \<in> rg_id ` set rs \<or> lr_next l \<le> rg_id r" if r: "r \<in> set rs2" for r
  proof (cases "lr_next l1 \<le> rg_id r")
    case True
    then show ?thesis using assms(2) by (simp add: lru_step_def)
  next
    case False
    then obtain r1 where "r1 \<in> set rs1" "rg_id r = rg_id r1" using assms(3) r unfolding lru_step_def by blast
    then show ?thesis using assms(2) unfolding lru_step_def by metis
  qed
  ultimately show ?thesis using assms(2,3) unfolding lru_step_def by simp
qed

lemma lru_fits_Cons: "lru_fits a (r # rs) l \<Longrightarrow> lru_fits a rs l"
  by (simp add: lru_fits_def)

lemma lru_step_Cons:
  assumes "lru_fits a (r # rs) l" "lru_step a rs l rs' l'"
  shows "lru_step a (r # rs) l (r # rs') l'"
proof -
  have r: "rg_id r \<notin> rg_id ` set rs" "rg_id r < lr_next l" using assms(1) by (simp_all add: lru_fits_def)
  then have "(a, rg_id r) \<notin> live a rs" by (auto simp: live_def)
  moreover have "(a, rg_id r) \<in> set (lr_list l) \<longleftrightarrow> \<not> rg_purged r"
    using assms(1) by (simp add: lru_fits_def range_on_lru_def)
  ultimately have "set (lr_list l') = set (lr_list l) - live a (r # rs) \<union> live a (r # rs')"
    using assms(2) by (auto simp: lru_step_def)
  moreover have "rg_id r \<notin> rg_id ` set rs'" using assms(2) r unfolding lru_step_def by (metis imageE not_le)
  ultimately show ?thesis using assms(2) r(2) unfolding lru_step_def by simp
qed

lemma lru_fits_unique:
  assumes "lru_fits a (xs @ r # ys) l"
  shows "(a, rg_id r) \<notin> live a (xs @ ys)" "rg_id r \<notin> rg_id ` set (xs @ ys)" "rg_id r < lr_next l"
    "(a, rg_id r) \<in> set (lr_list l) \<longleftrightarrow> \<not> rg_purged r"
  using assms by (auto simp: lru_fits_def live_def range_on_lru_def)

lemma lru_step_del:
  assumes "lru_fits a (xs @ r # ys) l"
  shows "lru_step a (xs @ r # ys) l (xs @ ys) (range_del a r l)"
proof (cases "rg_purged r")
  case True
  have "lru_fits a (xs @ ys) l" using assms by (simp add: lru_fits_def)
  from lru_fits_live [OF this] True assms show ?thesis
    by (auto simp: lru_step_def lru_fits_def range_del_def range_on_lru_def)
next
  case False
  have fits: "lru_fits a (xs @ ys) l" using assms by (simp add: lru_fits_def)
  note u = lru_fits_unique [OF assms] and v = lru_fits_live [OF fits]
  have d: "distinct (lr_list l)" using assms by (simp add: lru_fits_def)
  have "set (remove1 (a, rg_id r) (lr_list l)) = set (lr_list l) - {(a, rg_id r)}" using d by simp
  also have "\<dots> = set (lr_list l) - live a (xs @ r # ys) \<union> live a (xs @ ys)" using u(1,4) v False by auto
  finally show ?thesis using assms False d
    unfolding lru_step_def by (auto simp: lru_fits_def range_del_def range_on_lru_def lru_del_def)
qed

lemma lru_step_alloc:
  assumes "lru_fits a (xs @ ys) l" "range_alloc memory a purged s e l = Some (n, l')"
  shows "lru_step a (xs @ ys) l (xs @ n # ys) l'"
proof -
  have n: "rg_id n = lr_next l" "rg_purged n = purged" using range_alloc_Some [OF assms(2)] by simp_all
  have l': "l' = (if purged then l\<lparr>lr_next := lr_next l + 1\<rparr> else lru_add a n (l\<lparr>lr_next := lr_next l + 1\<rparr>))"
    using assms(2) by (auto simp: range_alloc_def Let_def range_on_lru_def split: if_splits)
  have new: "(a, lr_next l) \<notin> set (lr_list l)" using assms(1) unfolding lru_fits_def by fastforce
  have ids: "rg_id n \<notin> rg_id ` set (xs @ ys)" using assms(1) n(1) by (force simp: lru_fits_def)
  have "set (lr_list l') = set (lr_list l) - live a (xs @ ys) \<union> live a (xs @ n # ys)"
    using lru_fits_live [OF assms(1)] n by (auto simp: l' lru_add_def)
  moreover have "distinct (lr_list l')" using assms(1) new n(1) by (simp add: l' lru_add_def lru_fits_def)
  moreover have "lr_count l' = lr_count l - weight (xs @ ys) + weight (xs @ n # ys)"
    using n(2) by (simp add: l' lru_add_def)
  moreover have "lr_next l' = lr_next l + 1" by (simp add: l' lru_add_def)
  moreover have "\<forall>x \<in> set (lr_list l'). snd x < lr_next l'"
    using assms(1) n(1) by (auto simp: l' lru_add_def lru_fits_def less_Suc_eq)
  ultimately show ?thesis using assms(1) n(1) ids unfolding lru_step_def
    by (auto simp: lru_fits_def less_Suc_eq)
qed

lemma lru_step_shrink:
  assumes "lru_fits a (r # rs) l" "range_shrink r s e l = (r', l')" "range_size r' \<le> range_size r"
  shows "lru_step a (r # rs) l (r' # rs) l'"
proof -
  note r' = range_shrink_simps [OF assms(2)]
  have same: "rg_id r' = rg_id r" "rg_purged r' = rg_purged r" "lr_list l' = lr_list l" "lr_next l' = lr_next l"
    using r' by simp_all
  have "(of_nat (range_size r - range_size r') :: u64) = of_nat (range_size r) - of_nat (range_size r')"
    using assms(3) by (simp add: of_nat_diff)
  then have "lr_count l' = lr_count l - weight (r # rs) + weight (r' # rs)" using r'(2) same(2) by simp
  moreover have "live a (r' # rs) = live a (r # rs)" using same by simp
  ultimately show ?thesis using lru_step_refl [OF assms(1)] same unfolding lru_step_def by (simp del: live_simps weight_simps)
qed

lemma pin_lru_ok:
  "ashmem_pin memory a s e rs l = (p, rs', l') \<Longrightarrow> lru_fits a rs l \<Longrightarrow> s \<le> Suc e \<Longrightarrow>
     \<forall>r \<in> set rs. rg_start r \<le> Suc (rg_end r) \<Longrightarrow> lru_step a rs l rs' l'"
proof (induction rs arbitrary: l p rs' l')
  case Nil
  then show ?case by (simp add: lru_step_refl)
next
  case (Cons r rs)
  note fits = Cons.prems(2) and IH = Cons.IH [OF _ _ Cons.prems(3)]
  have wf: "\<forall>r \<in> set rs. rg_start r \<le> Suc (rg_end r)" using Cons.prems(4) by simp
  have shrunk: "lru_step a (r # rs) l (r' # rs1) l'"
    if r': "range_shrink r b c l = (r', l1)" and t: "ashmem_pin memory a s e rs l1 = (p1, rs1, l')"
      and "range_size (r\<lparr>rg_start := b, rg_end := c\<rparr>) \<le> range_size r" for b c r' l1 p1 rs1
  proof -
    have s1: "lru_step a (r # rs) l (r' # rs) l1"
      by (rule lru_step_shrink [OF fits r']) (use that(3) range_shrink_simps(1) [OF r'] in simp)
    have f1: "lru_fits a (r' # rs) l1" by (rule lru_step_fits [OF fits s1])
    from lru_step_Cons [OF f1 IH [OF t lru_fits_Cons [OF f1] wf]] show ?thesis by (rule lru_step_trans [OF fits s1])
  qed
  from Cons.prems(1) show ?case
  proof (cases rule: pin_cases)
    case Before
    then show ?thesis using lru_step_refl [OF fits] by simp
  next
    case (Whole p1)
    have s1: "lru_step a (r # rs) l rs (range_del a r l)" using lru_step_del [of a "[]" r rs l] fits by simp
    from IH [OF Whole(5) lru_step_fits [OF fits s1] wf] show ?thesis by (rule lru_step_trans [OF fits s1])
  next
    case (Front p1 r' rs1 l1)
    then show ?thesis unfolding Front(5) using Cons.prems(3) by (intro shrunk [OF Front(6,7)]) (auto simp: range_size_def)
  next
    case (Rear p1 r' rs1 l1)
    then show ?thesis unfolding Rear(5) by (intro shrunk [OF Rear(6,7)]) (auto simp: range_size_def)
  next
    case (Middle n r' l1)
    have s1: "lru_step a (r # rs) l (n # r # rs) l1" using lru_step_alloc [of a "[]" "r # rs", OF _ Middle(6)] fits by simp
    have f1: "lru_fits a (n # r # rs) l1" by (rule lru_step_fits [OF fits s1])
    have "lru_step a (r # rs) l1 (r' # rs) l'"
      by (rule lru_step_shrink [OF lru_fits_Cons [OF f1] Middle(7)])
        (use Middle(1,2) range_shrink_simps(1) [OF Middle(7)] in \<open>auto simp: range_size_def\<close>)
    from lru_step_Cons [OF f1 this] show ?thesis unfolding Middle(5) by (rule lru_step_trans [OF fits s1])
  next
    case (Middle_fails r')
    show ?thesis unfolding Middle_fails(6)
      by (rule lru_step_shrink [OF fits Middle_fails(7)])
        (use Middle_fails(1,2) range_shrink_simps(1) [OF Middle_fails(7)] in \<open>auto simp: range_size_def\<close>)
  next
    case (Beyond rs1)
    show ?thesis unfolding Beyond(3)
      by (rule lru_step_Cons [OF fits IH [OF Beyond(4) lru_fits_Cons [OF fits] wf]])
  qed
qed

lemma unpin_lru_ok:
  "ashmem_unpin memory a purged s e rs l = (ret, rs', l') \<Longrightarrow> lru_fits a rs l \<Longrightarrow> lru_step a rs l rs' l'"
proof (induction "length rs" arbitrary: purged s e rs l rule: less_induct)
  case less
  note step = trans [OF ashmem_unpin.simps [symmetric] less.prems(1)]
  show ?case
  proof (cases "find_unpinned s e rs")
    case Covered
    then show ?thesis using step lru_step_refl [OF less.prems(2)] by simp
  next
    case (Merge r)
    have r: "r \<in> set rs" using Merge by (rule find_unpinned_Merge)
    obtain xs ys where rs: "rs = xs @ r # ys" "r \<notin> set xs" using split_list_first [OF r] by blast
    then have rem: "remove1 r rs = xs @ ys" by (simp add: remove1_append)
    have s1: "lru_step a rs l (remove1 r rs) (range_del a r l)"
      using lru_step_del [of a xs r ys l] less.prems(2) unfolding rem by (simp add: rs(1))
    have "lru_step a (remove1 r rs) (range_del a r l) rs' l'"
      by (rule less.hyps [OF _ _ lru_step_fits [OF less.prems(2) s1]]) (use step Merge rem rs(1) in simp_all)
    then show ?thesis by (rule lru_step_trans [OF less.prems(2) s1])
  next
    case Insert
    let ?xs = "takeWhile (\<lambda>x. \<not> range_before_page x s) rs" and ?ys = "dropWhile (\<lambda>x. \<not> range_before_page x s) rs"
    show ?thesis
    proof (cases "range_alloc memory a purged s e l")
      case None
      then show ?thesis using step Insert lru_step_refl [OF less.prems(2)] by simp
    next
      case (Some nl)
      then obtain n where n: "range_alloc memory a purged s e l = Some (n, l')" "rs' = insert_range s n rs"
        using step Insert by (cases nl) simp
      from lru_step_alloc [OF _ n(1), of ?xs ?ys] less.prems(2) show ?thesis by (simp add: n(2) insert_range_def)
    qed
  qed
qed

section \<open>All areas\<close>

definition areas_ok :: "(nat \<times> area) list \<Rightarrow> lru_state \<Rightarrow> bool" where
  "areas_ok as l \<longleftrightarrow> distinct (map fst as) \<and>
     (\<forall>(a, x) \<in> set as. ranges_ok (ar_unpinned x) \<and> lru_fits a (ar_unpinned x) l) \<and>
     distinct (lr_list l) \<and> (\<forall>x \<in> set (lr_list l). snd x < lr_next l) \<and> set (lr_list l) = (\<Union>(a, x) \<in> set as. live a (ar_unpinned x)) \<and>
     lr_count l = (\<Sum>(a, x) \<leftarrow> as. weight (ar_unpinned x))"

definition ash_ok :: "ashmem \<Rightarrow> bool" where
  "ash_ok st \<longleftrightarrow> areas_ok (am_areas st) (am_lru st)"

lemma areas_split:
  assumes "distinct (map fst as)" "map_of as a = Some x"
  obtains xs ys where "as = xs @ (a, x) # ys" "a \<notin> fst ` set xs" "a \<notin> fst ` set ys"
proof -
  obtain xs ys where as: "as = xs @ (a, x) # ys" using split_list [OF map_of_SomeD [OF assms(2)]] by blast
  with assms(1) show thesis by (intro that) auto
qed

lemma lru_fits_other:
  assumes "lru_fits b rs l" "lru_step a rs1 l rs2 l'" "a \<noteq> b"
  shows "lru_fits b rs l'"
proof -
  have "(b, i) \<in> set (lr_list l') \<longleftrightarrow> (b, i) \<in> set (lr_list l)" for i
    using assms(2,3) by (auto simp: lru_step_def live_def)
  then show ?thesis using assms(1,2) by (auto simp: lru_fits_def lru_step_def intro: less_le_trans)
qed

lemma areas_ok_update:
  assumes "areas_ok (xs @ (a, x) # ys) l" "a \<notin> fst ` set xs" "a \<notin> fst ` set ys"
    and "lru_step a (ar_unpinned x) l (ar_unpinned x') l'" "ranges_ok (ar_unpinned x')"
  shows "areas_ok (xs @ (a, x') # ys) l'"
proof -
  let ?as = "xs @ (a, x) # ys"
  have fits: "lru_fits a (ar_unpinned x) l" using assms(1) by (simp add: areas_ok_def)
  have "lru_fits a (ar_unpinned x') l'" by (rule lru_step_fits [OF fits assms(4)])
  moreover have "ranges_ok (ar_unpinned y) \<and> lru_fits b (ar_unpinned y) l'" if "(b, y) \<in> set xs \<union> set ys" for b y
  proof -
    have "a \<noteq> b" using that assms(2,3) by force
    moreover have "ranges_ok (ar_unpinned y) \<and> lru_fits b (ar_unpinned y) l" using that assms(1) by (auto simp: areas_ok_def)
    ultimately show ?thesis using lru_fits_other [OF _ assms(4), of b] by blast
  qed
  ultimately have "\<forall>(b, y) \<in> set (xs @ (a, x') # ys). ranges_ok (ar_unpinned y) \<and> lru_fits b (ar_unpinned y) l'"
    using assms(5) by auto
  moreover have "set (lr_list l') = (\<Union>(b, y) \<in> set (xs @ (a, x') # ys). live b (ar_unpinned y))"
  proof -
    have "(\<Union>(b, y) \<in> set xs \<union> set ys. live b (ar_unpinned y)) \<inter> live a (ar_unpinned x) = {}"
      using assms(2,3) by (force simp: live_def)
    moreover have "set (lr_list l) = (\<Union>(b, y) \<in> set xs \<union> set ys. live b (ar_unpinned y)) \<union> live a (ar_unpinned x)"
      using assms(1) by (auto simp: areas_ok_def)
    ultimately show ?thesis using assms(4) by (auto simp: lru_step_def)
  qed
  moreover have "lr_count l' = (\<Sum>(b, y) \<leftarrow> xs @ (a, x') # ys. weight (ar_unpinned y))"
    using assms(1,4) by (simp add: areas_ok_def lru_step_def)
  ultimately show ?thesis using assms(1,4) by (simp add: areas_ok_def lru_step_def)
qed

lemma areas_ok_empty_area: "areas_ok (xs @ (a, x) # ys) l \<Longrightarrow> ar_unpinned x = [] \<Longrightarrow> areas_ok (xs @ ys) l"
  by (auto simp: areas_ok_def)

lemma areas_ok_new:
  assumes "areas_ok as l" "a \<notin> fst ` set as"
  shows "areas_ok ((a, new_area) # as) l"
proof -
  have "lru_fits a [] l" using assms(1) by (simp add: areas_ok_def lru_fits_def)
  then show ?thesis using assms by (simp add: areas_ok_def new_area_def)
qed

lemma set_area_split:
  "am_areas st = xs @ (a, x) # ys \<Longrightarrow> a \<notin> fst ` set xs \<Longrightarrow> a \<notin> fst ` set ys \<Longrightarrow>
     am_areas (set_area a x' st) = xs @ (a, x') # ys"
proof -
  have "map (\<lambda>(b, y). if b = a then (b, x') else (b, y)) zs = zs" if "a \<notin> fst ` set zs" for zs :: "(nat \<times> area) list"
    using that by (induction zs) auto
  then show "am_areas st = xs @ (a, x) # ys \<Longrightarrow> a \<notin> fst ` set xs \<Longrightarrow> a \<notin> fst ` set ys \<Longrightarrow> ?thesis"
    by (simp add: set_area_def)
qed

lemma map_of_middle:
  assumes "a \<notin> fst ` set xs" "a \<notin> fst ` set ys"
  shows "map_of (xs @ (a, x) # ys) = (map_of (xs @ ys))(a \<mapsto> x)" "map_of (xs @ ys) a = None"
proof -
  have "map_of xs a = None" "map_of ys a = None" using assms by (simp_all add: map_of_eq_None_iff)
  then show "map_of (xs @ (a, x) # ys) = (map_of (xs @ ys))(a \<mapsto> x)" "map_of (xs @ ys) a = None"
    by (auto simp: fun_eq_iff map_add_def split: option.split)
qed

lemma ash_ok_split:
  assumes "ash_ok st" "map_of (am_areas st) a = Some x"
  obtains xs ys where "am_areas st = xs @ (a, x) # ys" "a \<notin> fst ` set xs" "a \<notin> fst ` set ys"
    "areas_ok (xs @ (a, x) # ys) (am_lru st)" "ranges_ok (ar_unpinned x)" "lru_fits a (ar_unpinned x) (am_lru st)"
proof -
  have d: "distinct (map fst (am_areas st))" using assms(1) by (simp add: ash_ok_def areas_ok_def)
  obtain xs ys where s: "am_areas st = xs @ (a, x) # ys" "a \<notin> fst ` set xs" "a \<notin> fst ` set ys"
    by (rule areas_split [OF d assms(2)])
  with assms(1) show thesis by (intro that [of xs ys]) (auto simp: ash_ok_def areas_ok_def)
qed

text \<open>The one way the ranges of an area change.\<close>

lemma ash_ok_change:
  assumes "ash_ok st" "map_of (am_areas st) a = Some x"
    and "lru_step a (ar_unpinned x) (am_lru st) (ar_unpinned x') l'" "ranges_ok (ar_unpinned x')"
  shows "ash_ok ((set_area a x' st)\<lparr>am_lru := l'\<rparr>)"
    "map_of (am_areas (set_area a x' st)) = (map_of (am_areas st))(a \<mapsto> x')"
proof -
  obtain xs ys where s: "am_areas st = xs @ (a, x) # ys" "a \<notin> fst ` set xs" "a \<notin> fst ` set ys"
    "areas_ok (xs @ (a, x) # ys) (am_lru st)" by (rule ash_ok_split [OF assms(1,2)])
  show "ash_ok ((set_area a x' st)\<lparr>am_lru := l'\<rparr>)"
    using areas_ok_update [OF s(4,2,3) assms(3,4)] set_area_split [OF s(1-3), of x'] by (simp add: ash_ok_def)
  show "map_of (am_areas (set_area a x' st)) = (map_of (am_areas st))(a \<mapsto> x')"
    unfolding set_area_split [OF s(1-3)] s(1) map_of_middle [OF s(2,3)] by simp
qed

lemma ash_ok_same:
  assumes "ash_ok st" "map_of (am_areas st) a = Some x" "ar_unpinned x' = ar_unpinned x"
  shows "ash_ok (set_area a x' st)" "map_of (am_areas (set_area a x' st)) = (map_of (am_areas st))(a \<mapsto> x')"
proof -
  obtain xs ys where f: "lru_fits a (ar_unpinned x) (am_lru st)" "ranges_ok (ar_unpinned x)" by (rule ash_ok_split [OF assms(1,2)])
  have st: "lru_step a (ar_unpinned x) (am_lru st) (ar_unpinned x') (am_lru st)" "ranges_ok (ar_unpinned x')"
    using lru_step_refl [OF f(1)] f(2) assms(3) by simp_all
  have "(set_area a x' st)\<lparr>am_lru := am_lru st\<rparr> = set_area a x' st" by (simp add: set_area_def)
  with ash_ok_change [OF assms(1,2) st] show "ash_ok (set_area a x' st)"
    "map_of (am_areas (set_area a x' st)) = (map_of (am_areas st))(a \<mapsto> x')" by simp_all
qed

lemma lru_step_release: "lru_fits a rs l \<Longrightarrow> lru_step a rs l [] (fold (range_del a) rs l)"
proof (induction rs arbitrary: l)
  case Nil
  then show ?case by (simp add: lru_step_refl)
next
  case (Cons r rs)
  have s1: "lru_step a (r # rs) l rs (range_del a r l)" using lru_step_del [of a "[]" r rs l] Cons.prems by simp
  from Cons.IH [OF lru_step_fits [OF Cons.prems s1]] show ?case
    by (simp add: lru_step_trans [OF Cons.prems s1])
qed

lemma ash_ok_release:
  assumes "ash_ok st"
  shows "ash_ok (ashmem_release a st)" "map_of (am_areas (ashmem_release a st)) = (map_of (am_areas st))(a := None)"
proof -
  have "ash_ok (ashmem_release a st) \<and> map_of (am_areas (ashmem_release a st)) = (map_of (am_areas st))(a := None)"
  proof (cases "map_of (am_areas st) a")
    case None
    then show ?thesis using assms by (simp add: ashmem_release_def fun_upd_idem)
  next
    case (Some x)
    obtain xs ys where s: "am_areas st = xs @ (a, x) # ys" "a \<notin> fst ` set xs" "a \<notin> fst ` set ys"
      "areas_ok (xs @ (a, x) # ys) (am_lru st)" "lru_fits a (ar_unpinned x) (am_lru st)" by (rule ash_ok_split [OF assms Some])
    let ?l = "fold (range_del a) (ar_unpinned x) (am_lru st)"
    have "areas_ok (xs @ (a, x\<lparr>ar_unpinned := []\<rparr>) # ys) ?l"
      by (rule areas_ok_update [OF s(4,2,3)]) (use lru_step_release [OF s(5)] in simp_all)
    from areas_ok_empty_area [OF this] have ok: "areas_ok (xs @ ys) ?l" by simp
    have f: "filter (\<lambda>(b, y). b \<noteq> a) xs = xs" "filter (\<lambda>(b, y). b \<noteq> a) ys = ys"
      using s(2,3) by (force simp: filter_id_conv)+
    have r: "ashmem_release a st = \<lparr>am_areas = xs @ ys, am_lru = ?l\<rparr>"
      using Some f by (simp add: ashmem_release_def s(1))
    have "map_of (xs @ ys) = (map_of (am_areas st))(a := None)"
      unfolding s(1) map_of_middle(1) [OF s(2,3)] using map_of_middle(2) [OF s(2,3)] by (simp add: fun_upd_idem)
    then show ?thesis using ok by (simp add: r ash_ok_def)
  qed
  then show "ash_ok (ashmem_release a st)" "map_of (am_areas (ashmem_release a st)) = (map_of (am_areas st))(a := None)"
    by simp_all
qed

section \<open>What purging does\<close>

text \<open>The pages of an area, by what is known of them.\<close>

definition unpinned_of :: "ashmem \<Rightarrow> (nat \<times> nat) set" where
  "unpinned_of st = {(a, p). \<exists>x. map_of (am_areas st) a = Some x \<and> p \<in> unpinned_pages (ar_unpinned x)}"

definition flagged_of :: "ashmem \<Rightarrow> (nat \<times> nat) set" where
  "flagged_of st = {(a, p). \<exists>x. map_of (am_areas st) a = Some x \<and> p \<in> flagged_pages (ar_unpinned x)}"

definition hole_pages :: "hole list \<Rightarrow> (nat \<times> nat) set" where
  "hole_pages hs = (\<Union>(a, s, e) \<in> set hs. {a} \<times> {s..e})"

lemma hole_pages_simps [simp]: "hole_pages [] = {}" "hole_pages ((a, s, e) # hs) = {a} \<times> {s..e} \<union> hole_pages hs"
  by (auto simp: hole_pages_def)

lemma lru_entry:
  assumes "ash_ok st" "(a, i) \<in> set (lr_list (am_lru st))"
  obtains x us r vs where "map_of (am_areas st) a = Some x" "ar_unpinned x = us @ r # vs" "rg_id r = i" "\<not> rg_purged r"
    "find_range a i st = Some r" "i \<notin> rg_id ` set us" "i \<notin> rg_id ` set vs"
proof -
  obtain x r where x: "(a, x) \<in> set (am_areas st)" "r \<in> set (ar_unpinned x)" "range_on_lru r" "rg_id r = i"
    using assms by (auto simp: ash_ok_def areas_ok_def live_def)
  have m: "map_of (am_areas st) a = Some x" using assms(1) x(1) by (simp add: ash_ok_def areas_ok_def)
  have d: "distinct (map rg_id (ar_unpinned x))" using assms(1) x(1) by (auto simp: ash_ok_def areas_ok_def lru_fits_def)
  obtain us vs where u: "ar_unpinned x = us @ r # vs" using split_list [OF x(2)] by blast
  have n: "i \<notin> rg_id ` set us" "i \<notin> rg_id ` set vs" using d x(4) by (auto simp: u)
  have "List.find (\<lambda>r. rg_id r = i) (us @ r # vs) = Some r" using n(1) x(4) by (induction us) auto
  then show thesis using m u x(3,4) n
    by (intro that [of x us r vs]) (simp_all add: find_range_def range_on_lru_def)
qed

lemma pages_of_area:
  assumes "map_of (am_areas st) a = Some x"
  shows "unpinned_of st = {q \<in> unpinned_of st. fst q \<noteq> a} \<union> {a} \<times> unpinned_pages (ar_unpinned x)"
    "flagged_of st = {q \<in> flagged_of st. fst q \<noteq> a} \<union> {a} \<times> flagged_pages (ar_unpinned x)"
  using assms by (auto simp: unpinned_of_def flagged_of_def)

lemma pages_of_change:
  assumes "map_of (am_areas st') = (map_of (am_areas st))(a \<mapsto> x')"
  shows "unpinned_of st' = {q \<in> unpinned_of st. fst q \<noteq> a} \<union> {a} \<times> unpinned_pages (ar_unpinned x')"
    "flagged_of st' = {q \<in> flagged_of st. fst q \<noteq> a} \<union> {a} \<times> flagged_pages (ar_unpinned x')"
  using assms by (auto simp: unpinned_of_def flagged_of_def split: if_splits)

lemma lru_step_purge:
  assumes "lru_fits a (us @ r # vs) l" "\<not> rg_purged r"
  shows "lru_step a (us @ r # vs) l (us @ r\<lparr>rg_purged := True\<rparr> # vs) (lru_del a r l)"
proof -
  have "lru_step a (us @ r # vs) l (us @ vs) (lru_del a r l)"
    using lru_step_del [OF assms(1)] assms(2) by (simp add: range_del_def range_on_lru_def)
  then show ?thesis using assms(1) by (auto simp: lru_step_def lru_fits_def lru_del_def)
qed

definition same_pages :: "ashmem \<Rightarrow> ashmem \<Rightarrow> bool" where
  "same_pages st st' \<longleftrightarrow> unpinned_of st' = unpinned_of st \<and> flagged_of st \<subseteq> flagged_of st'"

lemma purge_one:
  assumes "ash_ok st" "(a, i) \<in> set (lr_list (am_lru st))" "find_range a i st = Some r"
  defines "st' \<equiv> (mark_purged a i st)\<lparr>am_lru := lru_del a r (am_lru st)\<rparr>"
  shows "ash_ok st'" "same_pages st st'" "{a} \<times> {rg_start r..rg_end r} \<subseteq> flagged_of st'"
    "set (lr_list (am_lru st')) = set (lr_list (am_lru st)) - {(a, i)}"
    "lr_count (am_lru st') = lr_count (am_lru st) - of_nat (range_size r)"
proof -
  obtain x us vs where x: "map_of (am_areas st) a = Some x" "ar_unpinned x = us @ r # vs" "rg_id r = i" "\<not> rg_purged r"
    "i \<notin> rg_id ` set us" "i \<notin> rg_id ` set vs"
    using lru_entry [OF assms(1,2)] assms(3) by (metis option.inject)
  let ?x = "x\<lparr>ar_unpinned := us @ r\<lparr>rg_purged := True\<rparr> # vs\<rparr>"
  have unchanged: "map (\<lambda>r. if rg_id r = i then r\<lparr>rg_purged := True\<rparr> else r) zs = zs" if "i \<notin> rg_id ` set zs" for zs :: "range list"
    using that by (induction zs) auto
  have st': "st' = (set_area a ?x st)\<lparr>am_lru := lru_del a r (am_lru st)\<rparr>"
    using x unchanged [OF x(5)] unchanged [OF x(6)] by (simp add: st'_def mark_purged_def)
  obtain xs ys where f: "lru_fits a (ar_unpinned x) (am_lru st)" "ranges_ok (ar_unpinned x)" by (rule ash_ok_split [OF assms(1) x(1)])
  have s: "lru_step a (ar_unpinned x) (am_lru st) (ar_unpinned ?x) (lru_del a r (am_lru st))"
    using lru_step_purge [of a us r vs] f(1) x(2,4) by simp
  have ok: "ranges_ok (ar_unpinned ?x)" using f(2) x(2) by (auto simp: ranges_ok_append ranges_ok_Cons)
  note c = ash_ok_change [OF assms(1) x(1) s ok]
  show "ash_ok st'" using c(1) by (simp add: st')
  have m: "map_of (am_areas st') = (map_of (am_areas st))(a \<mapsto> ?x)" using c(2) by (simp add: st')
  have pg: "unpinned_pages (ar_unpinned ?x) = unpinned_pages (ar_unpinned x)"
    "flagged_pages (ar_unpinned x) \<subseteq> flagged_pages (ar_unpinned ?x)" "{rg_start r..rg_end r} \<subseteq> flagged_pages (ar_unpinned ?x)"
    using x(2,4) by (auto simp: range_pages_def)
  show "same_pages st st'"
    unfolding same_pages_def pages_of_change [OF m] pg(1)
  proof
    show "{q \<in> unpinned_of st. fst q \<noteq> a} \<union> {a} \<times> unpinned_pages (ar_unpinned x) = unpinned_of st"
      by (rule pages_of_area(1) [OF x(1), symmetric])
    have "{a} \<times> flagged_pages (ar_unpinned x) \<subseteq> {a} \<times> flagged_pages (ar_unpinned ?x)" using pg(2) by blast
    from ord_eq_le_trans [OF pages_of_area(2) [OF x(1)] Un_mono [OF order_refl this]]
    show "flagged_of st \<subseteq> {q \<in> flagged_of st. fst q \<noteq> a} \<union> {a} \<times> flagged_pages (ar_unpinned ?x)" .
  qed
  show "{a} \<times> {rg_start r..rg_end r} \<subseteq> flagged_of st'" using pg(3) by (auto simp: flagged_of_def m)
  have "distinct (lr_list (am_lru st))" using assms(1) by (simp add: ash_ok_def areas_ok_def)
  then show "set (lr_list (am_lru st')) = set (lr_list (am_lru st)) - {(a, i)}"
    using x(3) by (simp add: st' lru_del_def)
  show "lr_count (am_lru st') = lr_count (am_lru st) - of_nat (range_size r)" by (simp add: st' lru_del_def)
qed

lemma purged_unpinned: "{a} \<times> {s..e} \<subseteq> flagged_of st \<Longrightarrow> {a} \<times> {s..e} \<subseteq> unpinned_of st"
  using flagged_unpinned by (fastforce simp: flagged_of_def unpinned_of_def)

lemma shrink_loop_ok:
  "ash_ok st \<Longrightarrow> set xs \<subseteq> set (lr_list (am_lru st)) \<Longrightarrow> distinct xs \<Longrightarrow>
     \<exists>hs freed st'. shrink_loop n xs st = Inr (hs, freed, st') \<and> ash_ok st' \<and> same_pages st st' \<and>
       hole_pages hs \<subseteq> flagged_of st' \<and> hole_pages hs \<subseteq> unpinned_of st \<and>
       lr_count (am_lru st') = lr_count (am_lru st) - freed"
proof (induction xs arbitrary: n st)
  case Nil
  then show ?case by (simp add: same_pages_def)
next
  case (Cons y xs)
  obtain a i where y: "y = (a, i)" by (cases y)
  have mem: "(a, i) \<in> set (lr_list (am_lru st))" using Cons.prems(2) y by simp
  obtain r where r: "find_range a i st = Some r" by (rule lru_entry [OF Cons.prems(1) mem])
  define st1 where "st1 = (mark_purged a i st)\<lparr>am_lru := lru_del a r (am_lru st)\<rparr>"
  note p = purge_one [OF Cons.prems(1) mem r, folded st1_def]
  have un: "{a} \<times> {rg_start r..rg_end r} \<subseteq> unpinned_of st"
    using purged_unpinned [OF p(3)] p(2) by (simp add: same_pages_def)
  show ?case
  proof (cases "n - 1 = 0")
    case True
    then show ?thesis using r p un unfolding y by (simp add: st1_def [symmetric])
  next
    case False
    have "set xs \<subseteq> set (lr_list (am_lru st1))" "distinct xs" using Cons.prems(2,3) p(4) by (auto simp: y)
    from Cons.IH [OF p(1) this, of "n - 1"] obtain hs freed st' where
      s: "shrink_loop (n - 1) xs st1 = Inr (hs, freed, st')" "ash_ok st'" "same_pages st1 st'" "hole_pages hs \<subseteq> flagged_of st'"
      "hole_pages hs \<subseteq> unpinned_of st1" "lr_count (am_lru st') = lr_count (am_lru st1) - freed" by blast
    have "shrink_loop n (y # xs) st = Inr ((a, rg_start r, rg_end r) # hs, of_nat (range_size r) + freed, st')"
      using r s(1) False unfolding y by (simp add: st1_def [symmetric])
    moreover have "{a} \<times> {rg_start r..rg_end r} \<subseteq> flagged_of st'" using p(3) s(3) unfolding same_pages_def by blast
    moreover have "same_pages st st'" using p(2) s(3) by (auto simp: same_pages_def)
    moreover have "hole_pages hs \<subseteq> unpinned_of st" using s(5) p(2) by (simp add: same_pages_def)
    ultimately show ?thesis using s(2,4,6) un p(5) by simp
  qed
qed

lemma shrink_scan_ok:
  assumes "ash_ok st" "ashmem_shrink_scan True n st = Inr (hs, freed, st')"
  shows "ash_ok st' \<and> same_pages st st' \<and> hole_pages hs \<subseteq> flagged_of st' \<and> hole_pages hs \<subseteq> unpinned_of st \<and>
    lr_count (am_lru st') = lr_count (am_lru st) - freed"
proof -
  have "distinct (lr_list (am_lru st))" using assms(1) by (simp add: ash_ok_def areas_ok_def)
  from shrink_loop_ok [OF assms(1) subset_refl this, of n] assms(2) show ?thesis by (auto simp: ashmem_shrink_scan_def)
qed

section \<open>Runs of the driver\<close>

text \<open>The pages whose loss a call of \<open>ASHMEM_PIN\<close> must report.\<close>

definition told :: "nat \<Rightarrow> ioctl \<Rightarrow> area \<Rightarrow> (nat \<times> nat) set" where
  "told a c x =
     (case c of
        Pin (Some (offset, len)) \<Rightarrow>
          (case pin_pages (ar_size x) offset len of
             Some (s, e) \<Rightarrow> if ar_file x then {a} \<times> {s..e} else {}
           | None \<Rightarrow> {})
      | _ \<Rightarrow> {})"

text \<open>
  A run in which memory is there for every range, with the pages whose contents were lost to
  purging and not yet reported to the user who pinned them again.
\<close>

inductive ash_run :: "ashmem \<Rightarrow> (nat \<times> nat) set \<Rightarrow> bool" where
  run_init: "ash_run ashmem_init {}"
| run_open: "ash_run st lost \<Longrightarrow> a \<notin> fst ` set (am_areas st) \<Longrightarrow> ashmem_open generic memory a st = (ret, st') \<Longrightarrow> ash_run st' lost"
| run_release: "ash_run st lost \<Longrightarrow> ash_run (ashmem_release a st) {q \<in> lost. fst q \<noteq> a}"
| run_read: "ash_run st lost \<Longrightarrow> map_of (am_areas st) a = Some x \<Longrightarrow> ashmem_read answer x = (ret, x') \<Longrightarrow>
    ash_run (set_area a x' st) lost"
| run_llseek: "ash_run st lost \<Longrightarrow> map_of (am_areas st) a = Some x \<Longrightarrow> ashmem_llseek answer x = (ret, x') \<Longrightarrow>
    ash_run (set_area a x' st) lost"
| run_mmap: "ash_run st lost \<Longrightarrow> map_of (am_areas st) a = Some x \<Longrightarrow>
    ashmem_mmap prot_bits file_setup zero_setup vm_flags x = (ret, flags, x') \<Longrightarrow> ash_run (set_area a x' st) lost"
| run_ioctl: "ash_run st lost \<Longrightarrow> map_of (am_areas st) a = Some x \<Longrightarrow> ashmem_ioctl True rie a c x st = Inr (ret, out, hs, st') \<Longrightarrow>
    ash_run st' (lost - told a c x \<union> hole_pages hs)"
| run_shrink: "ash_run st lost \<Longrightarrow> ashmem_shrink_scan gfp_fs n st = Inr (hs, freed, st') \<Longrightarrow> ash_run st' (lost \<union> hole_pages hs)"

lemma pin_pages_order:
  assumes "pin_pages sz offset len = Some (s, e)"
  shows "s \<le> Suc e"
proof -
  define n where "n = (if len = 0 then ucast (page_align sz - ucast offset) else len)"
  define k where "k = s + unat n div PAGE_SIZE"
  have se: "s = unat offset div PAGE_SIZE" "e = unat (of_nat k - 1 :: u64)"
    using assms by (auto simp: pin_pages_def n_def [symmetric] k_def Let_def split: if_splits)
  have "k < 2 ^ 64"
  proof -
    have "unat offset < 2 ^ 32" "unat n < 2 ^ 32" using unsigned_less [of offset] unsigned_less [of n] by simp_all
    then show ?thesis unfolding k_def se(1)
      by (intro le_less_trans [OF add_mono [OF div_le_dividend div_le_dividend]]) simp
  qed
  show ?thesis
  proof (cases k)
    case 0
    then show ?thesis by (simp add: k_def)
  next
    case (Suc j)
    then have "(of_nat k - 1 :: u64) = of_nat j" by simp
    then have "e = j" using se(2) \<open>k < 2 ^ 64\<close> Suc unat_of_nat_eq_u64 [of j] by simp
    then show ?thesis using Suc by (simp add: k_def)
  qed
qed

text \<open>What the three calls on pages do to an area, when memory is there.\<close>

lemma with_pages_cases:
  assumes "with_pages pin x f y = (ret, y')"
  obtains (refused) "ret < 0" "y' = y" "\<forall>offset len s e. pin = Some (offset, len) \<and> ar_file x \<longrightarrow> pin_pages (ar_size x) offset len \<noteq> Some (s, e)"
  | (pages) offset len s e where "pin = Some (offset, len)" "ar_file x" "pin_pages (ar_size x) offset len = Some (s, e)"
      "s \<le> Suc e" "f s e = (ret, y')"
  using assms pin_pages_order
  by (auto simp: with_pages_def EINVAL_def EFAULT_def split: if_splits option.splits prod.splits)

lemma with_unpinned_ok:
  assumes "ash_ok st" "map_of (am_areas st) a = Some x" "lru_step a (ar_unpinned x) (am_lru st) rs' l'" "ranges_ok rs'"
  shows "ash_ok (with_unpinned a x (rs', l') st)"
    "unpinned_of (with_unpinned a x (rs', l') st) = {q \<in> unpinned_of st. fst q \<noteq> a} \<union> {a} \<times> unpinned_pages rs'"
    "flagged_of (with_unpinned a x (rs', l') st) = {q \<in> flagged_of st. fst q \<noteq> a} \<union> {a} \<times> flagged_pages rs'"
proof -
  let ?x = "x\<lparr>ar_unpinned := rs'\<rparr>"
  have "lru_step a (ar_unpinned x) (am_lru st) (ar_unpinned ?x) l'" "ranges_ok (ar_unpinned ?x)" using assms(3,4) by simp_all
  note c = ash_ok_change [OF assms(1,2) this]
  have m: "map_of (am_areas (with_unpinned a x (rs', l') st)) = (map_of (am_areas st))(a \<mapsto> ?x)"
    using c(2) by (simp add: with_unpinned_def)
  show "ash_ok (with_unpinned a x (rs', l') st)" using c(1) by (simp add: with_unpinned_def)
  show "unpinned_of (with_unpinned a x (rs', l') st) = {q \<in> unpinned_of st. fst q \<noteq> a} \<union> {a} \<times> unpinned_pages rs'"
    "flagged_of (with_unpinned a x (rs', l') st) = {q \<in> flagged_of st. fst q \<noteq> a} \<union> {a} \<times> flagged_pages rs'"
    using pages_of_change [OF m] by simp_all
qed

lemma area_member:
  assumes "S = {q \<in> S. fst q \<noteq> a} \<union> {a} \<times> U"
  shows "(a, p) \<in> S \<longleftrightarrow> p \<in> U"
  using eqset_imp_iff [OF assms, of "(a, p)"] by simp

lemma area_diff:
  assumes "S = {q \<in> S. fst q \<noteq> a} \<union> {a} \<times> U"
  shows "{q \<in> S. fst q \<noteq> a} \<union> {a} \<times> (U - X) = S - {a} \<times> X"
  using area_member [OF assms] by auto

lemma area_union:
  assumes "S = {q \<in> S. fst q \<noteq> a} \<union> {a} \<times> U"
  shows "{q \<in> S. fst q \<noteq> a} \<union> {a} \<times> (U \<union> X) = S \<union> {a} \<times> X"
  using area_member [OF assms] by auto

lemma pin_call_ok:
  assumes "ash_ok st" "map_of (am_areas st) a = Some x" "s \<le> Suc e"
    and "ashmem_pin True a s e (ar_unpinned x) (am_lru st) = (p, r)"
  shows "ash_ok (with_unpinned a x r st)" "unpinned_of (with_unpinned a x r st) = unpinned_of st - {a} \<times> {s..e}"
    "flagged_of (with_unpinned a x r st) = flagged_of st - {a} \<times> {s..e}" "flagged_of st \<inter> {a} \<times> {s..e} \<noteq> {} \<Longrightarrow> p"
proof -
  obtain rs' l' where r: "r = (rs', l')" by (cases r)
  obtain xs ys where f: "lru_fits a (ar_unpinned x) (am_lru st)" "ranges_ok (ar_unpinned x)" by (rule ash_ok_split [OF assms(1,2)])
  note pin = assms(4) [unfolded r]
  have pd: "pinned s e (ar_unpinned x) p rs'" by (rule pin_pages_ok [OF pin f(2) assms(3)])
  have st: "lru_step a (ar_unpinned x) (am_lru st) rs' l'"
    by (rule pin_lru_ok [OF pin f(1) assms(3)]) (use f(2) in \<open>simp add: ranges_ok_def\<close>)
  have ok: "ranges_ok rs'" using pd by (simp add: pinned_def)
  note w = with_unpinned_ok [OF assms(1,2) st ok]
  show "ash_ok (with_unpinned a x r st)" using w(1) r by simp
  show "unpinned_of (with_unpinned a x r st) = unpinned_of st - {a} \<times> {s..e}"
    unfolding r w(2) using area_diff [OF pages_of_area(1) [OF assms(2)], of "{s..e}"] pd by (simp add: pinned_def)
  show "flagged_of (with_unpinned a x r st) = flagged_of st - {a} \<times> {s..e}"
    unfolding r w(3) using area_diff [OF pages_of_area(2) [OF assms(2)], of "{s..e}"] pd by (simp add: pinned_def)
  show "flagged_of st \<inter> {a} \<times> {s..e} \<noteq> {} \<Longrightarrow> p"
    using pd assms(2) by (force simp: pinned_def flagged_of_def)
qed

lemma unpin_call_ok:
  assumes "ash_ok st" "map_of (am_areas st) a = Some x" "s \<le> Suc e"
    and "ashmem_unpin True a False s e (ar_unpinned x) (am_lru st) = (ret, r)"
  shows "ret = 0" "ash_ok (with_unpinned a x r st)" "unpinned_of (with_unpinned a x r st) = unpinned_of st \<union> {a} \<times> {s..e}"
    "flagged_of st \<subseteq> flagged_of (with_unpinned a x r st)"
proof -
  obtain rs' l' where r: "r = (rs', l')" by (cases r)
  obtain xs ys where f: "lru_fits a (ar_unpinned x) (am_lru st)" "ranges_ok (ar_unpinned x)" by (rule ash_ok_split [OF assms(1,2)])
  note un = assms(4) [unfolded r]
  have pg: "ret = 0 \<and> ranges_ok rs' \<and> unpinned_pages rs' = unpinned_pages (ar_unpinned x) \<union> {s..e} \<and>
      flagged_pages (ar_unpinned x) \<subseteq> flagged_pages rs'"
    using unpin_pages_ok [OF un f(2) assms(3), of "{}"] by simp
  have st: "lru_step a (ar_unpinned x) (am_lru st) rs' l'" by (rule unpin_lru_ok [OF un f(1)])
  have ok: "ranges_ok rs'" using pg by simp
  note w = with_unpinned_ok [OF assms(1,2) st ok]
  show "ret = 0" "ash_ok (with_unpinned a x r st)" using pg w(1) r by simp_all
  show "unpinned_of (with_unpinned a x r st) = unpinned_of st \<union> {a} \<times> {s..e}"
    unfolding r w(2) using area_union [OF pages_of_area(1) [OF assms(2)], of "{s..e}"] pg by simp
  show "flagged_of st \<subseteq> flagged_of (with_unpinned a x r st)"
    unfolding r w(3) using area_member [OF pages_of_area(2) [OF assms(2)]] pg by auto
qed

lemma told_pin: "ar_file x \<Longrightarrow> pin_pages (ar_size x) offset len = Some (s, e) \<Longrightarrow> told a (Pin (Some (offset, len))) x = {a} \<times> {s..e}"
  by (simp add: told_def)

lemma shrink_ok:
  assumes "ash_ok st" "ashmem_shrink_scan gfp_fs n st = Inr (hs, freed, st')"
  shows "ash_ok st'" "flagged_of st \<union> hole_pages hs \<subseteq> flagged_of st'" "hole_pages hs \<subseteq> unpinned_of st" "unpinned_of st' = unpinned_of st"
proof -
  have "ash_ok st' \<and> flagged_of st \<union> hole_pages hs \<subseteq> flagged_of st' \<and> hole_pages hs \<subseteq> unpinned_of st \<and>
      unpinned_of st' = unpinned_of st"
  proof (cases gfp_fs)
    case True
    with shrink_scan_ok [OF assms(1), of n hs freed st'] assms(2) show ?thesis by (simp add: same_pages_def)
  qed (use assms in \<open>simp add: ashmem_shrink_scan_def\<close>)
  then show "ash_ok st'" "flagged_of st \<union> hole_pages hs \<subseteq> flagged_of st'" "hole_pages hs \<subseteq> unpinned_of st"
    "unpinned_of st' = unpinned_of st" by simp_all
qed

lemma unchanged_area:
  assumes "ash_ok st" "map_of (am_areas st) a = Some x" "ar_unpinned x' = ar_unpinned x"
  shows "ash_ok (set_area a x' st)" "flagged_of (set_area a x' st) = flagged_of st" "unpinned_of (set_area a x' st) = unpinned_of st"
proof -
  note c = ash_ok_same [OF assms]
  show "ash_ok (set_area a x' st)" by (rule c(1))
  show "flagged_of (set_area a x' st) = flagged_of st" "unpinned_of (set_area a x' st) = unpinned_of st"
    using pages_of_change [OF c(2)] pages_of_area [OF assms(2)] assms(3) by simp_all
qed

lemma ioctl_ok:
  assumes "ash_ok st" "map_of (am_areas st) a = Some x" "ashmem_ioctl True rie a c x st = Inr (ret, out, hs, st')"
  shows "ash_ok st' \<and> flagged_of st - told a c x \<union> hole_pages hs \<subseteq> flagged_of st'"
proof -
  note same = unchanged_area [OF assms(1,2)]
  show ?thesis
  proof (cases c)
    case (Set_name name)
    obtain x' where x': "set_name name x = (ret, x')" "hs = []" "st' = set_area a x' st"
      using assms(3) Set_name by (auto split: prod.splits)
    moreover have "ar_unpinned x' = ar_unpinned x" using x'(1) by (auto simp: set_name_def Let_def split: option.splits if_splits)
    ultimately show ?thesis using same [of x'] by auto
  next
    case (Set_size n)
    then show ?thesis using assms(1,3) same [of "x\<lparr>ar_size := n\<rparr>"] by (auto split: if_splits)
  next
    case (Set_prot_mask prot)
    obtain x' where x': "set_prot_mask rie prot x = (ret, x')" "hs = []" "st' = set_area a x' st"
      using assms(3) Set_prot_mask by (auto split: prod.splits)
    moreover have "ar_unpinned x' = ar_unpinned x" using x'(1) by (auto simp: set_prot_mask_def split: if_splits)
    ultimately show ?thesis using same [of x'] by auto
  next
    case (Pin pin)
    have h: "hs = []" using assms(3) Pin by (auto split: prod.splits)
    have w: "with_pages pin x (\<lambda>s e. case ashmem_pin True a s e (ar_unpinned x) (am_lru st) of
        (p, r) \<Rightarrow> (of_bool p, with_unpinned a x r st)) st = (ret, st')"
      using assms(3) Pin by (auto split: prod.splits)
    from w show ?thesis
    proof (cases rule: with_pages_cases)
      case refused
      then show ?thesis using assms(1) h by auto
    next
      case (pages offset len s e)
      obtain p r where pr: "ashmem_pin True a s e (ar_unpinned x) (am_lru st) = (p, r)" by (cases "ashmem_pin True a s e (ar_unpinned x) (am_lru st)")
      from pin_call_ok [OF assms(1,2) pages(4) pr] pages(5) pr h told_pin [OF pages(2,3), of a] show ?thesis
        unfolding Pin pages(1) by auto
    qed
  next
    case (Unpin pin)
    have h: "hs = []" using assms(3) Unpin by (auto split: prod.splits)
    have w: "with_pages pin x (\<lambda>s e. case ashmem_unpin True a False s e (ar_unpinned x) (am_lru st) of
        (ret, r) \<Rightarrow> (ret, with_unpinned a x r st)) st = (ret, st')"
      using assms(3) Unpin by (auto split: prod.splits)
    from w show ?thesis
    proof (cases rule: with_pages_cases)
      case refused
      then show ?thesis using assms(1) h by auto
    next
      case (pages offset len s e)
      obtain q r where pr: "ashmem_unpin True a False s e (ar_unpinned x) (am_lru st) = (q, r)"
        by (cases "ashmem_unpin True a False s e (ar_unpinned x) (am_lru st)")
      from unpin_call_ok [OF assms(1,2) pages(4) pr] pages(5) pr h show ?thesis by auto
    qed
  next
    case (Get_pin_status pin)
    have "with_pages pin x (\<lambda>s e. (of_bool (\<not> ashmem_get_pin_status s e (ar_unpinned x)), st)) st = (ret, st')" "hs = []"
      using assms(3) Get_pin_status by (auto split: prod.splits)
    then have "st' = st" by (auto elim: with_pages_cases)
    then show ?thesis using assms(1) \<open>hs = []\<close> by auto
  next
    case (Purge_all_caches capable)
    show ?thesis
    proof (cases capable)
      case True
      then obtain freed where "ashmem_shrink_scan True (2 ^ 63 - 1) st = Inr (hs, freed, st')"
        using assms(3) Purge_all_caches by (auto simp: rbind_eq_Inr)
      from shrink_ok [OF assms(1) this] show ?thesis by auto
    qed (use assms(1,3) Purge_all_caches in auto)
  qed (use assms(1,3) in \<open>auto split: prod.splits\<close>)
qed

lemma ash_run_ok: "ash_run st lost \<Longrightarrow> ash_ok st \<and> lost \<subseteq> flagged_of st"
proof (induction rule: ash_run.induct)
  case run_init
  then show ?case by (simp add: ash_ok_def areas_ok_def ashmem_init_def)
next
  case (run_open st lost a generic memory ret st')
  show ?case
  proof (cases "memory \<and> generic = 0")
    case True
    then have st': "st' = st\<lparr>am_areas := (a, new_area) # am_areas st\<rparr>" using run_open.hyps(3) by (simp add: ashmem_open_def)
    have "map_of (am_areas st) a = None" using run_open.hyps(2) by (simp add: map_of_eq_None_iff)
    then have "flagged_of st \<subseteq> flagged_of st'" by (auto simp: flagged_of_def st')
    with run_open.IH areas_ok_new [OF _ run_open.hyps(2)] show ?thesis by (auto simp: ash_ok_def st')
  qed (use run_open in \<open>auto simp: ashmem_open_def split: if_splits\<close>)
next
  case (run_release st lost a)
  have "{q \<in> flagged_of st. fst q \<noteq> a} \<subseteq> flagged_of (ashmem_release a st)"
    using ash_ok_release(2) [of st a] run_release.IH by (auto simp: flagged_of_def)
  with run_release.IH ash_ok_release(1) show ?case by blast
next
  case (run_read st lost a x answer ret x')
  then have "ar_unpinned x' = ar_unpinned x" by (auto simp: ashmem_read_def Let_def split: if_splits)
  with unchanged_area [of st a x x'] run_read show ?case by simp
next
  case (run_llseek st lost a x answer ret x')
  then have "ar_unpinned x' = ar_unpinned x" by (auto simp: ashmem_llseek_def Let_def split: if_splits)
  with unchanged_area [of st a x x'] run_llseek show ?case by simp
next
  case (run_mmap st lost a x prot_bits file_setup zero_setup vm_flags ret flags x')
  then have "ar_unpinned x' = ar_unpinned x" by (auto simp: ashmem_mmap_def Let_def split: if_splits)
  with unchanged_area [of st a x x'] run_mmap show ?case by simp
next
  case (run_ioctl st lost a x rie c ret out hs st')
  with ioctl_ok [of st a x rie c ret out hs st'] show ?case by blast
next
  case (run_shrink st lost gfp_fs n hs freed st')
  with shrink_ok [of st gfp_fs n hs freed st'] show ?case by blast
qed

section \<open>What the driver guarantees\<close>

lemma pin_ioctl:
  assumes "ash_ok st" "map_of (am_areas st) a = Some x" "ar_file x" "pin_pages (ar_size x) offset len = Some (s, e)"
  shows "\<exists>p st'. ashmem_ioctl True rie a (Pin (Some (offset, len))) x st = Inr (of_bool p, [], [], st') \<and>
    unpinned_of st' = unpinned_of st - {a} \<times> {s..e} \<and> (flagged_of st \<inter> {a} \<times> {s..e} \<noteq> {} \<longrightarrow> p)"
proof -
  obtain p r where pr: "ashmem_pin True a s e (ar_unpinned x) (am_lru st) = (p, r)"
    by (cases "ashmem_pin True a s e (ar_unpinned x) (am_lru st)")
  with assms(3,4) have "ashmem_ioctl True rie a (Pin (Some (offset, len))) x st = Inr (of_bool p, [], [], with_unpinned a x r st)"
    by (simp add: with_pages_def)
  with pin_call_ok(2,4) [OF assms(1,2) pin_pages_order [OF assms(4)] pr] show ?thesis by blast
qed

text \<open>
  C9. Loss is never silent: in every run in which memory is found for the ranges, if a page of an
  area was purged while it was unpinned and its user was not told since, then the pinning of a
  region that holds the page answers \<open>ASHMEM_WAS_PURGED\<close>, and the page is pinned again.
\<close>

theorem no_silent_loss:
  assumes "ash_run st lost" "map_of (am_areas st) a = Some x" "ar_file x"
    and "pin_pages (ar_size x) offset len = Some (s, e)" "(a, p) \<in> lost" "s \<le> p" "p \<le> e"
  shows "\<exists>st'. ashmem_ioctl True rie a (Pin (Some (offset, len))) x st = Inr (1, [], [], st') \<and> (a, p) \<notin> unpinned_of st'"
proof -
  have ok: "ash_ok st" "(a, p) \<in> flagged_of st" using ash_run_ok [OF assms(1)] assms(5) by auto
  moreover have "(a, p) \<in> {a} \<times> {s..e}" using assms(6,7) by simp
  ultimately have "flagged_of st \<inter> {a} \<times> {s..e} \<noteq> {}" by blast
  with pin_ioctl [OF ok(1) assms(2-4), of rie] \<open>(a, p) \<in> {a} \<times> {s..e}\<close> show ?thesis by fastforce
qed

text \<open>
  C10. Purging spares what is pinned: in every such run a call of the shrinker meets no range that is
  gone, punches holes only in pages that are unpinned, changes nothing about which pages are
  pinned, frees as many pages as it takes off the count, and the count it reports to the kernel is
  the number of pages in the ranges not purged yet, which are exactly those on the list.
\<close>

theorem purge_spares_pinned:
  assumes "ash_run st lost"
  shows "(\<exists>hs freed st'. ashmem_shrink_scan True n st = Inr (hs, freed, st') \<and> hole_pages hs \<subseteq> unpinned_of st \<and>
      unpinned_of st' = unpinned_of st \<and> ashmem_shrink_count st' = ashmem_shrink_count st - freed) \<and>
    ashmem_shrink_count st =
      (\<Sum>(a, x) \<leftarrow> am_areas st. \<Sum>r \<leftarrow> filter range_on_lru (ar_unpinned x). of_nat (range_size r)) \<and>
    distinct (lr_list (am_lru st)) \<and>
    set (lr_list (am_lru st)) =
      {(a, rg_id r) | a x r. (a, x) \<in> set (am_areas st) \<and> r \<in> set (ar_unpinned x) \<and> \<not> rg_purged r}"
proof (intro conjI)
  have ok: "ash_ok st" using ash_run_ok [OF assms] by simp
  have d: "distinct (lr_list (am_lru st))" using ok by (simp add: ash_ok_def areas_ok_def)
  from shrink_loop_ok [OF ok subset_refl d, of n]
  show "\<exists>hs freed st'. ashmem_shrink_scan True n st = Inr (hs, freed, st') \<and> hole_pages hs \<subseteq> unpinned_of st \<and>
      unpinned_of st' = unpinned_of st \<and> ashmem_shrink_count st' = ashmem_shrink_count st - freed"
    by (auto simp: ashmem_shrink_scan_def ashmem_shrink_count_def same_pages_def)
  show "ashmem_shrink_count st = (\<Sum>(a, x) \<leftarrow> am_areas st. \<Sum>r \<leftarrow> filter range_on_lru (ar_unpinned x). of_nat (range_size r))"
    using ok by (simp add: ash_ok_def areas_ok_def ashmem_shrink_count_def weight_def)
  show "distinct (lr_list (am_lru st))" by (rule d)
  have "set (lr_list (am_lru st)) = (\<Union>(a, x) \<in> set (am_areas st). live a (ar_unpinned x))"
    using ok by (simp add: ash_ok_def areas_ok_def)
  then show "set (lr_list (am_lru st)) =
      {(a, rg_id r) | a x r. (a, x) \<in> set (am_areas st) \<and> r \<in> set (ar_unpinned x) \<and> \<not> rg_purged r}"
    by (auto simp: live_def range_on_lru_def)
qed

text \<open>
  C11. The ranges of an area stand for a set of unpinned pages: in every such run, for a region that
  passes the checks, \<open>ASHMEM_PIN\<close> takes its pages out of the set, \<open>ASHMEM_UNPIN\<close> succeeds and puts them
  in, and \<open>ASHMEM_GET_PIN_STATUS\<close> answers that it is unpinned when any of its pages is in the set; the
  pages of other areas stay as they are.
\<close>

theorem ashmem_refines_page_set:
  assumes "ash_run st lost" "map_of (am_areas st) a = Some x" "ar_file x" "pin_pages (ar_size x) offset len = Some (s, e)"
  shows "(\<exists>ret st'. ashmem_ioctl True rie a (Pin (Some (offset, len))) x st = Inr (ret, [], [], st') \<and>
      unpinned_of st' = unpinned_of st - {a} \<times> {s..e}) \<and>
    (\<exists>st'. ashmem_ioctl True rie a (Unpin (Some (offset, len))) x st = Inr (0, [], [], st') \<and>
      unpinned_of st' = unpinned_of st \<union> {a} \<times> {s..e}) \<and>
    (unpinned_of st \<inter> {a} \<times> {s..e} \<noteq> {} \<longrightarrow>
      ashmem_ioctl True rie a (Get_pin_status (Some (offset, len))) x st = Inr (0, [], [], st))"
proof (intro conjI impI)
  have ok: "ash_ok st" using ash_run_ok [OF assms(1)] by simp
  note pages = assms(2-4) and se = pin_pages_order [OF assms(4)]
  show "\<exists>ret st'. ashmem_ioctl True rie a (Pin (Some (offset, len))) x st = Inr (ret, [], [], st') \<and>
      unpinned_of st' = unpinned_of st - {a} \<times> {s..e}"
    using pin_ioctl [OF ok pages, of rie] by blast
  obtain q r where un: "ashmem_unpin True a False s e (ar_unpinned x) (am_lru st) = (q, r)"
    by (cases "ashmem_unpin True a False s e (ar_unpinned x) (am_lru st)")
  note u = unpin_call_ok [OF ok assms(2) se un]
  have "ashmem_ioctl True rie a (Unpin (Some (offset, len))) x st = Inr (0, [], [], with_unpinned a x r st)"
    using assms(3,4) un u(1) by (simp add: with_pages_def)
  then show "\<exists>st'. ashmem_ioctl True rie a (Unpin (Some (offset, len))) x st = Inr (0, [], [], st') \<and>
      unpinned_of st' = unpinned_of st \<union> {a} \<times> {s..e}" using u(3) by blast
  assume "unpinned_of st \<inter> {a} \<times> {s..e} \<noteq> {}"
  then have "unpinned_pages (ar_unpinned x) \<inter> {s..e} \<noteq> {}" using assms(2) by (auto simp: unpinned_of_def)
  moreover have "ranges_ok (ar_unpinned x)" using ok map_of_SomeD [OF assms(2)] by (auto simp: ash_ok_def areas_ok_def)
  ultimately show "ashmem_ioctl True rie a (Get_pin_status (Some (offset, len))) x st = Inr (0, [], [], st)"
    using pin_status_ok assms(3,4) by (simp add: with_pages_def)
qed

text \<open>
  A failed allocation makes loss silent: when pages in the middle of a purged range are pinned
  and there is no memory for the range of the pages above them, \<open>ashmem_pin\<close> ignores the failure;
  pinning the pages above, whose contents are lost as well, then answers \<open>ASHMEM_NOT_PURGED\<close>.
\<close>

theorem failed_split_forgets:
  assumes "rg_purged r" "rg_start r < s" "s \<le> e" "e < rg_end r"
  shows "\<exists>r' l'. ashmem_pin False a s e [r] l = (True, [r'], l') \<and> flagged_pages [r] \<inter> {e + 1..rg_end r} \<noteq> {} \<and>
    ashmem_pin memory a (e + 1) (rg_end r) [r'] l' = (False, [r'], l')"
proof -
  let ?r' = "r\<lparr>rg_end := s - 1\<rparr>"
  have "ashmem_pin False a s e [r] l = (True, [?r'], l)"
    using assms by (simp add: range_tests range_alloc_def range_shrink_def Let_def range_on_lru_def)
  moreover have "ashmem_pin memory a (e + 1) (rg_end r) [?r'] l = (False, [?r'], l)"
  proof -
    have "range_before_page ?r' (e + 1)" using assms(2,3) by (simp add: range_before_page_def)
    then show ?thesis by simp
  qed
  moreover have "e + 1 \<in> flagged_pages [r] \<inter> {e + 1..rg_end r}" using assms by (simp add: range_pages_def)
  ultimately show ?thesis by blast
qed

text \<open>An empty region at the end of an area adds an empty range each time it is unpinned.\<close>

lemma empty_regions_pile_up:
  assumes "\<forall>r \<in> set rs. rg_end r < s"
  shows "\<exists>r l'. ashmem_unpin True a False s (s - 1) rs l = (0, r # rs, l') \<and> range_pages r = {s..s - 1}"
proof -
  have "find_unpinned s (s - 1) rs = Insert" "\<forall>r. insert_range s r rs = r # rs"
    using assms by (cases rs; simp add: range_before_page_def insert_range_def)+
  then show ?thesis
    by (subst ashmem_unpin.simps) (auto simp: range_alloc_def Let_def range_pages_def)
qed

section \<open>Names and protection\<close>

text \<open>A name that was set is read back, cut to 255 characters, and the empty one as the default.\<close>

lemma name_roundtrip:
  assumes "\<not> ar_file x" "set_name (Some s) x = (ret, x')"
  shows "ret = 0 \<and> get_name True x' = (0, if s = [] then ASHMEM_NAME_DEF else take 255 s)"
proof -
  have "ret = 0" "ar_name x' = take 255 s"
    using assms by (auto simp: set_name_def Let_def ASHMEM_NAME_LEN_def split: if_splits)
  then show ?thesis by (auto simp: get_name_def)
qed

text \<open>
  Protection bits only go away, with one exception: for a process whose personality makes reading
  imply execution, the right to execute comes back.
\<close>

lemma prot_mask_shrinks:
  assumes "set_prot_mask rie prot x = (ret, x')"
  shows "ar_prot_mask x' AND NOT (ar_prot_mask x) AND NOT PROT_EXEC = 0"
proof (cases "ar_prot_mask x AND prot = prot")
  case False
  then have "ar_prot_mask x' = ar_prot_mask x" using assms by (simp add: set_prot_mask_def)
  then show ?thesis by (simp add: bit_eq_iff bit_simps)
next
  case True
  then have "ar_prot_mask x' = prot \<or> ar_prot_mask x' = prot OR PROT_EXEC"
    using assms by (auto simp: set_prot_mask_def)
  with True show ?thesis by (auto simp: bit_eq_iff bit_simps)
qed

lemma exec_comes_back:
  "set_prot_mask True PROT_READ (new_area\<lparr>ar_prot_mask := PROT_READ\<rparr>) = (0, new_area\<lparr>ar_prot_mask := PROT_READ OR PROT_EXEC\<rparr>)"
  by (simp add: set_prot_mask_def PROT_READ_def)

section \<open>The loops end early\<close>

lemma pages_meet:
  assumes "rg_start r \<le> rg_end r" "s \<le> e"
  shows "page_range_in_range r s e \<longleftrightarrow> range_pages r \<inter> {s..e} \<noteq> {}"
proof -
  have "range_pages r \<inter> {s..e} \<noteq> {} \<longleftrightarrow> rg_start r \<le> e \<and> s \<le> rg_end r"
    using assms by (auto simp: range_pages_def intro: exI [of _ "max (rg_start r) s"])
  then show ?thesis using assms by (auto simp: range_tests)
qed

lemma before_misses: "\<forall>x \<in> set rs. rg_end x < s \<Longrightarrow> r \<in> set rs \<Longrightarrow> range_pages r \<inter> {s..e} = {}"
  by (fastforce simp: range_pages_def)

lemma pin_answer:
  "ashmem_pin memory a s e rs l = (p, rs', l') \<Longrightarrow> ranges_ok rs \<Longrightarrow> \<forall>r \<in> set rs. rg_start r \<le> rg_end r \<Longrightarrow> s \<le> e \<Longrightarrow>
     p \<longleftrightarrow> (\<exists>r \<in> set rs. rg_purged r \<and> range_pages r \<inter> {s..e} \<noteq> {})"
proof (induction rs arbitrary: l p rs' l')
  case (Cons r rs)
  have ok: "ranges_ok rs" "\<forall>x \<in> set rs. rg_end x < rg_start r" using Cons.prems(2) by (simp_all add: ranges_ok_Cons)
  have meet: "range_pages r \<inter> {s..e} \<noteq> {} \<longleftrightarrow> rg_start r \<le> e \<and> s \<le> rg_end r"
    using pages_meet [of r s e] Cons.prems(3,4) by (auto simp: range_tests)
  note IH = Cons.IH [OF _ ok(1) _ Cons.prems(4)]
  from Cons.prems(1) show ?case
  proof (cases rule: pin_cases)
    case Before
    then have "\<forall>x \<in> set (r # rs). rg_end x < s" using ranges_before [OF Cons.prems(2)] by (simp add: range_before_page_def)
    with Before(2) before_misses show ?thesis by blast
  next
    case (Whole p1)
    then show ?thesis using IH [OF Whole(5)] meet Cons.prems(3,4) by auto
  next
    case (Front p1 r' rs1 l1)
    then show ?thesis using IH [OF Front(7)] meet Cons.prems(3,4) by auto
  next
    case (Rear p1 r' rs1 l1)
    then show ?thesis using IH [OF Rear(7)] meet Cons.prems(3,4) by auto
  next
    case (Middle n r' l1)
    have "\<forall>x \<in> set rs. rg_end x < s" using ok(2) Middle(1) by auto
    with Middle before_misses [of rs s] meet Cons.prems(4) show ?thesis by auto
  next
    case (Middle_fails r')
    have "\<forall>x \<in> set rs. rg_end x < s" using ok(2) Middle_fails(1) by auto
    with Middle_fails before_misses [of rs s] meet Cons.prems(4) show ?thesis by auto
  next
    case (Beyond rs1)
    then show ?thesis using IH [OF Beyond(4)] meet Cons.prems(3) by auto
  qed
qed simp

lemma pin_status_answer:
  "ranges_ok rs \<Longrightarrow> \<forall>r \<in> set rs. rg_start r \<le> rg_end r \<Longrightarrow> s \<le> e \<Longrightarrow>
     ashmem_get_pin_status s e rs \<longleftrightarrow> (\<exists>r \<in> set rs. range_pages r \<inter> {s..e} \<noteq> {})"
proof (induction rs)
  case (Cons r rs)
  show ?case
  proof (cases "range_before_page r s")
    case True
    from before_misses [OF ranges_before [OF Cons.prems(1) True]] True show ?thesis by auto
  next
    case False
    with Cons pages_meet [of r s e] show ?thesis by (simp add: ranges_ok_Cons)
  qed
qed simp


section \<open>A sample run\<close>

text \<open>An area of three pages is created, mapped, unpinned as a whole and purged.\<close>

definition sample_area :: area where
  "sample_area = new_area\<lparr>ar_size := 12288, ar_file := True\<rparr>"

definition sample_purged :: ashmem where
  "sample_purged =
     \<lparr>am_areas = [(0, sample_area\<lparr>ar_unpinned := [\<lparr>rg_id = 0, rg_start = 0, rg_end = 2, rg_purged = True\<rparr>]\<rparr>)],
      am_lru = \<lparr>lr_list = [], lr_count = 0, lr_next = 1\<rparr>\<rparr>"

definition sample_opened :: ashmem where
  "sample_opened = \<lparr>am_areas = [(0, new_area)], am_lru = am_lru ashmem_init\<rparr>"

definition sample_sized :: ashmem where
  "sample_sized = set_area 0 (new_area\<lparr>ar_size := 12288\<rparr>) sample_opened"

definition sample_mapped :: ashmem where
  "sample_mapped = set_area 0 sample_area sample_sized"

definition sample_unpinned :: ashmem where
  "sample_unpinned =
     \<lparr>am_areas = [(0, sample_area\<lparr>ar_unpinned := [\<lparr>rg_id = 0, rg_start = 0, rg_end = 2, rg_purged = False\<rparr>]\<rparr>)],
      am_lru = \<lparr>lr_list = [(0, 0)], lr_count = 3, lr_next = 1\<rparr>\<rparr>"

lemma sample_run: "ash_run sample_purged ({0} \<times> {0..2})"
proof -
  have "ash_run sample_opened {}"
    by (rule run_open [OF run_init, of 0 0 True 0]) (code_simp, code_simp)
  moreover have "map_of (am_areas sample_opened) 0 = Some new_area"
    "ashmem_ioctl True False 0 (Set_size 12288) new_area sample_opened = Inr (0, [], [], sample_sized)"
    by code_simp+
  ultimately have "ash_run sample_sized ({} - told 0 (Set_size 12288) new_area \<union> hole_pages [])" by (rule run_ioctl)
  then have "ash_run sample_sized {}" by simp
  moreover have "map_of (am_areas sample_sized) 0 = Some (new_area\<lparr>ar_size := 12288\<rparr>)"
    "ashmem_mmap (\<lambda>p. p AND 7) 0 0 1 (new_area\<lparr>ar_size := 12288\<rparr>) = (0, 1, sample_area)"
    by code_simp+
  ultimately have "ash_run sample_mapped {}" unfolding sample_mapped_def by (rule run_mmap)
  moreover have "map_of (am_areas sample_mapped) 0 = Some sample_area"
    "ashmem_ioctl True False 0 (Unpin (Some (0, 0))) sample_area sample_mapped = Inr (0, [], [], sample_unpinned)"
    by code_simp+
  ultimately have "ash_run sample_unpinned ({} - told 0 (Unpin (Some (0, 0))) sample_area \<union> hole_pages [])" by (rule run_ioctl)
  then have "ash_run sample_unpinned {}" by simp
  moreover have "ashmem_shrink_scan True 1 sample_unpinned = Inr ([(0, 0, 2)], 3, sample_purged)" by code_simp
  ultimately have "ash_run sample_purged ({} \<union> hole_pages [(0, 0, 2)])" by (rule run_shrink)
  then show ?thesis by simp
qed

definition sample_purged_area :: area where
  "sample_purged_area = sample_area\<lparr>ar_unpinned := [\<lparr>rg_id = 0, rg_start = 0, rg_end = 2, rg_purged = True\<rparr>]\<rparr>"

lemma sample_region:
  "map_of (am_areas sample_purged) 0 = Some sample_purged_area" "ar_file sample_purged_area"
  "pin_pages (ar_size sample_purged_area) 4096 4096 = Some (1, 1)"
  by code_simp+

theorem no_silent_loss_witness:
  "\<exists>st'. ashmem_ioctl True False 0 (Pin (Some (4096, 4096))) sample_purged_area sample_purged = Inr (1, [], [], st') \<and>
     (0, 1) \<notin> unpinned_of st'"
  by (rule no_silent_loss [OF sample_run sample_region]) simp_all

theorem purge_spares_pinned_witness:
  "\<exists>hs freed st'. ashmem_shrink_scan True 1 sample_purged = Inr (hs, freed, st') \<and> hole_pages hs \<subseteq> unpinned_of sample_purged"
  using purge_spares_pinned [OF sample_run, of 1] by blast

theorem ashmem_refines_page_set_witness:
  "\<exists>st'. ashmem_ioctl True False 0 (Unpin (Some (4096, 4096))) sample_purged_area sample_purged = Inr (0, [], [], st') \<and>
     unpinned_of st' = unpinned_of sample_purged \<union> {0} \<times> {1..1}"
  using ashmem_refines_page_set [OF sample_run sample_region, of False] by blast

theorem failed_split_forgets_witness:
  "\<exists>r' l'. ashmem_pin False 0 1 1 [\<lparr>rg_id = 0, rg_start = 0, rg_end = 2, rg_purged = True\<rparr>] (am_lru sample_purged) = (True, [r'], l') \<and>
     flagged_pages [\<lparr>rg_id = 0, rg_start = 0, rg_end = 2, rg_purged = True\<rparr>] \<inter> {1 + 1..2} \<noteq> {} \<and>
     ashmem_pin True 0 (1 + 1) 2 [r'] l' = (False, [r'], l')"
  using failed_split_forgets [of "\<lparr>rg_id = 0, rg_start = 0, rg_end = 2, rg_purged = True\<rparr>" 1 1 0 "am_lru sample_purged" True] by simp


end
