(* ===== verification/Spec2Isabelle.thy ===== *)
theory Spec2Isabelle
  imports Ring_Queue Text_Utils Binary_Config Framing Rpc Network Qemud At_Modem Adb_Proxy Pipe_Clients
    Egl_Config Renderer_State Geometry Window_Manager Sdl_Platform Layer_Composer Keycode_Map Touch_Input
    Input_Device Render_Control Small_Vector Io_Stream Render_Thread
    App_Database Android_Bridge Lxc_Container Audio_Sink Rootfs_Mounts Guest_Service Guest_Qemud Guest_Mux Guest_Looper Ashmem
begin

text \<open>
  Verification development of the host daemon under \<open>src/src/anbox\<close>, which runs an Android
  system in a container and shows its applications as windows of the host.

  \<^bold>\<open>The program.\<close> The \<^emph>\<open>container manager\<close> (root) mounts the Android image and starts and stops
  the LXC container on request. The \<^emph>\<open>session manager\<close> (user) connects to it, opens the sockets
  the container sees and runs the rest in threads around one event loop: Android's qemu pipe,
  over which each guest process asks for a service (GLES rendering, GSM modem, sensors, adb, ...);
  the bridge, over which Android reports its windows and applications and is asked to launch,
  move or remove tasks; one render thread per guest GLES connection; input devices and windows
  through SDL. Paths below are relative to \<open>src/src/anbox\<close>.

  \<^bold>\<open>Theories.\<close>
  \<^item> \<open>Anbox_Prelude\<close>: bytes, fixed-width integers, exceptions, errno values, ordered maps and the
    generic lemmas.
  \<^item> \<open>Ring_Queue\<close> (\<open>graphics/buffer_queue.cpp\<close>, \<open>common/message_channel.cpp\<close>): both bounded queues
    refine the locale \<open>bounded_fifo\<close> (interpretations \<open>bq\<close> and \<open>mc\<close>); a producer and a consumer
    on one queue as a step relation, no wake-up is lost.
  \<^item> \<open>Small_Vector\<close> (\<open>common/small_vector.h\<close>): the vector with inline storage over an explicit heap
    refines a list; no operation leaks, frees twice or lets two vectors share a block.
  \<^item> \<open>Io_Stream\<close>, \<open>Render_Thread\<close> (\<open>graphics/buffered_io_stream.cpp\<close>, \<open>graphics/emugl/ReadBuffer.cpp\<close>,
    \<open>graphics/emugl/RenderThread.cpp\<close>, \<open>graphics/opengles_message_processor.cpp\<close>): the stream of a
    guest connection on two such queues. The read window is a client of the locale \<open>byte_source\<close>
    (interpretation \<open>stream\<close>). Commands reach the decoders in order and unchanged, replies reach
    the socket in order, a turn of the thread ends, the exit releases what the guest created, and
    the stop of the worker can miss its wake-up.
  \<^item> \<open>Text_Utils\<close>, \<open>Binary_Config\<close> (\<open>utils.cpp\<close>, \<open>utils/environment_file.cpp\<close>,
    \<open>common/binary_writer.cpp\<close>, \<open>android/ip_config_builder.cpp\<close>): string helpers; the round trip of
    the network configuration file.
  \<^item> \<open>Framing\<close>: the locales \<open>framing\<close> and \<open>framed_codec\<close>, the contract of a parser that takes
    messages off a byte stream: the messages do not depend on how the bytes were split into reads.
    Interpreted by \<open>Rpc\<close> (\<open>rpc/\<close>), \<open>Qemud\<close> (\<open>qemu/qemud_message_processor.cpp\<close> and the services)
    and \<open>At_Modem\<close> (\<open>qemu/at_parser.cpp\<close>, \<open>qemu/gsm_message_processor.cpp\<close>). \<open>Rpc\<close> also
    holds the cache of pending calls: a call is completed once, by its response or by the loss of
    the connection.
  \<^item> \<open>Network\<close> (\<open>network/\<close>): connections, the blocking send, acceptors, descriptor passing.
    \<open>Adb_Proxy\<close> and \<open>Pipe_Clients\<close> (\<open>qemu/adb_message_processor.cpp\<close>,
    \<open>qemu/pipe_connection_creator.cpp\<close>): a state machine with its reachable states, and the choice
    of a service.
  \<^item> \<open>Egl_Config\<close>, \<open>Renderer_State\<close>, \<open>Render_Control\<close> (\<open>graphics/emugl/\<close>): the tables of
    configurations, contexts, surfaces and counted colour buffers with their invariant under every
    operation, and the guest's renderControl commands on top of them.
  \<^item> \<open>Geometry\<close>, \<open>Window_Manager\<close>, \<open>Sdl_Platform\<close>, \<open>Layer_Composer\<close> (\<open>graphics/rect.cpp\<close>, \<open>wm/\<close>,
    \<open>platform/sdl/window.cpp\<close>, \<open>graphics/*composer*.cpp\<close>): the windows of Android's tasks. A platform
    is an instance of \<open>window_platform\<close> (\<open>null_platform\<close>, \<open>sdl_platform\<close>), a manager one of
    \<open>window_manager\<close> (\<open>multi_manager\<close>, \<open>single_manager\<close>); the composer relies on \<open>task_lookup\<close>
    (\<open>multi_lookup\<close>). Windows follow the reported tasks, layers reach the window of their task.
  \<^item> \<open>Keycode_Map\<close>, \<open>Touch_Input\<close>, \<open>Input_Device\<close> (\<open>platform/sdl/\<close>, \<open>input/\<close>): from SDL events to
    the events Android reads; the multi-touch stream refines the set of contacts.
  \<^item> \<open>Audio_Sink\<close> (\<open>audio/server.cpp\<close>, \<open>platform/sdl/audio_sink.cpp\<close>): the audio clients and the sink
    on a \<open>BufferQueue\<close>: SDL gets the samples in the order they were written.
  \<^item> \<open>App_Database\<close>, \<open>Android_Bridge\<close> (\<open>application/\<close>, \<open>bridge/\<close>, \<open>common/wait_handle.cpp\<close>): the installed
    applications and their launchers; the calls to and from Android with their time limits.
  \<^item> \<open>Guest_Service\<close> (\<open>src/android/hardware/anbox/service\<close>): the daemon inside Android at the other end of
    the bridge. Composed with \<open>Android_Bridge\<close>: what the framework reports is what the host applies,
    and what the host asks for is what Android is made to do.
  \<^item> \<open>Guest_Qemud\<close>, \<open>Guest_Mux\<close>, \<open>Guest_Looper\<close> (\<open>src/android/hardware/anbox/qemud/qemud.c\<close>): the daemon inside
    Android that multiplexes its emulator services over one stream: the framing of the stream, an
    instance of \<open>framed_codec\<close>; the clients, their channels and the control messages, with the packets
    that reach the host and the clients in every run; the event loop and the kernel's set of
    descriptors.
  \<^item> \<open>Ashmem\<close> (\<open>src/modules/anbox/ashmem/ashmem.c\<close>): the kernel module that gives the container shared memory:
    areas, the ranges of unpinned pages and the list of what may be purged. The ranges refine a set
    of pages; what is pinned is never purged, and what was purged is reported when it is pinned.
  \<^item> \<open>Lxc_Container\<close> (\<open>container/\<close>, \<open>common/binder_device_allocator.cpp\<close>, \<open>system_configuration.cpp\<close>): the
    life of the container, what it is configured with, and the management API.
  \<^item> \<open>Rootfs_Mounts\<close> (\<open>cmds/container_manager.cpp\<close>, \<open>common/mount_entry.cpp\<close>, \<open>common/loop_device*.cpp\<close>):
    the mounts of the Android image, and the order in which they are undone.

  \<^bold>\<open>How code becomes definitions.\<close> A class is a record, a method a function on it; what a method
  does to the outside is a trace of calls or of sent bytes that it returns. An exception is
  \<open>Inl\<close> of an \<open>exn\<close>, behaviour C++ leaves undefined is the exception \<open>Undefined\<close>. A call that waits on
  a condition variable returns \<open>Wait\<close>, or leaves the state from which it goes on. Signed 32-bit arithmetic
  goes through \<open>s32\<close>, unsigned values whose wrap-around can be seen are words. Protobuf, Boost,
  EGL, SDL, liblxc, the generated decoders, the file system and the kernel are parameters.

  \<^bold>\<open>Bounds and fuel.\<close> Loops that retry a system call recurse on the list of the answers the kernel
  gives, so a theorem about them holds for every such list. The search for a free handle is a
  partial function, because it does not return when every handle is taken; the search for a free
  channel of the guest's multiplexer ends, at the latest with the overflow of its counter. The properties of the
  renderer speak of the calls that return. The read window is shown to grow while it is shorter
  than \<open>2 ^ 30\<close> bytes, the range in which its \<open>int\<close> arithmetic is exact. RPC payloads are shorter than
  \<open>2 ^ 24\<close> bytes and qemud commands than \<open>2 ^ 16\<close>, the limits of their headers.

  \<^bold>\<open>Not modelled.\<close> Start-up glue (\<open>cli.cpp\<close>, \<open>daemon.cpp\<close>, \<open>runtime.cpp\<close>, \<open>cmds/session_manager.cpp\<close>,
  \<open>graphics/gl_renderer_server.cpp\<close>) creates the objects above and joins threads. The D-Bus stubs and
  skeletons are glue to a library. GL drawing (\<open>ColorBuffer.cpp\<close>, \<open>TextureDraw.cpp\<close>,
  \<open>TextureResize.cpp\<close>, \<open>program_family.cpp\<close>) is a sequence of GL calls whose meaning is the driver's.
  Logging and the splash screen only produce output. Of the code that runs inside Android
  (\<open>src/android\<close>) only the two daemons above are modelled, the GL encoders and drivers there are not; the
  kernel module \<open>binder\<close> and the vendored libraries (\<open>src/thirdparty\<close>) belong to other programs, apart from the two base classes of the emulator's GLES library that the daemon's
  streams extend.
\<close>

end
